theory Spec2Isabelle
  imports Complex_Main "HOL-Library.Word"
begin

section \<open>Shared data model\<close>

text \<open>
  The return codes of the library that the modelled functions use.
\<close>

datatype GrB_Info = GrB_SUCCESS | GrB_NO_VALUE | GrB_OUT_OF_MEMORY | GrB_PANIC

text \<open>
  Type codes. Only the distinction between the built-in codes and \<open>GB_UDT_code\<close>
  (a user-defined type) matters to the functions below.
\<close>

datatype GB_Type_code =
    GB_ignore_code | GB_BOOL_code | GB_INT8_code | GB_UINT8_code | GB_INT16_code
  | GB_UINT16_code | GB_INT32_code | GB_UINT32_code | GB_INT64_code | GB_UINT64_code
  | GB_FP32_code | GB_FP64_code | GB_FC32_code | GB_FC64_code | GB_UDT_code

record GrB_Type =
  code :: GB_Type_code
  size :: nat
  defn :: "string option"

text \<open>
  The matrix descriptor. A pointer field of the C struct is an optional list: \<open>None\<close>
  is the NULL pointer. \<open>Mh\<close> is the hyperlist \<open>A->h\<close>, \<open>Mp\<close> the vector-start
  offsets \<open>A->p\<close>, \<open>Mb\<close> the occupancy bitmap \<open>A->b\<close>, \<open>Mi\<close> the row indices
  \<open>A->i\<close> and \<open>Mx\<close> the values \<open>A->x\<close>. \<open>Pending\<close> is true when the matrix
  holds pending tuples. The \<open>*_shallow\<close> flags mark borrowed arrays.
\<close>

record 'a GrB_Matrix =
  mtype :: GrB_Type
  vlen :: int
  vdim :: int
  nvec :: int
  plen :: int
  nvals :: int
  nvec_nonempty :: int
  Mh :: "int list option"
  Mp :: "int list option"
  Mb :: "int list option"
  Mi :: "int list option"
  Mx :: "'a list option"
  iso :: bool
  jumbled :: bool
  nzombies :: int
  Pending :: bool
  p_shallow :: bool
  h_shallow :: bool
  b_shallow :: bool
  i_shallow :: bool
  x_shallow :: bool

definition GB_IMAX :: "int \<Rightarrow> int \<Rightarrow> int" where
  "GB_IMAX a b = (if a > b then a else b)"

definition GB_IS_BITMAP :: "('a, 'z) GrB_Matrix_scheme \<Rightarrow> bool" where
  "GB_IS_BITMAP A = (Mb A \<noteq> None)"

definition GB_IS_FULL :: "('a, 'z) GrB_Matrix_scheme \<Rightarrow> bool" where
  "GB_IS_FULL A = (Mh A = None \<and> Mp A = None \<and> Mi A = None \<and> Mb A = None)"

definition GB_IS_HYPERSPARSE :: "('a, 'z) GrB_Matrix_scheme \<Rightarrow> bool" where
  "GB_IS_HYPERSPARSE A = (Mh A \<noteq> None)"

text \<open>
  Modelled from the spec: \<open>GB_nnz\<close> is declared outside the modelled sources; it is the
  number of entries of the matrix, which the descriptor keeps in \<open>nvals\<close>.
\<close>

definition GB_nnz :: "('a, 'z) GrB_Matrix_scheme \<Rightarrow> int" where
  "GB_nnz A = nvals A"


section \<open>GB_AxB_dot3_cuda_branch: the accelerator-offload oracle\<close>

text \<open>
  The work estimate is computed in C doubles. The arithmetic of doubles is a parameter
  of the model: \<open>of_int64\<close> is the conversion \<open>(double) n\<close>, \<open>fdiv\<close> and \<open>fmul\<close>
  are division and multiplication, \<open>fless\<close> is \<open><\<close>. The GPU-count heuristic
  \<open>GB_ngpus_to_use\<close> is declared outside the modelled sources and is a parameter too.
\<close>

record 'd fp_ops =
  of_int64 :: "int \<Rightarrow> 'd"
  fdiv :: "'d \<Rightarrow> 'd \<Rightarrow> 'd"
  fmul :: "'d \<Rightarrow> 'd \<Rightarrow> 'd"
  fless :: "'d \<Rightarrow> 'd \<Rightarrow> bool"

definition GB_IMIN_fp :: "'d fp_ops \<Rightarrow> 'd \<Rightarrow> 'd \<Rightarrow> 'd" where
  "GB_IMIN_fp fp a b = (if fless fp a b then a else b)"

definition avg_degree :: "'d fp_ops \<Rightarrow> ('a, 'z) GrB_Matrix_scheme \<Rightarrow> 'd" where
  "avg_degree fp A = fdiv fp (of_int64 fp (GB_nnz A)) (of_int64 fp (GB_IMAX 1 (nvec A)))"

definition cuda_work :: "'d fp_ops \<Rightarrow> ('m, 'y) GrB_Matrix_scheme \<Rightarrow>
    ('a, 'z) GrB_Matrix_scheme \<Rightarrow> ('b, 'w) GrB_Matrix_scheme \<Rightarrow> 'd" where
  "cuda_work fp M A B =
     fmul fp (of_int64 fp (GB_nnz M)) (GB_IMIN_fp fp (avg_degree fp A) (avg_degree fp B))"

definition GB_AxB_dot3_cuda_branch :: "'d fp_ops \<Rightarrow> ('d \<Rightarrow> int) \<Rightarrow>
    ('m, 'y) GrB_Matrix_scheme \<Rightarrow> ('a, 'z) GrB_Matrix_scheme \<Rightarrow>
    ('b, 'w) GrB_Matrix_scheme \<Rightarrow> bool" where
  "GB_AxB_dot3_cuda_branch fp GB_ngpus_to_use M A B =
     (let adeg = fdiv fp (of_int64 fp (GB_nnz A)) (of_int64 fp (GB_IMAX 1 (nvec A)));
          bdeg = fdiv fp (of_int64 fp (GB_nnz B)) (of_int64 fp (GB_IMAX 1 (nvec B)));
          work = fmul fp (of_int64 fp (GB_nnz M)) (GB_IMIN_fp fp adeg bdeg);
          ngpus_to_use = GB_ngpus_to_use work
      in if ngpus_to_use > 0
            \<and> code (mtype A) \<noteq> GB_UDT_code
            \<and> code (mtype B) \<noteq> GB_UDT_code
            \<and> \<not> GB_IS_BITMAP A \<and> \<not> GB_IS_BITMAP B
            \<and> \<not> GB_IS_FULL A \<and> \<not> GB_IS_FULL B
         then True else False)"


section \<open>GB_AxB_saxpy5_jit: the JIT dispatcher\<close>

text \<open>
  A compiled artifact, as the dynamic loader presents it. Each \<open>sym_*\<close> field is the
  result of \<open>dlsym\<close> for one exported symbol, \<open>None\<close> when the artifact lacks it. The
  kernel is identified by the artifact it comes from and the return code of its call.
\<close>

record jit_kernel =
  from_lib :: nat
  kernel_info :: GrB_Info

record dl_library =
  lib_id :: nat
  sym_query_version :: "(nat \<times> nat \<times> nat) option"
  sym_query_defn :: "(nat \<Rightarrow> string option) option"
  sym_query_monoid :: "(int list \<times> int list option) option"
  sym_kernel :: "jit_kernel option"

record GB_Operator =
  op_defn :: "string option"

record GrB_Monoid =
  monoid_op :: GB_Operator
  identity :: "int list"
  terminal :: "int list option"

record GrB_Semiring =
  add :: GrB_Monoid
  multiply :: GB_Operator

text \<open>
  Everything the dispatcher obtains from outside itself: the build flag \<open>GBRENAME\<close>,
  the hash and suffix length that \<open>GB_encodify_mxm\<close> returns, the result of
  \<open>GB_jitifyer_lookup\<close>, the result of the first \<open>dlopen\<close> of the artifact on disk,
  whether \<open>fopen\<close> of the source file succeeds, the result of the \<open>dlopen\<close> that
  follows \<open>GB_jitifyer_compile\<close>, and whether \<open>GB_jitifyer_insert\<close> succeeds.
\<close>

record jit_env =
  GBRENAME :: bool
  encodify_hash :: "64 word"
  suffix_len :: nat
  jit_lookup :: "jit_kernel option"
  disk_artifact :: "dl_library option"
  source_writable :: bool
  compiled_artifact :: "dl_library option"
  insert_ok :: bool
  current_version :: "nat \<times> nat \<times> nat"

record jit_request =
  semiring :: GrB_Semiring
  ctype :: GrB_Type
  atype :: GrB_Type
  btype :: GrB_Type

record jit_outcome =
  jit_info :: GrB_Info
  jit_called :: "jit_kernel option"
  jit_dlclosed :: "nat list"
  jit_compiled :: bool
  jit_inserted :: "jit_kernel option"

definition UINT64_MAX :: "64 word" where
  "UINT64_MAX = - 1"

text \<open>
  Modelled from the spec: \<open>GB_jitifyer_match_version\<close>, \<open>GB_jitifyer_match_defn\<close> and
  \<open>GB_jitifyer_match_idterm\<close> are declared outside the modelled sources. The artifact
  reports, through its introspection symbols, the version, the textual definitions of the
  operators and types it was compiled with and the identity and terminal value of the
  monoid; each is compared with the current request, and a missing introspection symbol
  counts as a mismatch.
\<close>

definition GB_jitifyer_match_version :: "jit_env \<Rightarrow> dl_library \<Rightarrow> bool" where
  "GB_jitifyer_match_version env dl_handle =
     (case sym_query_version dl_handle of
        None \<Rightarrow> False
      | Some v \<Rightarrow> v = current_version env)"

definition GB_jitifyer_match_defn ::
    "(nat \<Rightarrow> string option) option \<Rightarrow> nat \<Rightarrow> string option \<Rightarrow> bool" where
  "GB_jitifyer_match_defn dl_query k current_defn =
     (case dl_query of
        None \<Rightarrow> False
      | Some query_defn \<Rightarrow> query_defn k = current_defn)"

definition GB_jitifyer_match_idterm :: "dl_library \<Rightarrow> GrB_Monoid \<Rightarrow> bool" where
  "GB_jitifyer_match_idterm dl_handle mon =
     (case sym_query_monoid dl_handle of
        None \<Rightarrow> False
      | Some (idv, tv) \<Rightarrow> idv = identity mon \<and> tv = terminal mon)"

text \<open>
  Lines 103 to 120 of the dispatcher: the definitions recorded in an artifact that was
  found on disk are compared with the request.
\<close>

definition artifact_stale :: "jit_env \<Rightarrow> jit_request \<Rightarrow> dl_library \<Rightarrow> bool" where
  "artifact_stale env rq dl_handle =
     (let mon = add (semiring rq);
          dl_query = sym_query_defn dl_handle
      in \<not> GB_jitifyer_match_version env dl_handle
         \<or> \<not> GB_jitifyer_match_defn dl_query 0 (op_defn (monoid_op mon))
         \<or> \<not> GB_jitifyer_match_defn dl_query 1 (op_defn (multiply (semiring rq)))
         \<or> \<not> GB_jitifyer_match_defn dl_query 2 (defn (ctype rq))
         \<or> \<not> GB_jitifyer_match_defn dl_query 3 (defn (atype rq))
         \<or> \<not> GB_jitifyer_match_defn dl_query 4 (defn (btype rq))
         \<or> \<not> GB_jitifyer_match_idterm dl_handle mon)"

text \<open>
  The outcome of a call records the return code, the kernel that was called (if any), the
  artifacts that were unloaded with \<open>dlclose\<close>, whether \<open>GB_jitifyer_compile\<close> was run,
  and the kernel inserted into the hash table (if any).
\<close>

definition jit_return :: "GrB_Info \<Rightarrow> nat list \<Rightarrow> bool \<Rightarrow> jit_outcome" where
  "jit_return r cl cmp =
     \<lparr>jit_info = r, jit_called = None, jit_dlclosed = cl, jit_compiled = cmp,
      jit_inserted = None\<rparr>"

text \<open>
  Lines 189 to 215: resolve the kernel entry symbol, insert the kernel into the hash
  table and call it.
\<close>

definition jit_resolve_and_call ::
    "jit_env \<Rightarrow> dl_library \<Rightarrow> nat list \<Rightarrow> bool \<Rightarrow> jit_outcome" where
  "jit_resolve_and_call env dl_handle cl cmp =
     (case sym_kernel dl_handle of
        None \<Rightarrow> jit_return GrB_PANIC (cl @ [lib_id dl_handle]) cmp
      | Some dl_function \<Rightarrow>
          if \<not> insert_ok env
          then jit_return GrB_OUT_OF_MEMORY (cl @ [lib_id dl_handle]) cmp
          else \<lparr>jit_info = kernel_info dl_function, jit_called = Some dl_function,
                jit_dlclosed = cl, jit_compiled = cmp, jit_inserted = Some dl_function\<rparr>)"

text \<open>
  Lines 126 to 183: write the source file, compile it and load the artifact. The result
  of \<open>GB_jitifyer_compile\<close> is not examined (line 175); \<open>compiled_artifact\<close> is
  what the \<open>dlopen\<close> of line 176 then finds under the file name of the library.
\<close>

definition jit_compile_and_load :: "jit_env \<Rightarrow> nat list \<Rightarrow> jit_outcome" where
  "jit_compile_and_load env cl =
     (if \<not> source_writable env then jit_return GrB_PANIC cl False
      else case compiled_artifact env of
             None \<Rightarrow> jit_return GrB_PANIC cl True
           | Some dl_handle \<Rightarrow> jit_resolve_and_call env dl_handle cl True)"

definition GB_AxB_saxpy5_jit :: "jit_env \<Rightarrow> jit_request \<Rightarrow> jit_outcome" where
  "GB_AxB_saxpy5_jit env rq =
     (if GBRENAME env then jit_return GrB_NO_VALUE [] False
      else if encodify_hash env = UINT64_MAX then jit_return GrB_NO_VALUE [] False
      else case jit_lookup env of
        Some dl_function \<Rightarrow>
          \<lparr>jit_info = kernel_info dl_function, jit_called = Some dl_function,
           jit_dlclosed = [], jit_compiled = False, jit_inserted = None\<rparr>
      | None \<Rightarrow>
          (let builtin = (suffix_len env = 0)
           in case disk_artifact env of
                None \<Rightarrow> jit_compile_and_load env []
              | Some dl_handle \<Rightarrow>
                  if \<not> builtin \<and> artifact_stale env rq dl_handle
                  then jit_compile_and_load env [lib_id dl_handle]
                  else jit_resolve_and_call env dl_handle [] False))"

subsection \<open>Example requests and artifacts\<close>

definition example_semiring :: GrB_Semiring where
  "example_semiring =
     \<lparr>add = \<lparr>monoid_op = \<lparr>op_defn = Some ''z = x + y''\<rparr>, identity = [0],
             terminal = None\<rparr>,
      multiply = \<lparr>op_defn = Some ''z = x * y''\<rparr>\<rparr>"

definition example_type :: GrB_Type where
  "example_type = \<lparr>code = GB_UDT_code, size = 8, defn = Some ''typedef struct { double re ; } my ;''\<rparr>"

definition example_request :: jit_request where
  "example_request =
     \<lparr>semiring = example_semiring, ctype = example_type, atype = example_type,
      btype = example_type\<rparr>"

definition fresh_library :: dl_library where
  "fresh_library =
     \<lparr>lib_id = 2, sym_query_version = Some (8, 0, 0),
      sym_query_defn = Some (\<lambda>k. if k = 0 then Some ''z = x + y''
                                 else if k = 1 then Some ''z = x * y''
                                 else Some ''typedef struct { double re ; } my ;''),
      sym_query_monoid = Some ([0], None),
      sym_kernel = Some \<lparr>from_lib = 2, kernel_info = GrB_SUCCESS\<rparr>\<rparr>"

definition stale_library :: dl_library where
  "stale_library =
     \<lparr>lib_id = 1, sym_query_version = Some (8, 0, 0),
      sym_query_defn = Some (\<lambda>k. if k = 0 then Some ''z = x + y''
                                 else if k = 1 then Some ''z = x - y''
                                 else Some ''typedef struct { double re ; } my ;''),
      sym_query_monoid = Some ([0], None),
      sym_kernel = Some \<lparr>from_lib = 1, kernel_info = GrB_SUCCESS\<rparr>\<rparr>"

definition example_env :: jit_env where
  "example_env =
     \<lparr>GBRENAME = False, encodify_hash = 42, suffix_len = 7, jit_lookup = None,
      disk_artifact = None, source_writable = True,
      compiled_artifact = Some fresh_library, insert_ok = True,
      current_version = (8, 0, 0)\<rparr>"

subsection \<open>Example operands of the offload oracle\<close>

definition real_fp :: "real fp_ops" where
  "real_fp = \<lparr>of_int64 = real_of_int, fdiv = (/), fmul = (*), fless = (<)\<rparr>"

definition example_ngpus :: "real \<Rightarrow> int" where
  "example_ngpus work = (if work \<ge> 1000 then 1 else 0)"

definition example_builtin_type :: GrB_Type where
  "example_builtin_type = \<lparr>code = GB_FP64_code, size = 8, defn = None\<rparr>"

definition example_operand :: "GrB_Type \<Rightarrow> int \<Rightarrow> int \<Rightarrow> bool GrB_Matrix" where
  "example_operand t nv nz =
     \<lparr>mtype = t, vlen = 1000, vdim = nv, nvec = nv, plen = nv, nvals = nz,
      nvec_nonempty = nv, Mh = None, Mp = Some [], Mb = None, Mi = Some [],
      Mx = Some [], iso = False, jumbled = False, nzombies = 0, Pending = False,
      p_shallow = False, h_shallow = False, b_shallow = False, i_shallow = False,
      x_shallow = False\<rparr>"


section \<open>GB_selector: the selector engine\<close>

subsection \<open>Operators\<close>

text \<open>
  Modelled from the spec: the enumeration of index-unary opcodes is declared outside the
  modelled sources. The selector compares opcodes by their position in the enumeration
  (\<open>opcode >= GB_VALUENE_idxunop_code && opcode <= GB_VALUELE_idxunop_code\<close>), so the
  model gives each opcode its number: first the positional operators, whose result
  depends only on the coordinates of an entry, then the zombie test, then the six
  comparisons of the value with the thunk, then the user-defined operator.
\<close>

datatype GB_Opcode =
    GB_ROWINDEX_idxunop_code | GB_COLINDEX_idxunop_code | GB_DIAGINDEX_idxunop_code
  | GB_FLIPDIAGINDEX_idxunop_code | GB_TRIL_idxunop_code | GB_TRIU_idxunop_code
  | GB_DIAG_idxunop_code | GB_OFFDIAG_idxunop_code | GB_COLLE_idxunop_code
  | GB_COLGT_idxunop_code | GB_ROWLE_idxunop_code | GB_ROWGT_idxunop_code
  | GB_NONZOMBIE_idxunop_code | GB_VALUENE_idxunop_code | GB_VALUEEQ_idxunop_code
  | GB_VALUEGT_idxunop_code | GB_VALUEGE_idxunop_code | GB_VALUELT_idxunop_code
  | GB_VALUELE_idxunop_code | GB_USER_idxunop_code

fun opcode_num :: "GB_Opcode \<Rightarrow> nat" where
  "opcode_num GB_ROWINDEX_idxunop_code = 46"
| "opcode_num GB_COLINDEX_idxunop_code = 47"
| "opcode_num GB_DIAGINDEX_idxunop_code = 48"
| "opcode_num GB_FLIPDIAGINDEX_idxunop_code = 49"
| "opcode_num GB_TRIL_idxunop_code = 50"
| "opcode_num GB_TRIU_idxunop_code = 51"
| "opcode_num GB_DIAG_idxunop_code = 52"
| "opcode_num GB_OFFDIAG_idxunop_code = 53"
| "opcode_num GB_COLLE_idxunop_code = 54"
| "opcode_num GB_COLGT_idxunop_code = 55"
| "opcode_num GB_ROWLE_idxunop_code = 56"
| "opcode_num GB_ROWGT_idxunop_code = 57"
| "opcode_num GB_NONZOMBIE_idxunop_code = 58"
| "opcode_num GB_VALUENE_idxunop_code = 59"
| "opcode_num GB_VALUEEQ_idxunop_code = 60"
| "opcode_num GB_VALUEGT_idxunop_code = 61"
| "opcode_num GB_VALUEGE_idxunop_code = 62"
| "opcode_num GB_VALUELT_idxunop_code = 63"
| "opcode_num GB_VALUELE_idxunop_code = 64"
| "opcode_num GB_USER_idxunop_code = 65"

definition GB_IS_INDEXUNARYOP_CODE_POSITIONAL :: "GB_Opcode \<Rightarrow> bool" where
  "GB_IS_INDEXUNARYOP_CODE_POSITIONAL opc =
     (opcode_num GB_ROWINDEX_idxunop_code \<le> opcode_num opc
      \<and> opcode_num opc \<le> opcode_num GB_ROWGT_idxunop_code)"

text \<open>
  \<open>GB_OPCODE_IS_POSITIONAL\<close> also covers the positional unary and binary operators;
  on the opcode of an index-unary operator it is the test above.
\<close>

definition GB_OPCODE_IS_POSITIONAL :: "GB_Opcode \<Rightarrow> bool" where
  "GB_OPCODE_IS_POSITIONAL opc = GB_IS_INDEXUNARYOP_CODE_POSITIONAL opc"

definition opcode_is_value :: "GB_Opcode \<Rightarrow> bool" where
  "opcode_is_value opc =
     (opcode_num opc \<ge> opcode_num GB_VALUENE_idxunop_code
      \<and> opcode_num opc \<le> opcode_num GB_VALUELE_idxunop_code)"

text \<open>
  An index-unary operator: its opcode and the test it applies to an entry, with the
  thunk already supplied. \<open>test op i j x\<close> is the result of the operator on the entry in
  row \<open>i\<close> and column \<open>j\<close> whose value is \<open>x\<close>; the typecast of the value to the input
  type of the operator is part of the test.
\<close>

record 'a GrB_IndexUnaryOp =
  opcode :: GB_Opcode
  test :: "int \<Rightarrow> int \<Rightarrow> 'a \<Rightarrow> bool"

text \<open>The flag \<open>flipij\<close> exchanges \<open>i\<close> and \<open>j\<close> for a user-defined operator.\<close>

definition entry_keep :: "'a GrB_IndexUnaryOp \<Rightarrow> bool \<Rightarrow> int \<Rightarrow> int \<Rightarrow> 'a \<Rightarrow> bool" where
  "entry_keep op flipij i j x =
     (if flipij \<and> opcode op = GB_USER_idxunop_code then test op j i x else test op i j x)"


subsection \<open>Faults, checked array accesses and bulk copies\<close>

text \<open>
  The file is compiled with \<open>GB_DEBUG\<close> defined, so a failed \<open>ASSERT\<close> aborts the
  call. An access outside an array is undefined behaviour in C; the model reports it.
\<close>

datatype sel_fault = AssertFailed | OutOfRange

definition bindE :: "'e + 'a \<Rightarrow> ('a \<Rightarrow> 'e + 'b) \<Rightarrow> 'e + 'b" where
  "bindE m f = (case m of Inl e \<Rightarrow> Inl e | Inr v \<Rightarrow> f v)"

definition ASSERT :: "bool \<Rightarrow> sel_fault + unit" where
  "ASSERT c = (if c then Inr () else Inl AssertFailed)"

text \<open>A NULL pointer is an array of no elements: every access to it is a fault.\<close>

definition arr :: "'a list option \<Rightarrow> 'a list" where
  "arr a = (case a of None \<Rightarrow> [] | Some xs \<Rightarrow> xs)"

definition rd :: "'a list \<Rightarrow> int \<Rightarrow> sel_fault + 'a" where
  "rd xs k = (if 0 \<le> k \<and> k < int (length xs) then Inr (xs ! nat k) else Inl OutOfRange)"

definition GB_memcpy ::
    "'a list \<Rightarrow> int \<Rightarrow> 'a list \<Rightarrow> int \<Rightarrow> int \<Rightarrow> sel_fault + 'a list" where
  "GB_memcpy dst doff src soff n =
     (if n < 0 \<or> doff < 0 \<or> soff < 0 \<or> int (length dst) < doff + n
         \<or> int (length src) < soff + n
      then Inl OutOfRange
      else Inr (take (nat doff) dst @ take (nat n) (drop (nat soff) src)
                @ drop (nat (doff + n)) dst))"

definition GB_memset :: "'a list \<Rightarrow> 'a \<Rightarrow> int \<Rightarrow> sel_fault + 'a list" where
  "GB_memset dst v n =
     (if n < 0 \<or> int (length dst) < n then Inl OutOfRange
      else Inr (replicate (nat n) v @ drop (nat n) dst))"

text \<open>
  The loops of the column selector: \<open>for (kk = a ; kk <= b ; kk++) Cp [kk] = Ap [kk+d] - c\<close>
  and \<open>for (kk = a ; kk <= b ; kk++) Cp [kk] = v\<close>.
\<close>

function copy_shift_loop ::
    "int list \<Rightarrow> int list \<Rightarrow> int \<Rightarrow> int \<Rightarrow> int \<Rightarrow> int \<Rightarrow> sel_fault + int list" where
  "copy_shift_loop Cp Ap kk b d c =
     (if kk \<le> b
      then bindE (rd Ap (kk + d)) (\<lambda>v.
             if 0 \<le> kk \<and> kk < int (length Cp)
             then copy_shift_loop (Cp[nat kk := v - c]) Ap (kk + 1) b d c
             else Inl OutOfRange)
      else Inr Cp)"
  by pat_completeness auto
termination
  by (relation "measure (\<lambda>(Cp, Ap, kk, b, d, c). nat (b + 1 - kk))") auto

function fill_loop :: "int list \<Rightarrow> int \<Rightarrow> int \<Rightarrow> int \<Rightarrow> sel_fault + int list" where
  "fill_loop Cp kk b v =
     (if kk \<le> b
      then if 0 \<le> kk \<and> kk < int (length Cp)
           then fill_loop (Cp[nat kk := v]) (kk + 1) b v
           else Inl OutOfRange
      else Inr Cp)"
  by pat_completeness auto
termination
  by (relation "measure (\<lambda>(Cp, kk, b, v). nat (b + 1 - kk))") auto

text \<open>
  Modelled from the spec: the macro \<open>GB_SPLIT_BINARY_SEARCH\<close> is declared outside the
  modelled sources. It is a binary search of \<open>X [pleft .. pright]\<close> for \<open>i\<close>; the
  selector states its result: if \<open>found\<close> then \<open>X [pleft] = i\<close>, otherwise every
  item before \<open>pleft\<close> is less than \<open>i\<close> and every item from \<open>pleft\<close> on is greater.
  The search starts at \<open>pleft = 0\<close> and the bounds stay non-negative, so the midpoint
  \<open>(pleft + pright) / 2\<close> of C is \<open>div\<close>.
\<close>

function GB_TRIM_BINARY_SEARCH ::
    "int \<Rightarrow> int list \<Rightarrow> int \<Rightarrow> int \<Rightarrow> sel_fault + (int \<times> int)" where
  "GB_TRIM_BINARY_SEARCH i X pleft pright =
     (if pleft < pright
      then (let pmiddle = (pleft + pright) div 2
            in bindE (rd X pmiddle) (\<lambda>v.
                 if v < i then GB_TRIM_BINARY_SEARCH i X (pmiddle + 1) pright
                 else GB_TRIM_BINARY_SEARCH i X pleft pmiddle))
      else Inr (pleft, pright))"
  by pat_completeness auto
termination
  by (relation "measure (\<lambda>(i, X, pleft, pright). nat (pright - pleft))") auto

definition GB_SPLIT_BINARY_SEARCH ::
    "int \<Rightarrow> int list \<Rightarrow> int \<Rightarrow> int \<Rightarrow> sel_fault + (int \<times> bool)" where
  "GB_SPLIT_BINARY_SEARCH i X pleft0 pright0 =
     bindE (GB_TRIM_BINARY_SEARCH i X pleft0 pright0) (\<lambda>(pleft, pright).
       if pleft = pright
       then bindE (rd X pleft) (\<lambda>v.
              if v = i then Inr (pleft, True)
              else if i > v then Inr (pleft + 1, False)
              else Inr (pleft, False))
       else Inr (pleft, False))"


subsection \<open>Allocation, results and the helper functions\<close>

text \<open>
  Every allocation of the selector is named by its site. The environment of a call says
  which allocations succeed (\<open>mem\<close>), which form \<open>GB_new\<close> chooses for a matrix of
  automatic sparsity (\<open>auto_hyper\<close>, from the dimension), and what an uninitialised
  cell of a fresh array holds (\<open>junk\<close>, \<open>junkx\<close>).
\<close>

datatype alloc_site =
    Alloc_Cp | Alloc_ek_slicing | Alloc_Work | Alloc_Zp | Alloc_Ci | Alloc_Cx | Alloc_Ch
  | Alloc_new | Alloc_new_bix | Alloc_shallow_copy | Alloc_selector_bitmap

record 'a sel_env =
  mem :: "alloc_site \<Rightarrow> bool"
  auto_hyper :: "int \<Rightarrow> bool"
  junk :: int
  junkx :: 'a

text \<open>
  The state a call leaves behind: the return code, the input matrix, the content of the
  output header (\<open>None\<close> when the header holds no matrix), and the workspace arrays that
  are still allocated.
\<close>

record 'a sel_result =
  sel_info :: GrB_Info
  sel_A :: "'a GrB_Matrix"
  sel_C :: "'a GrB_Matrix option"
  sel_live :: "alloc_site set"

definition GB_IMIN :: "int \<Rightarrow> int \<Rightarrow> int" where
  "GB_IMIN a b = (if a < b then a else b)"

text \<open>
  \<open>GB_FREE_WORKSPACE\<close> (lines 30 to 39) frees \<open>Zp\<close>, \<open>Work\<close>, \<open>A_ek_slicing\<close>,
  \<open>Cp\<close>, \<open>Ch\<close>, \<open>Ci\<close> and \<open>Cx\<close>. \<open>GB_FREE_ALL\<close> (lines 41 to 45) also frees the
  content of \<open>C\<close>.
\<close>

definition GB_FREE_WORKSPACE :: "alloc_site set \<Rightarrow> alloc_site set" where
  "GB_FREE_WORKSPACE live =
     live - {Alloc_Zp, Alloc_Work, Alloc_ek_slicing, Alloc_Cp, Alloc_Ch, Alloc_Ci, Alloc_Cx}"

definition GB_FREE_ALL ::
    "GrB_Info \<Rightarrow> 'a GrB_Matrix \<Rightarrow> alloc_site set \<Rightarrow> 'a sel_result" where
  "GB_FREE_ALL r A live =
     \<lparr>sel_info = r, sel_A = A, sel_C = None, sel_live = GB_FREE_WORKSPACE live\<rparr>"

text \<open>
  Modelled from the spec: \<open>GB_new\<close>, \<open>GB_new_bix\<close> and \<open>GB_shallow_copy\<close> are
  declared outside the modelled sources. \<open>GB_new\<close> with \<open>GB_Ap_calloc\<close> and automatic
  sparsity returns an empty matrix of the given type and shape, sparse or hypersparse;
  \<open>GB_new_bix\<close> returns a sparse or hypersparse matrix whose arrays are allocated and not
  initialised; \<open>GB_shallow_copy\<close> returns a matrix that borrows every array of its
  source. Each reports out-of-memory, and leaves no content, when its allocation fails.
\<close>

definition GB_new_empty ::
    "'a sel_env \<Rightarrow> GrB_Type \<Rightarrow> int \<Rightarrow> int \<Rightarrow> GrB_Info \<times> 'a GrB_Matrix option" where
  "GB_new_empty env t avlen avdim =
     (if \<not> mem env Alloc_new then (GrB_OUT_OF_MEMORY, None)
      else if auto_hyper env avdim
      then (GrB_SUCCESS, Some
             \<lparr>mtype = t, vlen = avlen, vdim = avdim, nvec = 0, plen = GB_IMIN 1 avdim,
              nvals = 0, nvec_nonempty = 0,
              Mh = Some (replicate (nat (GB_IMIN 1 avdim)) (junk env)),
              Mp = Some (replicate (nat (GB_IMIN 1 avdim) + 1) 0),
              Mb = None, Mi = None, Mx = None, iso = False, jumbled = False,
              nzombies = 0, Pending = False, p_shallow = False, h_shallow = False,
              b_shallow = False, i_shallow = False, x_shallow = False\<rparr>)
      else (GrB_SUCCESS, Some
             \<lparr>mtype = t, vlen = avlen, vdim = avdim, nvec = avdim, plen = avdim,
              nvals = 0, nvec_nonempty = 0, Mh = None,
              Mp = Some (replicate (nat avdim + 1) 0),
              Mb = None, Mi = None, Mx = None, iso = False, jumbled = False,
              nzombies = 0, Pending = False, p_shallow = False, h_shallow = False,
              b_shallow = False, i_shallow = False, x_shallow = False\<rparr>))"

definition GB_new_bix ::
    "'a sel_env \<Rightarrow> GrB_Type \<Rightarrow> int \<Rightarrow> int \<Rightarrow> bool \<Rightarrow> int \<Rightarrow> int \<Rightarrow> bool
      \<Rightarrow> GrB_Info \<times> 'a GrB_Matrix option" where
  "GB_new_bix env t avlen avdim hyper cplen nzmax C_iso =
     (if \<not> mem env Alloc_new_bix then (GrB_OUT_OF_MEMORY, None)
      else (let pl = (if hyper then GB_IMIN cplen avdim else avdim)
            in (GrB_SUCCESS, Some
                 \<lparr>mtype = t, vlen = avlen, vdim = avdim,
                  nvec = (if hyper then 0 else avdim), plen = pl,
                  nvals = 0, nvec_nonempty = 0,
                  Mh = (if hyper then Some (replicate (nat pl) (junk env)) else None),
                  Mp = Some (replicate (nat pl + 1) (junk env)),
                  Mb = None,
                  Mi = Some (replicate (nat (GB_IMAX nzmax 1)) (junk env)),
                  Mx = Some (replicate (if C_iso then 1 else nat (GB_IMAX nzmax 1))
                              (junkx env)),
                  iso = C_iso, jumbled = False, nzombies = 0, Pending = False,
                  p_shallow = False, h_shallow = False, b_shallow = False,
                  i_shallow = False, x_shallow = False\<rparr>)))"

definition GB_shallow_copy ::
    "'a sel_env \<Rightarrow> 'a GrB_Matrix \<Rightarrow> GrB_Info \<times> 'a GrB_Matrix option" where
  "GB_shallow_copy env A =
     (if \<not> mem env Alloc_shallow_copy then (GrB_OUT_OF_MEMORY, None)
      else (GrB_SUCCESS, Some
             (A\<lparr>p_shallow := (Mp A \<noteq> None), h_shallow := (Mh A \<noteq> None),
                b_shallow := (Mb A \<noteq> None), i_shallow := (Mi A \<noteq> None),
                x_shallow := (Mx A \<noteq> None)\<rparr>)))"

text \<open>A \<open>return\<close> of the result of one of the helper functions.\<close>

definition sel_return ::
    "GrB_Info \<times> 'a GrB_Matrix option \<Rightarrow> 'a GrB_Matrix \<Rightarrow> 'a sel_result" where
  "sel_return r A = \<lparr>sel_info = fst r, sel_A = A, sel_C = snd r, sel_live = {}\<rparr>"

text \<open>
  Modelled from the spec: \<open>GB_nvec_nonempty\<close> is declared outside the modelled sources;
  it counts the vectors that hold at least one entry.
\<close>

definition GB_nvec_nonempty :: "int list \<Rightarrow> int \<Rightarrow> int" where
  "GB_nvec_nonempty Cp cnvec =
     int (length (filter (\<lambda>k. Cp ! k < Cp ! Suc k) [0 ..< nat cnvec]))"


subsection \<open>The column selectors (lines 287 to 540)\<close>

text \<open>Lines 302 to 332: find column \<open>j\<close> in \<open>A\<close>.\<close>

definition col_find ::
    "GB_Opcode \<Rightarrow> 64 word \<Rightarrow> int \<Rightarrow> int \<Rightarrow> int list option \<Rightarrow> sel_fault + (int \<times> bool)" where
  "col_find opc ithunk avdim anvec Ah =
     (let j = (if opc = GB_COLINDEX_idxunop_code then sint (- ithunk) else sint ithunk)
      in if j < 0 then Inr (0, False)
         else if j \<ge> avdim then Inr (anvec, False)
         else case Ah of
                Some h \<Rightarrow> GB_SPLIT_BINARY_SEARCH j h 0 (anvec - 1)
              | None \<Rightarrow> Inr (j, True))"

text \<open>Lines 338 to 361: the number of entries and of vectors of \<open>C\<close>.\<close>

definition col_counts ::
    "GB_Opcode \<Rightarrow> bool \<Rightarrow> int list \<Rightarrow> int \<Rightarrow> int \<Rightarrow> bool
      \<Rightarrow> sel_fault + (int \<times> int \<times> int \<times> int \<times> int \<times> int)" where
  "col_counts opc A_is_hyper Ap anvec k found =
     bindE (rd Ap k) (\<lambda>pstart.
     bindE (if found then rd Ap (k + 1) else Inr pstart) (\<lambda>pend.
     bindE (rd Ap anvec) (\<lambda>anz.
       (let ajnz = pend - pstart
        in if opc = GB_COLINDEX_idxunop_code
           then Inr (pstart, pend, ajnz, anz, anz - ajnz,
                     if A_is_hyper \<and> found then anvec - 1 else anvec)
           else if opc = GB_COLLE_idxunop_code
           then Inr (pstart, pend, ajnz, anz, pend,
                     if A_is_hyper then (if found then k + 1 else k) else anvec)
           else Inr (pstart, pend, ajnz, anz, anz - pend,
                     anvec - (if A_is_hyper then (if found then k + 1 else k) else 0))))))"

text \<open>Lines 404 to 453: \<open>COLINDEX\<close>, delete column \<open>j\<close>.\<close>

definition col_construct_COLINDEX ::
    "bool \<Rightarrow> bool \<Rightarrow> int list \<Rightarrow> int list \<Rightarrow> int list \<Rightarrow> 'a list
      \<Rightarrow> int \<Rightarrow> bool \<Rightarrow> int \<Rightarrow> int \<Rightarrow> int \<Rightarrow> int \<Rightarrow> int
      \<Rightarrow> int list \<times> int list \<times> int list \<times> 'a list
      \<Rightarrow> sel_fault + (int list \<times> int list \<times> int list \<times> 'a list)" where
  "col_construct_COLINDEX A_is_hyper A_iso Ap Ah Ai Ax k found pstart pend ajnz cnz cnvec C =
     (case C of (Cp, Ch, Ci, Cx) \<Rightarrow>
        bindE (if A_is_hyper
               then bindE (ASSERT found) (\<lambda>_.
                    bindE (GB_memcpy Cp 0 Ap 0 k) (\<lambda>Cp.
                    bindE (copy_shift_loop Cp Ap k cnvec 1 ajnz) (\<lambda>Cp.
                    bindE (GB_memcpy Ch 0 Ah 0 k) (\<lambda>Ch.
                    bindE (GB_memcpy Ch k Ah (k + 1) (cnvec - k)) (\<lambda>Ch.
                      Inr (Cp, Ch))))))
               else bindE (GB_memcpy Cp 0 Ap 0 (k + 1)) (\<lambda>Cp.
                    bindE (copy_shift_loop Cp Ap (k + 1) cnvec 0 ajnz) (\<lambda>Cp.
                      Inr (Cp, Ch)))) (\<lambda>(Cp, Ch).
        bindE (GB_memcpy Ci 0 Ai 0 pstart) (\<lambda>Ci.
        bindE (GB_memcpy Ci pstart Ai pend (cnz - pstart)) (\<lambda>Ci.
        bindE (if \<not> A_iso
               then bindE (GB_memcpy Cx 0 Ax 0 pstart) (\<lambda>Cx.
                      GB_memcpy Cx pstart Ax pend (cnz - pstart))
               else Inr Cx) (\<lambda>Cx.
          Inr (Cp, Ch, Ci, Cx))))))"

text \<open>Lines 454 to 488: \<open>COLLE\<close>, \<open>C = A (:, 0:j)\<close>.\<close>

definition col_construct_COLLE ::
    "bool \<Rightarrow> bool \<Rightarrow> int list \<Rightarrow> int list \<Rightarrow> int list \<Rightarrow> 'a list
      \<Rightarrow> int \<Rightarrow> bool \<Rightarrow> int \<Rightarrow> int
      \<Rightarrow> int list \<times> int list \<times> int list \<times> 'a list
      \<Rightarrow> sel_fault + (int list \<times> int list \<times> int list \<times> 'a list)" where
  "col_construct_COLLE A_is_hyper A_iso Ap Ah Ai Ax k found cnz cnvec C =
     (case C of (Cp, Ch, Ci, Cx) \<Rightarrow>
        bindE (if A_is_hyper
               then bindE (GB_memcpy Cp 0 Ap 0 (cnvec + 1)) (\<lambda>Cp.
                    bindE (GB_memcpy Ch 0 Ah 0 cnvec) (\<lambda>Ch.
                      Inr (Cp, Ch)))
               else bindE (ASSERT found) (\<lambda>_.
                    bindE (GB_memcpy Cp 0 Ap 0 (k + 2)) (\<lambda>Cp.
                    bindE (fill_loop Cp (k + 2) cnvec cnz) (\<lambda>Cp.
                      Inr (Cp, Ch))))) (\<lambda>(Cp, Ch).
        bindE (GB_memcpy Ci 0 Ai 0 cnz) (\<lambda>Ci.
        bindE (if \<not> A_iso then GB_memcpy Cx 0 Ax 0 cnz else Inr Cx) (\<lambda>Cx.
          Inr (Cp, Ch, Ci, Cx)))))"

text \<open>Lines 489 to 526: \<open>COLGT\<close>, \<open>C = A (:, j+1:end)\<close>.\<close>

definition col_construct_COLGT ::
    "bool \<Rightarrow> bool \<Rightarrow> int list \<Rightarrow> int list \<Rightarrow> int list \<Rightarrow> 'a list
      \<Rightarrow> int \<Rightarrow> bool \<Rightarrow> int \<Rightarrow> int \<Rightarrow> int
      \<Rightarrow> int list \<times> int list \<times> int list \<times> 'a list
      \<Rightarrow> sel_fault + (int list \<times> int list \<times> int list \<times> 'a list)" where
  "col_construct_COLGT A_is_hyper A_iso Ap Ah Ai Ax k found pend cnz cnvec C =
     (case C of (Cp, Ch, Ci, Cx) \<Rightarrow>
        bindE (if A_is_hyper
               then bindE (copy_shift_loop Cp Ap 0 cnvec (k + (if found then 1 else 0)) pend)
                      (\<lambda>Cp.
                    bindE (GB_memcpy Ch 0 Ah (k + (if found then 1 else 0)) cnvec) (\<lambda>Ch.
                      Inr (Cp, Ch)))
               else bindE (ASSERT found) (\<lambda>_.
                    bindE (GB_memset Cp 0 (k + 1)) (\<lambda>Cp.
                    bindE (copy_shift_loop Cp Ap (k + 1) cnvec 0 pend) (\<lambda>Cp.
                      Inr (Cp, Ch))))) (\<lambda>(Cp, Ch).
        bindE (GB_memcpy Ci 0 Ai pend cnz) (\<lambda>Ci.
        bindE (if \<not> A_iso then GB_memcpy Cx 0 Ax pend cnz else Inr Cx) (\<lambda>Cx.
          Inr (Cp, Ch, Ci, Cx)))))"

text \<open>Lines 404 to 526: the construction of \<open>C\<close>, by opcode.\<close>

definition col_construct ::
    "GB_Opcode \<Rightarrow> bool \<Rightarrow> bool \<Rightarrow> int list \<Rightarrow> int list \<Rightarrow> int list \<Rightarrow> 'a list
      \<Rightarrow> int \<Rightarrow> bool \<Rightarrow> int \<Rightarrow> int \<Rightarrow> int \<Rightarrow> int \<Rightarrow> int
      \<Rightarrow> int list \<times> int list \<times> int list \<times> 'a list
      \<Rightarrow> sel_fault + (int list \<times> int list \<times> int list \<times> 'a list)" where
  "col_construct opc A_is_hyper A_iso Ap Ah Ai Ax k found pstart pend ajnz cnz cnvec C =
     (if opc = GB_COLINDEX_idxunop_code
      then col_construct_COLINDEX A_is_hyper A_iso Ap Ah Ai Ax
             k found pstart pend ajnz cnz cnvec C
      else if opc = GB_COLLE_idxunop_code
      then col_construct_COLLE A_is_hyper A_iso Ap Ah Ai Ax k found cnz cnvec C
      else col_construct_COLGT A_is_hyper A_iso Ap Ah Ai Ax k found pend cnz cnvec C)"

text \<open>
  Lines 398 to 539: the iso value is copied, the arrays of the allocated matrix \<open>C0\<close> are
  filled and the matrix is finalized.
\<close>

definition col_fill ::
    "GB_Opcode \<Rightarrow> 'a GrB_Matrix \<Rightarrow> bool \<Rightarrow> int \<Rightarrow> bool \<Rightarrow> int \<Rightarrow> int \<Rightarrow> int \<Rightarrow> int \<Rightarrow> int
      \<Rightarrow> 'a GrB_Matrix \<Rightarrow> sel_fault + 'a sel_result" where
  "col_fill opc A C_iso k found pstart pend ajnz cnz cnvec C0 =
     (let Ap = arr (Mp A); Ah = Mh A; Ai = arr (Mi A); Ax = arr (Mx A);
          A_jumbled = jumbled A; A_is_hyper = (Ah \<noteq> None); A_iso = iso A
      in bindE (if A_iso then GB_memcpy (arr (Mx C0)) 0 Ax 0 1
                else Inr (arr (Mx C0))) (\<lambda>Cx.
         bindE (col_construct opc A_is_hyper A_iso Ap (arr Ah) Ai Ax
                  k found pstart pend ajnz cnz cnvec
                  (arr (Mp C0), arr (Mh C0), arr (Mi C0), Cx))
           (\<lambda>(Cp, Ch, Ci, Cx).
         bindE (rd Cp cnvec) (\<lambda>cnvals.
           Inr \<lparr>sel_info = GrB_SUCCESS, sel_A = A,
                sel_C = Some (C0\<lparr>nvec := cnvec, nvals := cnvals,
                          nvec_nonempty := GB_nvec_nonempty Cp cnvec,
                          Mh := (if A_is_hyper then Some Ch else None),
                          Mp := Some Cp, Mi := Some Ci, Mx := Some Cx,
                          iso := C_iso, jumbled := A_jumbled\<rparr>),
                sel_live = {}\<rparr>))))"

text \<open>
  Lines 363 to 383: \<open>C\<close> is a shallow copy of \<open>A\<close> when every entry is kept, an
  empty matrix when none is, and a new matrix otherwise.
\<close>

definition col_build ::
    "'a sel_env \<Rightarrow> GB_Opcode \<Rightarrow> 'a GrB_Matrix \<Rightarrow> bool \<Rightarrow> int \<Rightarrow> bool
      \<Rightarrow> int \<times> int \<times> int \<times> int \<times> int \<times> int \<Rightarrow> sel_fault + 'a sel_result" where
  "col_build env opc A C_iso k found cs =
     (case cs of (pstart, pend, ajnz, anz, cnz, cnvec) \<Rightarrow>
        if cnz = anz then Inr (sel_return (GB_shallow_copy env A) A)
        else if cnz = 0
        then Inr (sel_return (GB_new_empty env (mtype A) (vlen A) (vdim A)) A)
        else case GB_new_bix env (mtype A) (vlen A) (vdim A) (Mh A \<noteq> None) cnvec cnz
                    (iso A) of
               (r, None) \<Rightarrow> Inr (GB_FREE_ALL r A {})
             | (r, Some C0) \<Rightarrow>
                 col_fill opc A C_iso k found pstart pend ajnz cnz cnvec C0)"

text \<open>
  The column selector as a whole. \<open>C_given\<close> says that the caller passed an output
  header (\<open>C != NULL\<close>); \<open>C_iso\<close> was computed by the caller at lines 198 and 199.
\<close>

definition GB_select_column ::
    "'a sel_env \<Rightarrow> bool \<Rightarrow> GB_Opcode \<Rightarrow> 'a GrB_Matrix \<Rightarrow> 64 word \<Rightarrow> bool
      \<Rightarrow> sel_fault + 'a sel_result" where
  "GB_select_column env C_given opc A ithunk C_iso =
     bindE (ASSERT C_given) (\<lambda>_.
     bindE (col_find opc ithunk (vdim A) (nvec A) (Mh A)) (\<lambda>(k, found).
     bindE (col_counts opc (Mh A \<noteq> None) (arr (Mp A)) (nvec A) k found)
       (col_build env opc A C_iso k found)))"


subsection \<open>Reading a sparse or hypersparse matrix back\<close>

text \<open>
  \<open>GBH\<close> is the index of the \<open>k\<close>-th vector: \<open>Ah [k]\<close> for a hypersparse matrix,
  \<open>k\<close> otherwise. An iso matrix holds one value, at \<open>Ax [0]\<close>. The entries of the
  \<open>k\<close>-th vector are at the positions \<open>Ap [k] .. Ap [k+1] - 1\<close>. \<open>entries\<close> lists
  the entries of a matrix as (row, column, value), vector by vector and in the order of
  the positions inside each vector.
\<close>

definition GBH :: "int list option \<Rightarrow> nat \<Rightarrow> int" where
  "GBH Ah k = (case Ah of None \<Rightarrow> int k | Some h \<Rightarrow> h ! k)"

definition aval :: "bool \<Rightarrow> 'a list \<Rightarrow> nat \<Rightarrow> 'a" where
  "aval A_iso Ax p = (if A_iso then Ax ! 0 else Ax ! p)"

definition vec_positions :: "int list \<Rightarrow> nat \<Rightarrow> nat list" where
  "vec_positions Ap k = [nat (Ap ! k) ..< nat (Ap ! Suc k)]"

definition vec_entries :: "'a GrB_Matrix \<Rightarrow> nat \<Rightarrow> (int \<times> int \<times> 'a) list" where
  "vec_entries M k =
     map (\<lambda>p. (arr (Mi M) ! p, GBH (Mh M) k, aval (iso M) (arr (Mx M)) p))
       (vec_positions (arr (Mp M)) k)"

definition entries :: "'a GrB_Matrix \<Rightarrow> (int \<times> int \<times> 'a) list" where
  "entries M = concat (map (vec_entries M) [0 ..< nat (nvec M)])"


subsection \<open>The bitmap selector\<close>

text \<open>
  Modelled from the spec: \<open>GB_as_if_full\<close> is declared outside the modelled sources. A
  matrix is as-if-full when it is full, or sparse or hypersparse with all entries present,
  not jumbled, with no zombies and no pending tuples.
\<close>

definition GB_as_if_full :: "'a GrB_Matrix \<Rightarrow> bool" where
  "GB_as_if_full A =
     (GB_IS_FULL A
      \<or> (\<not> GB_IS_BITMAP A \<and> GB_nnz A = vlen A * vdim A \<and> \<not> jumbled A
          \<and> nzombies A = 0 \<and> \<not> Pending A))"

text \<open>
  Modelled from the spec: \<open>GB_selector_bitmap\<close> is declared outside the modelled
  sources. It evaluates the operator on every cell of the occupancy array (every cell of
  a full or as-if-full matrix is occupied); the cell \<open>p\<close> is in row \<open>p mod vlen\<close> of
  column \<open>p div vlen\<close>. The output is a bitmap matrix whose occupancy array marks the
  cells that are kept. It reports out-of-memory when its allocation fails.
\<close>

definition GB_selector_bitmap ::
    "'a sel_env \<Rightarrow> bool \<Rightarrow> 'a GrB_IndexUnaryOp \<Rightarrow> bool \<Rightarrow> 'a GrB_Matrix \<Rightarrow> 'a
      \<Rightarrow> GrB_Info \<times> 'a GrB_Matrix option" where
  "GB_selector_bitmap env C_iso op flipij A athunk =
     (if \<not> mem env Alloc_selector_bitmap then (GrB_OUT_OF_MEMORY, None)
      else (let n = nat (vlen A * vdim A);
                Ax = arr (Mx A);
                Cb = map (\<lambda>p. if (case Mb A of None \<Rightarrow> True | Some Ab \<Rightarrow> Ab ! p \<noteq> 0)
                                  \<and> entry_keep op flipij (int p mod vlen A) (int p div vlen A)
                                       (aval (iso A) Ax p)
                               then 1 else 0) [0 ..< n]
            in (GrB_SUCCESS, Some
                 \<lparr>mtype = mtype A, vlen = vlen A, vdim = vdim A, nvec = vdim A, plen = - 1,
                  nvals = sum_list Cb,
                  nvec_nonempty = (if vlen A = 0 then 0 else vdim A),
                  Mh = None, Mp = None, Mb = Some Cb, Mi = None,
                  Mx = Some (if C_iso
                             then [if opcode op = GB_VALUEEQ_idxunop_code then athunk
                                   else Ax ! 0]
                             else take n Ax),
                  iso = C_iso, jumbled = False, nzombies = 0, Pending = False,
                  p_shallow = False, h_shallow = False, b_shallow = False,
                  i_shallow = False, x_shallow = False\<rparr>)))"

text \<open>
  Modelled from the spec: \<open>GB_Scalar_wrap\<close> is declared outside the modelled sources;
  it wraps one value as a full matrix of one row and one column.
\<close>

definition GB_Scalar_wrap :: "GrB_Type \<Rightarrow> 'a \<Rightarrow> 'a GrB_Matrix" where
  "GB_Scalar_wrap t xscalar =
     \<lparr>mtype = t, vlen = 1, vdim = 1, nvec = 1, plen = - 1, nvals = 1, nvec_nonempty = 1,
      Mh = None, Mp = None, Mb = None, Mi = None, Mx = Some [xscalar], iso = False,
      jumbled = False, nzombies = 0, Pending = False, p_shallow = False,
      h_shallow = False, b_shallow = False, i_shallow = False, x_shallow = True\<rparr>"


subsection \<open>The general two-phase path (lines 546 to 901)\<close>

text \<open>
  Modelled from the spec: the phase-1 and phase-2 kernels
  (\<open>GB_select_positional_phase1\<close>, \<open>GB_select_generic_phase1\<close>, the templates that the
  generated kernels include, and their phase-2 counterparts), \<open>GB_ek_slice_merge2\<close> and
  \<open>GB_select_iso\<close> are declared outside the modelled sources. Phase 1 counts the live
  entries of each vector. The counts are then summed cumulatively, which gives the
  vector-start offsets of the output, and the number of non-empty vectors is counted.
  Phase 2 visits each vector with a write cursor that starts at the offset of the vector
  and copies every retained row index (and value, unless the output is iso) to the
  cursor. The model runs one task per vector.
\<close>

definition keep_at :: "'a GrB_IndexUnaryOp \<Rightarrow> bool \<Rightarrow> 'a GrB_Matrix \<Rightarrow> nat \<Rightarrow> nat \<Rightarrow> bool" where
  "keep_at op flipij A k p =
     entry_keep op flipij (arr (Mi A) ! p) (GBH (Mh A) k) (aval (iso A) (arr (Mx A)) p)"

definition GB_select_phase1 ::
    "'a GrB_IndexUnaryOp \<Rightarrow> bool \<Rightarrow> 'a GrB_Matrix \<Rightarrow> int list" where
  "GB_select_phase1 op flipij A =
     map (\<lambda>k. int (length (filter (keep_at op flipij A k) (vec_positions (arr (Mp A)) k))))
       [0 ..< nat (nvec A)]"

fun GB_cumsum :: "int \<Rightarrow> int list \<Rightarrow> int list" where
  "GB_cumsum s [] = [s]"
| "GB_cumsum s (c # cs) = s # GB_cumsum (s + c) cs"

text \<open>
  \<open>Cp\<close> was allocated with \<open>cplen + 1\<close> cells, all zero; the counts of phase 1 fill
  the first \<open>anvec\<close> of them and the cumulative sum rewrites the first \<open>anvec + 1\<close>.
\<close>

definition GB_ek_slice_merge2 :: "int list \<Rightarrow> int \<Rightarrow> int \<times> int list" where
  "GB_ek_slice_merge2 counts cplen =
     (int (length (filter (\<lambda>c. 0 < c) counts)),
      GB_cumsum 0 counts @ replicate (nat cplen - length counts) 0)"

definition GB_select_iso :: "'a list \<Rightarrow> GB_Opcode \<Rightarrow> 'a \<Rightarrow> 'a list \<Rightarrow> 'a list" where
  "GB_select_iso Cx opc athunk Ax =
     Cx[0 := (if opc = GB_VALUEEQ_idxunop_code then athunk else Ax ! 0)]"

definition phase2_entry ::
    "'a GrB_IndexUnaryOp \<Rightarrow> bool \<Rightarrow> 'a GrB_Matrix \<Rightarrow> bool \<Rightarrow> nat
      \<Rightarrow> nat \<times> int list \<times> 'a list \<Rightarrow> nat \<Rightarrow> nat \<times> int list \<times> 'a list" where
  "phase2_entry op flipij A C_iso k s p =
     (case s of (pC, Ci, Cx) \<Rightarrow>
        if keep_at op flipij A k p
        then (Suc pC, Ci[pC := arr (Mi A) ! p],
              if C_iso then Cx else Cx[pC := arr (Mx A) ! p])
        else (pC, Ci, Cx))"

definition phase2_vector ::
    "'a GrB_IndexUnaryOp \<Rightarrow> bool \<Rightarrow> 'a GrB_Matrix \<Rightarrow> bool \<Rightarrow> int list
      \<Rightarrow> int list \<times> 'a list \<Rightarrow> nat \<Rightarrow> int list \<times> 'a list" where
  "phase2_vector op flipij A C_iso Cp s k =
     snd (foldl (phase2_entry op flipij A C_iso k) (nat (Cp ! k), fst s, snd s)
            (vec_positions (arr (Mp A)) k))"

definition GB_select_phase2 ::
    "'a GrB_IndexUnaryOp \<Rightarrow> bool \<Rightarrow> 'a GrB_Matrix \<Rightarrow> bool \<Rightarrow> int list
      \<Rightarrow> int list \<Rightarrow> 'a list \<Rightarrow> int list \<times> 'a list" where
  "GB_select_phase2 op flipij A C_iso Cp Ci Cx =
     foldl (phase2_vector op flipij A C_iso Cp) (Ci, Cx) [0 ..< nat (nvec A)]"

text \<open>
  Lines 795 to 804: in place, the empty vectors are pruned from \<open>Ah\<close> and \<open>Ap\<close>.
  The state of the loop is \<open>(cnvec, Ah, Ap)\<close>.
\<close>

fun prune_in_place ::
    "int list \<Rightarrow> nat list \<Rightarrow> nat \<times> int list \<times> int list
      \<Rightarrow> sel_fault + (nat \<times> int list \<times> int list)" where
  "prune_in_place Cp [] s = Inr s"
| "prune_in_place Cp (k # ks) s =
     (case s of (cnvec, Ah, Ap) \<Rightarrow>
        bindE (rd Cp (int k)) (\<lambda>c0.
        bindE (rd Cp (int k + 1)) (\<lambda>c1.
          if c0 < c1
          then bindE (rd Ah (int k)) (\<lambda>j.
                 if cnvec < length Ah \<and> cnvec < length Ap
                 then prune_in_place Cp ks (Suc cnvec, Ah[cnvec := j], Ap[cnvec := c0])
                 else Inl OutOfRange)
          else prune_in_place Cp ks (cnvec, Ah, Ap))))"

text \<open>
  Lines 866 to 875: for a new matrix, the non-empty vectors are copied from \<open>Ah\<close> to
  \<open>Ch\<close> and \<open>Cp\<close> is compacted in place. The state of the loop is \<open>(cnvec, Ch, Cp)\<close>.
\<close>

fun prune_new ::
    "int list \<Rightarrow> nat list \<Rightarrow> nat \<times> int list \<times> int list
      \<Rightarrow> sel_fault + (nat \<times> int list \<times> int list)" where
  "prune_new Ah [] s = Inr s"
| "prune_new Ah (k # ks) s =
     (case s of (cnvec, Ch, Cp) \<Rightarrow>
        bindE (rd Cp (int k)) (\<lambda>c0.
        bindE (rd Cp (int k + 1)) (\<lambda>c1.
          if c0 < c1
          then bindE (rd Ah (int k)) (\<lambda>j.
                 if cnvec < length Ch \<and> cnvec < length Cp
                 then prune_new Ah ks (Suc cnvec, Ch[cnvec := j], Cp[cnvec := c0])
                 else Inl OutOfRange)
          else prune_new Ah ks (cnvec, Ch, Cp))))"

text \<open>Lines 783 to 834: the result is transplanted back into \<open>A\<close>.\<close>

definition general_finalize_in_place ::
    "'a GrB_Matrix \<Rightarrow> bool \<Rightarrow> int \<Rightarrow> int \<Rightarrow> int list \<Rightarrow> int list \<Rightarrow> 'a list
      \<Rightarrow> alloc_site set \<Rightarrow> sel_fault + 'a sel_result" where
  "general_finalize_in_place A C_iso C_nvec_nonempty cplen Cp Ci Cx live =
     (let anvec = nvec A; A_jumbled = jumbled A
      in bindE (if Mh A \<noteq> None \<and> C_nvec_nonempty < anvec
                then bindE (prune_in_place Cp [0 ..< nat anvec] (0, arr (Mh A), arr (Mp A)))
                       (\<lambda>(cnvec, Ah, Ap).
                     if cnvec < length Ap
                     then bindE (rd Cp anvec) (\<lambda>c.
                          bindE (ASSERT (int cnvec = C_nvec_nonempty)) (\<lambda>_.
                            Inr (A\<lparr>Mh := Some Ah, Mp := Some (Ap[cnvec := c]),
                                   nvec := int cnvec\<rparr>)))
                     else Inl OutOfRange)
                else Inr (A\<lparr>Mp := Some Cp, plen := cplen\<rparr>)) (\<lambda>A1.
         bindE (rd (arr (Mp A1)) (nvec A1)) (\<lambda>anvals.
           Inr \<lparr>sel_info = GrB_SUCCESS,
                sel_A = A1\<lparr>Mi := Some Ci, Mx := Some Cx,
                          nvec_nonempty := C_nvec_nonempty, jumbled := A_jumbled,
                          iso := C_iso, nvals := anvals\<rparr>,
                sel_C = None,
                sel_live = GB_FREE_WORKSPACE (live - {Alloc_Cp, Alloc_Ci, Alloc_Cx})\<rparr>)))"

text \<open>Lines 835 to 893: \<open>C\<close> is created and the result is transplanted into it.\<close>

definition general_finalize_new ::
    "'a sel_env \<Rightarrow> 'a GrB_Matrix \<Rightarrow> bool \<Rightarrow> int \<Rightarrow> int \<Rightarrow> int list \<Rightarrow> int list \<Rightarrow> 'a list
      \<Rightarrow> alloc_site set \<Rightarrow> sel_fault + 'a sel_result" where
  "general_finalize_new env A C_iso C_nvec_nonempty cplen Cp Ci Cx live =
     (let anvec = nvec A; A_jumbled = jumbled A; A_is_hyper = (Mh A \<noteq> None)
      in if A_is_hyper \<and> \<not> mem env Alloc_Ch
         then Inr (GB_FREE_ALL GrB_OUT_OF_MEMORY A live)
         else bindE (if A_is_hyper
                     then bindE (prune_new (arr (Mh A)) [0 ..< nat anvec]
                                   (0, replicate (nat anvec) (junk env), Cp))
                            (\<lambda>(cnvec, Ch, Cp).
                          if cnvec < length Cp
                          then bindE (rd Cp anvec) (\<lambda>c.
                               bindE (ASSERT (int cnvec = C_nvec_nonempty)) (\<lambda>_.
                                 Inr (int cnvec, Some Ch, Cp[cnvec := c])))
                          else Inl OutOfRange)
                     else Inr (vdim A, None, Cp)) (\<lambda>(cnvec, Ch, Cp).
              bindE (rd Cp cnvec) (\<lambda>cnvals.
                Inr \<lparr>sel_info = GrB_SUCCESS, sel_A = A,
                     sel_C = Some
                       \<lparr>mtype = mtype A, vlen = vlen A, vdim = vdim A, nvec = cnvec,
                        plen = cplen, nvals = cnvals, nvec_nonempty = C_nvec_nonempty,
                        Mh = Ch, Mp = Some Cp, Mb = None, Mi = Some Ci, Mx = Some Cx,
                        iso = C_iso, jumbled = A_jumbled, nzombies = 0, Pending = False,
                        p_shallow = False, h_shallow = False, b_shallow = False,
                        i_shallow = False, x_shallow = False\<rparr>,
                     sel_live = GB_FREE_WORKSPACE
                       ((if A_is_hyper then insert Alloc_Ch live else live)
                        - {Alloc_Cp, Alloc_Ch, Alloc_Ci, Alloc_Cx})\<rparr>)))"

text \<open>
  Lines 612 to 893: phase 1, the cumulative sum, the allocation of \<open>Ci\<close> and
  \<open>Cx\<close>, phase 2 and the transplant. \<open>live\<close> is the workspace allocated so far.
\<close>

definition general_phases ::
    "'a sel_env \<Rightarrow> bool \<Rightarrow> 'a GrB_IndexUnaryOp \<Rightarrow> bool \<Rightarrow> 'a GrB_Matrix \<Rightarrow> 'a \<Rightarrow> bool
      \<Rightarrow> alloc_site set \<Rightarrow> sel_fault + 'a sel_result" where
  "general_phases env C_given op flipij A athunk C_iso live =
     (let in_place_A = \<not> C_given; opc = opcode op; A_iso = iso A; anvec = nvec A;
          op_is_positional = GB_IS_INDEXUNARYOP_CODE_POSITIONAL opc;
          cplen = GB_IMAX 1 anvec
      in bindE (if op_is_positional \<or> opc = GB_NONZOMBIE_idxunop_code then Inr ()
                else ASSERT ((\<not> A_iso \<or> opc = GB_USER_idxunop_code)
                             \<and> (opcode_is_value opc \<or> opc = GB_USER_idxunop_code)))
           (\<lambda>_.
         case GB_ek_slice_merge2 (GB_select_phase1 op flipij A) cplen of
           (C_nvec_nonempty, Cp) \<Rightarrow>
             bindE (rd Cp anvec) (\<lambda>cnz0.
               (let cnz = GB_IMAX cnz0 1
                in if \<not> mem env Alloc_Ci \<or> \<not> mem env Alloc_Cx
                   then Inr (GB_FREE_ALL GrB_OUT_OF_MEMORY A
                               (live \<union> (if mem env Alloc_Ci then {Alloc_Ci} else {})
                                     \<union> (if mem env Alloc_Cx then {Alloc_Cx} else {})))
                   else
                     (let Ci0 = replicate (nat cnz) (junk env);
                          Cx0 = replicate (if C_iso then 1 else nat cnz) (junkx env);
                          Cx1 = (if C_iso
                                 then GB_select_iso Cx0 opc athunk (arr (Mx A))
                                 else Cx0)
                      in bindE (if op_is_positional
                                   \<or> (opc = GB_NONZOMBIE_idxunop_code \<and> A_iso)
                                then Inr ()
                                else ASSERT
                                  ((\<not> A_iso \<or> opc = GB_USER_idxunop_code)
                                   \<and> (opcode_is_value opc
                                       \<or> (opc = GB_NONZOMBIE_idxunop_code \<and> \<not> A_iso)
                                       \<or> opc = GB_USER_idxunop_code))) (\<lambda>_.
                           case GB_select_phase2 op flipij A C_iso Cp Ci0 Cx1 of
                             (Ci, Cx) \<Rightarrow>
                               if in_place_A
                               then general_finalize_in_place A C_iso C_nvec_nonempty
                                      cplen Cp Ci Cx (live \<union> {Alloc_Ci, Alloc_Cx})
                               else general_finalize_new env A C_iso C_nvec_nonempty
                                      cplen Cp Ci Cx (live \<union> {Alloc_Ci, Alloc_Cx})))))))"

text \<open>
  The general path. The allocations are made in the order of the source: \<open>Cp\<close>, the
  slicing of \<open>A\<close> (inside the macro \<open>GB_SLICE_MATRIX_WORK\<close>, which frees everything and
  returns out-of-memory when it fails), \<open>Work\<close>, \<open>Zp\<close> for a positional operator,
  then \<open>Ci\<close> and \<open>Cx\<close> after phase 1, and \<open>Ch\<close> for a new hypersparse matrix.
\<close>

definition GB_select_general ::
    "'a sel_env \<Rightarrow> bool \<Rightarrow> 'a GrB_IndexUnaryOp \<Rightarrow> bool \<Rightarrow> 'a GrB_Matrix \<Rightarrow> 'a \<Rightarrow> bool
      \<Rightarrow> sel_fault + 'a sel_result" where
  "GB_select_general env C_given op flipij A athunk C_iso =
     (let op_is_positional = GB_IS_INDEXUNARYOP_CODE_POSITIONAL (opcode op)
      in if \<not> mem env Alloc_Cp
         then Inr \<lparr>sel_info = GrB_OUT_OF_MEMORY, sel_A = A, sel_C = None, sel_live = {}\<rparr>
         else if \<not> mem env Alloc_ek_slicing
         then Inr (GB_FREE_ALL GrB_OUT_OF_MEMORY A {Alloc_Cp})
         else if \<not> mem env Alloc_Work
         then Inr (GB_FREE_ALL GrB_OUT_OF_MEMORY A {Alloc_Cp, Alloc_ek_slicing})
         else if op_is_positional \<and> \<not> mem env Alloc_Zp
         then Inr (GB_FREE_ALL GrB_OUT_OF_MEMORY A {Alloc_Cp, Alloc_ek_slicing, Alloc_Work})
         else general_phases env C_given op flipij A athunk C_iso
                ({Alloc_Cp, Alloc_ek_slicing, Alloc_Work}
                 \<union> (if op_is_positional then {Alloc_Zp} else {})))"


subsection \<open>GB_selector\<close>

text \<open>Lines 212 to 236: whether the bitmap selector is used.\<close>

definition use_selector_bitmap :: "GB_Opcode \<Rightarrow> bool \<Rightarrow> 'a GrB_Matrix \<Rightarrow> bool" where
  "use_selector_bitmap opc in_place_A A =
     (if opc = GB_NONZOMBIE_idxunop_code \<or> in_place_A then False
      else if opc = GB_DIAG_idxunop_code then GB_IS_BITMAP A
      else GB_IS_BITMAP A \<or> GB_as_if_full A)"

text \<open>
  Lines 147 to 192: the iso case of the operators that depend only on the value. The
  operator is applied to the iso value of \<open>A\<close>, wrapped as a scalar.
\<close>

definition GB_select_iso_value ::
    "'a sel_env \<Rightarrow> bool \<Rightarrow> 'a GrB_IndexUnaryOp \<Rightarrow> 'a GrB_Matrix \<Rightarrow> 'a
      \<Rightarrow> sel_fault + 'a sel_result" where
  "GB_select_iso_value env C_given op A athunk =
     bindE (ASSERT C_given) (\<lambda>_.
     bindE (rd (arr (Mx A)) 0) (\<lambda>xscalar.
       (let S = GB_Scalar_wrap (mtype A) xscalar
        in case GB_selector_bitmap env False op False S athunk of
             (r, None) \<Rightarrow> Inr (GB_FREE_ALL r A {})
           | (r, Some C1) \<Rightarrow>
               if r \<noteq> GrB_SUCCESS then Inr (GB_FREE_ALL r A {})
               else if GB_nnz C1 = 0
               then Inr (sel_return (GB_new_empty env (mtype A) (vlen A) (vdim A)) A)
               else Inr (sel_return (GB_shallow_copy env A) A))))"

text \<open>
  The selector: the assertion of line 69, the iso case, the bitmap case, and the sparse
  case, which asserts at line 270 that \<open>A\<close> is not bitmap before it takes the column
  selector or the general path.
\<close>

definition GB_selector ::
    "'a sel_env \<Rightarrow> bool \<Rightarrow> 'a GrB_IndexUnaryOp \<Rightarrow> bool \<Rightarrow> 'a GrB_Matrix \<Rightarrow> 64 word \<Rightarrow> 'a
      \<Rightarrow> sel_fault + 'a sel_result" where
  "GB_selector env C_given op flipij A ithunk athunk =
     (let opc = opcode op; in_place_A = \<not> C_given; A_iso = iso A
      in bindE (ASSERT (GB_OPCODE_IS_POSITIONAL opc \<longrightarrow> \<not> jumbled A)) (\<lambda>_.
           if A_iso \<and> opcode_is_value opc
           then GB_select_iso_value env C_given op A athunk
           else
             (let C_iso = (A_iso \<or> opc = GB_VALUEEQ_idxunop_code)
              in if use_selector_bitmap opc in_place_A A
                 then bindE (ASSERT C_given) (\<lambda>_.
                        Inr (sel_return
                               (GB_selector_bitmap env C_iso op flipij A athunk) A))
                 else bindE (ASSERT (\<not> GB_IS_BITMAP A)) (\<lambda>_.
                        if opc = GB_COLINDEX_idxunop_code \<or> opc = GB_COLLE_idxunop_code
                           \<or> opc = GB_COLGT_idxunop_code
                        then GB_select_column env C_given opc A ithunk C_iso
                        else GB_select_general env C_given op flipij A athunk C_iso))))"


subsection \<open>Example matrices and operators\<close>

definition example_env_sel :: "int sel_env" where
  "example_env_sel =
     \<lparr>mem = (\<lambda>s. True), auto_hyper = (\<lambda>d. 1 < d), junk = - 7, junkx = - 9\<rparr>"

text \<open>
  A sparse matrix of 6 rows and 5 vectors whose vectors hold 3, 0, 2, 5 and 1 entries.
\<close>

definition example_sparse :: "int GrB_Matrix" where
  "example_sparse =
     \<lparr>mtype = \<lparr>code = GB_INT64_code, size = 8, defn = None\<rparr>,
      vlen = 6, vdim = 5, nvec = 5, plen = 5, nvals = 11, nvec_nonempty = 4,
      Mh = None, Mp = Some [0, 3, 3, 5, 10, 11], Mb = None,
      Mi = Some [0, 2, 4, 1, 3, 0, 1, 2, 3, 4, 5],
      Mx = Some [10, 11, 12, 13, 14, 15, 16, 17, 18, 19, 20],
      iso = False, jumbled = False, nzombies = 0, Pending = False,
      p_shallow = False, h_shallow = False, b_shallow = False, i_shallow = False,
      x_shallow = False\<rparr>"

text \<open>
  A hypersparse matrix of 6 rows and 100 columns that holds the same five vectors as
  the columns 2, 7, 9, 40 and 41.
\<close>

definition example_hyper :: "int GrB_Matrix" where
  "example_hyper = example_sparse\<lparr>vdim := 100, Mh := Some [2, 7, 9, 40, 41]\<rparr>"

definition op_COLLE :: "int \<Rightarrow> int GrB_IndexUnaryOp" where
  "op_COLLE y = \<lparr>opcode = GB_COLLE_idxunop_code, test = (\<lambda>i j x. j \<le> y)\<rparr>"

definition op_COLGT :: "int \<Rightarrow> int GrB_IndexUnaryOp" where
  "op_COLGT y = \<lparr>opcode = GB_COLGT_idxunop_code, test = (\<lambda>i j x. j > y)\<rparr>"

definition op_COLINDEX :: "int \<Rightarrow> int GrB_IndexUnaryOp" where
  "op_COLINDEX y = \<lparr>opcode = GB_COLINDEX_idxunop_code, test = (\<lambda>i j x. j + y \<noteq> 0)\<rparr>"

definition op_USER :: "(int \<Rightarrow> int \<Rightarrow> int \<Rightarrow> bool) \<Rightarrow> int GrB_IndexUnaryOp" where
  "op_USER f = \<lparr>opcode = GB_USER_idxunop_code, test = f\<rparr>"

text \<open>A user-defined operator whose result depends on the value of the entry only.\<close>

definition op_USER_value_le :: "int \<Rightarrow> int GrB_IndexUnaryOp" where
  "op_USER_value_le y = \<lparr>opcode = GB_USER_idxunop_code, test = (\<lambda>i j x. x \<le> y)\<rparr>"

definition op_VALUELE :: "int \<Rightarrow> int GrB_IndexUnaryOp" where
  "op_VALUELE y = \<lparr>opcode = GB_VALUELE_idxunop_code, test = (\<lambda>i j x. x \<le> y)\<rparr>"

definition op_DIAG :: "int \<Rightarrow> int GrB_IndexUnaryOp" where
  "op_DIAG y = \<lparr>opcode = GB_DIAG_idxunop_code, test = (\<lambda>i j x. j = i + y)\<rparr>"

text \<open>The sparse example with the rows of each vector out of order, flagged jumbled.\<close>

definition example_jumbled :: "int GrB_Matrix" where
  "example_jumbled =
     example_sparse\<lparr>Mi := Some [4, 0, 2, 3, 1, 4, 1, 0, 3, 2, 5], jumbled := True\<rparr>"


text \<open>The hypersparse example held as an iso matrix: every entry has the value 10.\<close>

definition example_iso :: "int GrB_Matrix" where
  "example_iso = example_hyper\<lparr>Mx := Some [10], iso := True\<rparr>"

text \<open>
  A sparse matrix of 2 rows and 2 columns with all four entries present (as-if-full), and
  a bitmap matrix of the same shape with three cells occupied.
\<close>

definition example_dense :: "int GrB_Matrix" where
  "example_dense =
     \<lparr>mtype = \<lparr>code = GB_INT64_code, size = 8, defn = None\<rparr>,
      vlen = 2, vdim = 2, nvec = 2, plen = 2, nvals = 4, nvec_nonempty = 2,
      Mh = None, Mp = Some [0, 2, 4], Mb = None, Mi = Some [0, 1, 0, 1],
      Mx = Some [1, 2, 3, 4],
      iso = False, jumbled = False, nzombies = 0, Pending = False,
      p_shallow = False, h_shallow = False, b_shallow = False, i_shallow = False,
      x_shallow = False\<rparr>"

definition example_bitmap :: "int GrB_Matrix" where
  "example_bitmap =
     \<lparr>mtype = \<lparr>code = GB_INT64_code, size = 8, defn = None\<rparr>,
      vlen = 2, vdim = 2, nvec = 2, plen = - 1, nvals = 3, nvec_nonempty = 2,
      Mh = None, Mp = None, Mb = Some [1, 0, 1, 1], Mi = None,
      Mx = Some [1, 2, 3, 4],
      iso = False, jumbled = False, nzombies = 0, Pending = False,
      p_shallow = False, h_shallow = False, b_shallow = False, i_shallow = False,
      x_shallow = False\<rparr>"


subsection \<open>Well-formed sparse and hypersparse matrices\<close>

text \<open>
  The invariant of a sparse or hypersparse matrix that the selector relies on (and checks
  with \<open>ASSERT_MATRIX_OK\<close>): there is no bitmap, the vector-start offsets start at 0 and
  do not decrease, the index and value arrays hold all the positions (an iso matrix holds
  one value), \<open>nvals\<close> is the last offset, a sparse matrix has one vector per column,
  and the hyperlist of a hypersparse matrix is strictly increasing and in range.
\<close>

definition sparse_ok :: "'a GrB_Matrix \<Rightarrow> bool" where
  "sparse_ok A =
     (let Ap = arr (Mp A); n = nat (nvec A)
      in Mb A = None \<and> 0 \<le> nvec A \<and> 0 \<le> vdim A \<and> n < length Ap \<and> Ap ! 0 = 0
         \<and> sorted (take (Suc n) Ap)
         \<and> nat (Ap ! n) \<le> length (arr (Mi A))
         \<and> (if iso A then 1 \<le> length (arr (Mx A))
             else nat (Ap ! n) \<le> length (arr (Mx A)))
         \<and> nvals A = Ap ! n
         \<and> (case Mh A of
               None \<Rightarrow> nvec A = vdim A
             | Some Ah \<Rightarrow> n \<le> length Ah \<and> sorted_wrt (<) (take n Ah)
                          \<and> list_all (\<lambda>j. 0 \<le> j \<and> j < vdim A) (take n Ah)))"

definition is_column_opcode :: "GB_Opcode \<Rightarrow> bool" where
  "is_column_opcode opc =
     (opc = GB_COLINDEX_idxunop_code \<or> opc = GB_COLLE_idxunop_code
      \<or> opc = GB_COLGT_idxunop_code)"

text \<open>The column that a column selector looks for (line 302).\<close>

definition col_thunk :: "GB_Opcode \<Rightarrow> 64 word \<Rightarrow> int" where
  "col_thunk opc ithunk =
     (if opc = GB_COLINDEX_idxunop_code then sint (- ithunk) else sint ithunk)"

text \<open>The columns that a column selector keeps.\<close>

definition col_keeps :: "GB_Opcode \<Rightarrow> int \<Rightarrow> int \<Rightarrow> bool" where
  "col_keeps opc j c =
     (if opc = GB_COLINDEX_idxunop_code then c \<noteq> j
      else if opc = GB_COLLE_idxunop_code then c \<le> j
      else c > j)"

text \<open>The workspace arrays that \<open>GB_FREE_WORKSPACE\<close> frees.\<close>

definition workspace_sites :: "alloc_site set" where
  "workspace_sites =
     {Alloc_Zp, Alloc_Work, Alloc_ek_slicing, Alloc_Cp, Alloc_Ch, Alloc_Ci, Alloc_Cx}"


text \<open>
  The entries of one vector, and of the vectors \<open>a .. b - 1\<close>, of a sparse or
  hypersparse matrix given by its arrays; \<open>entries\<close> reads all the vectors of a matrix
  in this way.
\<close>

definition vent ::
    "int list \<Rightarrow> int list option \<Rightarrow> int list \<Rightarrow> 'a list \<Rightarrow> bool \<Rightarrow> nat
      \<Rightarrow> (int \<times> int \<times> 'a) list" where
  "vent Cp Ch Ci Cx C_iso k =
     map (\<lambda>p. (Ci ! p, GBH Ch k, aval C_iso Cx p)) (vec_positions Cp k)"

definition ents ::
    "int list \<Rightarrow> int list option \<Rightarrow> int list \<Rightarrow> 'a list \<Rightarrow> bool \<Rightarrow> nat \<Rightarrow> nat
      \<Rightarrow> (int \<times> int \<times> 'a) list" where
  "ents Cp Ch Ci Cx C_iso a b = concat (map (vent Cp Ch Ci Cx C_iso) [a ..< b])"

definition range_entries :: "'a GrB_Matrix \<Rightarrow> nat \<Rightarrow> nat \<Rightarrow> (int \<times> int \<times> 'a) list" where
  "range_entries M a b = ents (arr (Mp M)) (Mh M) (arr (Mi M)) (arr (Mx M)) (iso M) a b"

text \<open>
  The entries that a column selector keeps, when the lookup of the column ended at the
  vector \<open>k\<close> and \<open>kc\<close> is the first vector after the column: the vectors before
  \<open>k\<close> and from \<open>kc\<close> on for \<open>COLINDEX\<close>, the vectors before \<open>kc\<close> for \<open>COLLE\<close>
  and the vectors from \<open>kc\<close> on for \<open>COLGT\<close>.
\<close>

definition col_kept :: "GB_Opcode \<Rightarrow> 'a GrB_Matrix \<Rightarrow> nat \<Rightarrow> nat \<Rightarrow> (int \<times> int \<times> 'a) list" where
  "col_kept opc A k kc =
     (if opc = GB_COLINDEX_idxunop_code
      then range_entries A 0 k @ range_entries A kc (nat (nvec A))
      else if opc = GB_COLLE_idxunop_code then range_entries A 0 kc
      else range_entries A kc (nat (nvec A)))"

text \<open>
  The positions of the entries of the \<open>k\<close>-th vector that an operator keeps, and those of
  the vectors before the \<open>m\<close>-th, in the order of the positions.
\<close>

definition kept_positions ::
    "'a GrB_IndexUnaryOp \<Rightarrow> bool \<Rightarrow> 'a GrB_Matrix \<Rightarrow> nat \<Rightarrow> nat list" where
  "kept_positions op flipij A k =
     filter (keep_at op flipij A k) (vec_positions (arr (Mp A)) k)"

definition kept_upto ::
    "'a GrB_IndexUnaryOp \<Rightarrow> bool \<Rightarrow> 'a GrB_Matrix \<Rightarrow> nat \<Rightarrow> nat list" where
  "kept_upto op flipij A m = concat (map (kept_positions op flipij A) [0 ..< m])"


section \<open>Properties of the selector\<close>

subsection \<open>Basic facts\<close>

lemma bindE_Inr [simp]: "bindE (Inr v) f = f v"
  by (simp add: bindE_def)

lemma bindE_Inl [simp]: "bindE (Inl e) f = Inl e"
  by (simp add: bindE_def)

lemma ASSERT_True [simp]: "c \<Longrightarrow> ASSERT c = Inr ()"
  by (simp add: ASSERT_def)

lemma rd_ok: "0 \<le> k \<Longrightarrow> k < int (length xs) \<Longrightarrow> rd xs k = Inr (xs ! nat k)"
  by (simp add: rd_def)

lemma column_opcode_facts:
  assumes "is_column_opcode opc"
  shows "GB_OPCODE_IS_POSITIONAL opc" "\<not> opcode_is_value opc"
    "opc \<noteq> GB_NONZOMBIE_idxunop_code" "opc \<noteq> GB_DIAG_idxunop_code"
    "opc \<noteq> GB_VALUEEQ_idxunop_code"
  using assms
  by (auto simp: is_column_opcode_def GB_OPCODE_IS_POSITIONAL_def
      GB_IS_INDEXUNARYOP_CODE_POSITIONAL_def opcode_is_value_def)

lemma sparse_ok_not_bitmap: "sparse_ok A \<Longrightarrow> \<not> GB_IS_BITMAP A"
  by (simp add: sparse_ok_def GB_IS_BITMAP_def Let_def)

lemma selector_takes_column_path:
  assumes "is_column_opcode (opcode op)" "\<not> jumbled A" "sparse_ok A" "\<not> GB_as_if_full A"
  shows "GB_selector env True op flipij A ithunk athunk
           = GB_select_column env True (opcode op) A ithunk (iso A)"
  using assms column_opcode_facts [OF assms(1)] sparse_ok_not_bitmap [OF assms(3)]
  by (simp add: GB_selector_def use_selector_bitmap_def is_column_opcode_def Let_def)

lemma col_find_out_of_range:
  assumes "col_thunk opc ithunk < 0 \<or> avdim \<le> col_thunk opc ithunk"
  shows "col_find opc ithunk avdim anvec Ah
           = Inr (if col_thunk opc ithunk < 0 then 0 else anvec, False)"
  using assms by (auto simp: col_find_def col_thunk_def Let_def)

lemma sparse_ok_reads:
  assumes "sparse_ok A"
  shows "rd (arr (Mp A)) 0 = Inr 0"
    and "rd (arr (Mp A)) (nvec A) = Inr (nvals A)"
  using assms by (auto simp: sparse_ok_def Let_def rd_def)

lemma col_counts_out_of_range:
  assumes "sparse_ok A" "is_column_opcode opc"
  shows "col_counts opc hyp (arr (Mp A)) (nvec A) 0 False
           = Inr (0, 0, 0, nvals A,
                  if opc = GB_COLLE_idxunop_code then 0 else nvals A,
                  if opc = GB_COLGT_idxunop_code \<and> hyp then nvec A - 0 else nvec A
                    - (if opc = GB_COLLE_idxunop_code \<and> hyp then nvec A else 0))"
    and "col_counts opc hyp (arr (Mp A)) (nvec A) (nvec A) False
           = Inr (nvals A, nvals A, 0, nvals A,
                  if opc = GB_COLGT_idxunop_code then 0 else nvals A,
                  if opc = GB_COLGT_idxunop_code \<and> hyp then 0 else nvec A)"
  using assms sparse_ok_reads [OF assms(1)]
  by (auto simp: col_counts_def is_column_opcode_def Let_def)

lemma Ap_mono:
  assumes "sparse_ok A" "k \<le> k'" "k' \<le> nat (nvec A)"
  shows "arr (Mp A) ! k \<le> arr (Mp A) ! k'"
proof -
  let ?Ap = "arr (Mp A)" and ?n = "nat (nvec A)"
  have s: "sorted (take (Suc ?n) ?Ap)" and l: "?n < length ?Ap"
    using assms(1) by (simp_all add: sparse_ok_def Let_def)
  have "take (Suc ?n) ?Ap ! k \<le> take (Suc ?n) ?Ap ! k'"
    using s assms(2,3) l by (intro sorted_nth_mono) simp_all
  then show ?thesis using assms(2,3) by simp
qed

lemma Ap_nonneg:
  assumes "sparse_ok A" "k \<le> nat (nvec A)"
  shows "0 \<le> arr (Mp A) ! k"
proof -
  have "arr (Mp A) ! 0 = 0" using assms(1) by (simp add: sparse_ok_def Let_def)
  then show ?thesis using Ap_mono [OF assms(1), of 0 k] assms(2) by simp
qed

lemma Ap_le_nvals:
  assumes "sparse_ok A" "k \<le> nat (nvec A)"
  shows "arr (Mp A) ! k \<le> nvals A"
proof -
  have "nvals A = arr (Mp A) ! nat (nvec A)"
    using assms(1) by (simp add: sparse_ok_def Let_def)
  then show ?thesis using Ap_mono [OF assms(1), of k "nat (nvec A)"] assms(2) by simp
qed

lemma entries_columns:
  assumes "sparse_ok A" "(i, c, x) \<in> set (entries A)"
  shows "0 \<le> c \<and> c < vdim A"
proof -
  from assms(2) obtain k where k: "k < nat (nvec A)" and c: "c = GBH (Mh A) k"
    by (auto simp: entries_def vec_entries_def)
  show ?thesis
  proof (cases "Mh A")
    case None
    then have "nvec A = vdim A" using assms(1) by (simp add: sparse_ok_def Let_def)
    then show ?thesis using k c None by (simp add: GBH_def)
  next
    case (Some Ah)
    then have la: "list_all (\<lambda>j. 0 \<le> j \<and> j < vdim A) (take (nat (nvec A)) Ah)"
      and le: "nat (nvec A) \<le> length Ah"
      using assms(1) by (simp_all add: sparse_ok_def Let_def)
    have "take (nat (nvec A)) Ah ! k \<in> set (take (nat (nvec A)) Ah)"
      using k le by (intro nth_mem) simp
    then have "0 \<le> Ah ! k \<and> Ah ! k < vdim A"
      using la k by (auto simp: list_all_iff)
    then show ?thesis using c Some by (simp add: GBH_def)
  qed
qed

lemma entries_empty:
  assumes "sparse_ok A" "nvals A = 0"
  shows "entries A = []"
proof -
  have "vec_entries A k = []" if "k < nat (nvec A)" for k
  proof -
    have "arr (Mp A) ! k = 0" "arr (Mp A) ! Suc k = 0"
      using Ap_nonneg [OF assms(1), of k] Ap_le_nvals [OF assms(1), of k]
        Ap_nonneg [OF assms(1), of "Suc k"] Ap_le_nvals [OF assms(1), of "Suc k"]
        that assms(2) by simp_all
    then show ?thesis by (simp add: vec_entries_def vec_positions_def)
  qed
  then show ?thesis by (simp add: entries_def)
qed

lemma entries_shallow_copy:
  assumes "GB_shallow_copy env A = (r, Some C)"
  shows "entries C = entries A"
proof -
  have "vec_entries C = vec_entries A" and "nvec C = nvec A"
    using assms by (auto simp: GB_shallow_copy_def fun_eq_iff vec_entries_def split: if_splits)
  then show ?thesis by (simp add: entries_def)
qed

lemma entries_new_empty:
  assumes "GB_new_empty env t vl vd = (r, Some C)"
  shows "entries C = []"
proof (cases "auto_hyper env vd")
  case True
  then show ?thesis using assms
    by (auto simp: GB_new_empty_def entries_def split: if_splits)
next
  case False
  then have C: "C = \<lparr>mtype = t, vlen = vl, vdim = vd, nvec = vd, plen = vd,
              nvals = 0, nvec_nonempty = 0, Mh = None,
              Mp = Some (replicate (nat vd + 1) 0),
              Mb = None, Mi = None, Mx = None, iso = False, jumbled = False,
              nzombies = 0, Pending = False, p_shallow = False, h_shallow = False,
              b_shallow = False, i_shallow = False, x_shallow = False\<rparr>"
    using assms by (auto simp: GB_new_empty_def split: if_splits)
  have "vec_entries C k = []" if "k < nat vd" for k
    using that by (simp add: C vec_entries_def vec_positions_def arr_def)
  then show ?thesis by (simp add: entries_def C)
qed

lemma shape_of_helpers:
  "GB_shallow_copy env A = (r, Some C) \<Longrightarrow>
     vlen C = vlen A \<and> vdim C = vdim A \<and> mtype C = mtype A \<and> nvals C = nvals A"
  "GB_new_empty env t vl vd = (r', Some C') \<Longrightarrow>
     vlen C' = vl \<and> vdim C' = vd \<and> mtype C' = t \<and> nvals C' = 0"
  by (auto simp: GB_shallow_copy_def GB_new_empty_def split: if_splits)

lemma bindE_eq_Inr: "(bindE m f = Inr r) = (\<exists>v. m = Inr v \<and> f v = Inr r)"
  by (cases m) simp_all

lemma ASSERT_eq_Inr: "(ASSERT c = Inr u) = c"
  by (simp add: ASSERT_def)

lemma free_workspace_empty:
  "live \<subseteq> workspace_sites \<Longrightarrow> GB_FREE_WORKSPACE (live - X) = {}"
  "live \<subseteq> workspace_sites \<Longrightarrow> GB_FREE_WORKSPACE live = {}"
  by (auto simp: GB_FREE_WORKSPACE_def workspace_sites_def)

lemma workspace_sites_intros [simp]:
  "{} \<subseteq> workspace_sites"
  "insert s live \<subseteq> workspace_sites = (s \<in> workspace_sites \<and> live \<subseteq> workspace_sites)"
  "(live \<union> live') \<subseteq> workspace_sites
     = (live \<subseteq> workspace_sites \<and> live' \<subseteq> workspace_sites)"
  "Alloc_Zp \<in> workspace_sites" "Alloc_Work \<in> workspace_sites"
  "Alloc_ek_slicing \<in> workspace_sites" "Alloc_Cp \<in> workspace_sites"
  "Alloc_Ch \<in> workspace_sites" "Alloc_Ci \<in> workspace_sites" "Alloc_Cx \<in> workspace_sites"
  by (auto simp: workspace_sites_def)

lemma finalize_in_place_result:
  assumes "general_finalize_in_place A C_iso nne cplen Cp Ci Cx live = Inr r"
    and "live \<subseteq> workspace_sites"
  shows "sel_info r = GrB_SUCCESS \<and> sel_C r = None \<and> jumbled (sel_A r) = jumbled A
         \<and> sel_live r = {}"
  using assms(1) free_workspace_empty(1) [OF assms(2)]
  by (auto simp: general_finalize_in_place_def Let_def bindE_eq_Inr
      split: if_splits prod.splits)

lemma finalize_new_result:
  assumes "general_finalize_new env A C_iso nne cplen Cp Ci Cx live = Inr r"
    and "live \<subseteq> workspace_sites"
  shows "sel_A r = A \<and> sel_live r = {}
         \<and> (sel_info r = GrB_SUCCESS \<longrightarrow> (\<exists>C. sel_C r = Some C \<and> jumbled C = jumbled A))
         \<and> (sel_info r \<noteq> GrB_SUCCESS \<longrightarrow> sel_info r = GrB_OUT_OF_MEMORY \<and> sel_C r = None)"
proof -
  have "insert Alloc_Ch live \<subseteq> workspace_sites" using assms(2) by simp
  note fw = free_workspace_empty [OF assms(2)] free_workspace_empty [OF this]
  show ?thesis
    using assms(1) fw
    by (auto simp: general_finalize_new_def Let_def bindE_eq_Inr GB_FREE_ALL_def
        split: if_splits prod.splits)
qed

lemma general_phases_result:
  assumes "general_phases env C_given op flipij A athunk C_iso live = Inr r"
    and "live \<subseteq> workspace_sites"
  shows "sel_live r = {}
         \<and> (sel_info r = GrB_SUCCESS \<longrightarrow>
              (if C_given then sel_A r = A \<and> (\<exists>C. sel_C r = Some C \<and> jumbled C = jumbled A)
               else sel_C r = None \<and> jumbled (sel_A r) = jumbled A))
         \<and> (sel_info r \<noteq> GrB_SUCCESS \<longrightarrow>
              sel_info r = GrB_OUT_OF_MEMORY \<and> sel_C r = None \<and> sel_A r = A)"
proof (cases "mem env Alloc_Ci \<and> mem env Alloc_Cx")
  case False
  have "live \<union> (if mem env Alloc_Ci then {Alloc_Ci} else {})
             \<union> (if mem env Alloc_Cx then {Alloc_Cx} else {}) \<subseteq> workspace_sites"
    using assms(2) by simp
  note fw = free_workspace_empty(2) [OF this]
  show ?thesis
    using assms(1) False fw
    by (auto simp: general_phases_def Let_def bindE_eq_Inr GB_FREE_ALL_def
        split: prod.splits)
next
  case True
  define live' where "live' = live \<union> {Alloc_Ci, Alloc_Cx}"
  have sub: "live' \<subseteq> workspace_sites"
    using assms(2) by (simp add: live'_def)
  show ?thesis
  proof (cases C_given)
    case True
    show ?thesis
      using assms(1) \<open>mem env Alloc_Ci \<and> mem env Alloc_Cx\<close> True
      unfolding general_phases_def Let_def live'_def [symmetric]
      by (auto simp: bindE_eq_Inr split_beta dest!: finalize_new_result [OF _ sub])
  next
    case False
    show ?thesis
      using assms(1) \<open>mem env Alloc_Ci \<and> mem env Alloc_Cx\<close> False
      unfolding general_phases_def Let_def live'_def [symmetric]
      by (auto simp: bindE_eq_Inr split_beta dest!: finalize_in_place_result [OF _ sub])
  qed
qed

lemma select_general_result:
  assumes "GB_select_general env C_given op flipij A athunk C_iso = Inr r"
  shows "sel_live r = {}
         \<and> (sel_info r = GrB_SUCCESS \<longrightarrow>
              (if C_given then sel_A r = A \<and> (\<exists>C. sel_C r = Some C \<and> jumbled C = jumbled A)
               else sel_C r = None \<and> jumbled (sel_A r) = jumbled A))
         \<and> (sel_info r \<noteq> GrB_SUCCESS \<longrightarrow>
              sel_info r = GrB_OUT_OF_MEMORY \<and> sel_C r = None \<and> sel_A r = A)"
proof (cases "mem env Alloc_Cp \<and> mem env Alloc_ek_slicing \<and> mem env Alloc_Work
              \<and> (GB_IS_INDEXUNARYOP_CODE_POSITIONAL (opcode op) \<longrightarrow> mem env Alloc_Zp)")
  case True
  define live where "live = {Alloc_Cp, Alloc_ek_slicing, Alloc_Work}
      \<union> (if GB_IS_INDEXUNARYOP_CODE_POSITIONAL (opcode op) then {Alloc_Zp} else {})"
  have sub: "live \<subseteq> workspace_sites"
    by (simp add: live_def)
  have ph: "general_phases env C_given op flipij A athunk C_iso live = Inr r"
    using assms True unfolding GB_select_general_def Let_def live_def [symmetric]
    by (simp split: if_splits)
  show ?thesis using general_phases_result [OF ph sub] .
next
  case False
  then show ?thesis
    using assms
    by (auto simp: GB_select_general_def Let_def GB_FREE_ALL_def GB_FREE_WORKSPACE_def
        split: if_splits)
qed
text \<open>
  The matrix that the general path creates (lines 842 to 890) is sparse or hypersparse: it
  has vector pointers and no bitmap, and the dimensions and the type of \<open>A\<close>.
\<close>

lemma finalize_new_form:
  assumes "general_finalize_new env A C_iso nne cplen Cp Ci Cx live = Inr r"
    and "sel_C r = Some C"
  shows "\<not> GB_IS_BITMAP C \<and> Mp C \<noteq> None \<and> vlen C = vlen A \<and> vdim C = vdim A
         \<and> mtype C = mtype A"
  using assms
  by (auto simp: general_finalize_new_def Let_def bindE_eq_Inr GB_FREE_ALL_def
      GB_IS_BITMAP_def split: if_splits prod.splits)

lemma finalize_in_place_form:
  assumes "general_finalize_in_place A C_iso nne cplen Cp Ci Cx live = Inr r"
  shows "sel_C r = None"
  using assms
  by (auto simp: general_finalize_in_place_def Let_def bindE_eq_Inr
      split: if_splits prod.splits)

lemma general_phases_form:
  assumes "general_phases env C_given op flipij A athunk C_iso live = Inr r"
    and "sel_C r = Some C"
  shows "\<not> GB_IS_BITMAP C \<and> Mp C \<noteq> None \<and> vlen C = vlen A \<and> vdim C = vdim A
         \<and> mtype C = mtype A"
proof (cases "mem env Alloc_Ci \<and> mem env Alloc_Cx")
  case False
  then show ?thesis
    using assms
    by (auto simp: general_phases_def Let_def bindE_eq_Inr GB_FREE_ALL_def
        split: prod.splits)
next
  case True
  show ?thesis
  proof (cases C_given)
    case cg: True
    show ?thesis
      using assms True cg
      unfolding general_phases_def Let_def
      by (auto simp: bindE_eq_Inr split_beta dest!: finalize_new_form)
  next
    case cg: False
    show ?thesis
      using assms True cg
      unfolding general_phases_def Let_def
      by (auto simp: bindE_eq_Inr split_beta dest!: finalize_in_place_form)
  qed
qed

lemma select_general_form:
  assumes "GB_select_general env C_given op flipij A athunk C_iso = Inr r"
    and "sel_C r = Some C"
  shows "\<not> GB_IS_BITMAP C \<and> Mp C \<noteq> None \<and> vlen C = vlen A \<and> vdim C = vdim A
         \<and> mtype C = mtype A"
proof (cases "mem env Alloc_Cp \<and> mem env Alloc_ek_slicing \<and> mem env Alloc_Work
              \<and> (GB_IS_INDEXUNARYOP_CODE_POSITIONAL (opcode op) \<longrightarrow> mem env Alloc_Zp)")
  case True
  have "\<exists>live. general_phases env C_given op flipij A athunk C_iso live = Inr r"
    using assms(1) True unfolding GB_select_general_def Let_def
    by (auto split: if_splits)
  then obtain live where ph: "general_phases env C_given op flipij A athunk C_iso live = Inr r"
    by blast
  show ?thesis by (rule general_phases_form [OF ph assms(2)])
next
  case False
  then show ?thesis
    using assms
    by (auto simp: GB_select_general_def Let_def GB_FREE_ALL_def GB_FREE_WORKSPACE_def
        split: if_splits)
qed

lemma shallow_copy_cases:
  "GB_shallow_copy env A = (GrB_OUT_OF_MEMORY, None)
   \<or> (\<exists>C. GB_shallow_copy env A = (GrB_SUCCESS, Some C) \<and> jumbled C = jumbled A)"
  by (cases "mem env Alloc_shallow_copy") (simp_all add: GB_shallow_copy_def)

lemma new_empty_cases:
  "GB_new_empty env t vl vd = (GrB_OUT_OF_MEMORY, None)
   \<or> (\<exists>C. GB_new_empty env t vl vd = (GrB_SUCCESS, Some C) \<and> \<not> jumbled C)"
  by (cases "mem env Alloc_new"; cases "auto_hyper env vd") (simp_all add: GB_new_empty_def)

lemma new_bix_cases:
  "GB_new_bix env t vl vd hyp pl nz ciso = (GrB_OUT_OF_MEMORY, None)
   \<or> (\<exists>C. GB_new_bix env t vl vd hyp pl nz ciso = (GrB_SUCCESS, Some C))"
  by (cases "mem env Alloc_new_bix") (simp_all add: GB_new_bix_def Let_def)

lemma col_fill_result:
  assumes "col_fill opc A C_iso k found pstart pend ajnz cnz cnvec C0 = Inr r"
  shows "sel_live r = {} \<and> sel_A r = A \<and> sel_info r = GrB_SUCCESS
         \<and> (\<exists>C. sel_C r = Some C \<and> jumbled C = jumbled A)"
proof -
  from assms obtain Cp Ch Ci Cx cnvals where
    "r = \<lparr>sel_info = GrB_SUCCESS, sel_A = A,
          sel_C = Some (C0\<lparr>nvec := cnvec, nvals := cnvals,
                    nvec_nonempty := GB_nvec_nonempty Cp cnvec,
                    Mh := (if Mh A \<noteq> None then Some Ch else None),
                    Mp := Some Cp, Mi := Some Ci, Mx := Some Cx,
                    iso := C_iso, jumbled := jumbled A\<rparr>),
          sel_live = {}\<rparr>"
    unfolding col_fill_def Let_def bindE_eq_Inr split_def by blast
  then show ?thesis by simp
qed

lemma col_build_result:
  assumes "col_build env opc A C_iso k found cs = Inr r"
  shows "sel_live r = {} \<and> sel_A r = A
         \<and> (sel_info r = GrB_SUCCESS \<longrightarrow>
               (\<exists>C. sel_C r = Some C \<and> (\<not> jumbled A \<longrightarrow> \<not> jumbled C)))
         \<and> (sel_info r \<noteq> GrB_SUCCESS \<longrightarrow> sel_info r = GrB_OUT_OF_MEMORY \<and> sel_C r = None)"
proof -
  obtain pstart pend ajnz anz cnz cnvec where cs: "cs = (pstart, pend, ajnz, anz, cnz, cnvec)"
    by (cases cs) auto
  show ?thesis
  proof (cases "cnz = anz")
    case True
    then have r: "r = sel_return (GB_shallow_copy env A) A"
      using assms by (simp add: col_build_def cs)
    show ?thesis using shallow_copy_cases [of env A]
      by (auto simp: r sel_return_def)
  next
    case ne: False
    show ?thesis
    proof (cases "cnz = 0")
      case True
      then have r: "r = sel_return (GB_new_empty env (mtype A) (vlen A) (vdim A)) A"
        using assms ne by (simp add: col_build_def cs)
      show ?thesis using new_empty_cases [of env "mtype A" "vlen A" "vdim A"]
        by (auto simp: r sel_return_def)
    next
      case False
      let ?nb = "GB_new_bix env (mtype A) (vlen A) (vdim A) (Mh A \<noteq> None) cnvec cnz (iso A)"
      have body: "(case ?nb of (r, None) \<Rightarrow> Inr (GB_FREE_ALL r A {})
                   | (r, Some C0) \<Rightarrow>
                       col_fill opc A C_iso k found pstart pend ajnz cnz cnvec C0) = Inr r"
        using assms ne False by (simp add: col_build_def cs del: not_None_eq)
      from new_bix_cases [of env "mtype A" "vlen A" "vdim A" "Mh A \<noteq> None" cnvec cnz "iso A"]
      show ?thesis
      proof
        assume f: "?nb = (GrB_OUT_OF_MEMORY, None)"
        have "r = GB_FREE_ALL GrB_OUT_OF_MEMORY A {}"
          using body unfolding f by simp
        then show ?thesis by (simp add: GB_FREE_ALL_def GB_FREE_WORKSPACE_def)
      next
        assume "\<exists>C. ?nb = (GrB_SUCCESS, Some C)"
        then obtain C0 where f: "?nb = (GrB_SUCCESS, Some C0)" by blast
        have "col_fill opc A C_iso k found pstart pend ajnz cnz cnvec C0 = Inr r"
          using body unfolding f by simp
        from col_fill_result [OF this] show ?thesis by auto
      qed
    qed
  qed
qed

lemma select_column_result:
  assumes "GB_select_column env C_given opc A ithunk C_iso = Inr r"
  shows "C_given \<and> sel_live r = {} \<and> sel_A r = A
         \<and> (sel_info r = GrB_SUCCESS \<longrightarrow>
               (\<exists>C. sel_C r = Some C \<and> (\<not> jumbled A \<longrightarrow> \<not> jumbled C)))
         \<and> (sel_info r \<noteq> GrB_SUCCESS \<longrightarrow> sel_info r = GrB_OUT_OF_MEMORY \<and> sel_C r = None)"
proof -
  from assms have "C_given \<and> (\<exists>k found cs. col_build env opc A C_iso k found cs = Inr r)"
    unfolding GB_select_column_def bindE_eq_Inr ASSERT_eq_Inr split_def by blast
  then show ?thesis using col_build_result by blast
qed
lemma opcode_classes:
  "GB_IS_INDEXUNARYOP_CODE_POSITIONAL opc \<or> opc = GB_NONZOMBIE_idxunop_code
   \<or> opcode_is_value opc \<or> opc = GB_USER_idxunop_code"
  by (cases opc) (simp_all add: GB_IS_INDEXUNARYOP_CODE_POSITIONAL_def opcode_is_value_def)

lemma length_GB_cumsum [simp]: "length (GB_cumsum s cs) = Suc (length cs)"
  by (induction cs arbitrary: s) simp_all

lemma length_phase1 [simp]: "length (GB_select_phase1 op flipij A) = nat (nvec A)"
  by (simp add: GB_select_phase1_def)

lemma length_merge2:
  "length (snd (GB_ek_slice_merge2 counts cplen)) = Suc (length counts) + (nat cplen - length counts)"
  by (simp add: GB_ek_slice_merge2_def)

lemma rd_merge2:
  assumes "0 \<le> nvec A"
  shows "rd (snd (GB_ek_slice_merge2 (GB_select_phase1 op flipij A) cplen)) (nvec A)
           = Inr (snd (GB_ek_slice_merge2 (GB_select_phase1 op flipij A) cplen) ! nat (nvec A))"
  using assms by (simp add: rd_def length_merge2)

lemma general_asserts:
  assumes "\<not> (iso A \<and> opcode_is_value opc)"
  shows "(if GB_IS_INDEXUNARYOP_CODE_POSITIONAL opc \<or> opc = GB_NONZOMBIE_idxunop_code
          then Inr ()
          else ASSERT ((\<not> iso A \<or> opc = GB_USER_idxunop_code)
                       \<and> (opcode_is_value opc \<or> opc = GB_USER_idxunop_code))) = Inr ()"
    and "(if GB_IS_INDEXUNARYOP_CODE_POSITIONAL opc
             \<or> (opc = GB_NONZOMBIE_idxunop_code \<and> iso A)
          then Inr ()
          else ASSERT ((\<not> iso A \<or> opc = GB_USER_idxunop_code)
                       \<and> (opcode_is_value opc
                           \<or> (opc = GB_NONZOMBIE_idxunop_code \<and> \<not> iso A)
                           \<or> opc = GB_USER_idxunop_code))) = Inr ()"
  using assms opcode_classes [of opc] by (auto simp: ASSERT_def)

text \<open>
  With the assertions discharged and the cumulative sum read, the phases reduce to the
  allocation of \<open>Ci\<close> and \<open>Cx\<close>, phase 2 and the transplant.
\<close>

lemma general_phases_unfold:
  assumes "\<not> (iso A \<and> opcode_is_value (opcode op))" and "0 \<le> nvec A"
  shows "general_phases env C_given op flipij A athunk C_iso live =
     (let cplen = GB_IMAX 1 (nvec A);
          mg = GB_ek_slice_merge2 (GB_select_phase1 op flipij A) cplen;
          cnz = GB_IMAX (snd mg ! nat (nvec A)) 1
      in if \<not> mem env Alloc_Ci \<or> \<not> mem env Alloc_Cx
         then Inr (GB_FREE_ALL GrB_OUT_OF_MEMORY A
                     (live \<union> (if mem env Alloc_Ci then {Alloc_Ci} else {})
                           \<union> (if mem env Alloc_Cx then {Alloc_Cx} else {})))
         else (let Ci0 = replicate (nat cnz) (junk env);
                   Cx0 = replicate (if C_iso then 1 else nat cnz) (junkx env);
                   Cx1 = (if C_iso then GB_select_iso Cx0 (opcode op) athunk (arr (Mx A))
                          else Cx0);
                   ph2 = GB_select_phase2 op flipij A C_iso (snd mg) Ci0 Cx1
               in if \<not> C_given
                  then general_finalize_in_place A C_iso (fst mg) cplen (snd mg)
                         (fst ph2) (snd ph2) (live \<union> {Alloc_Ci, Alloc_Cx})
                  else general_finalize_new env A C_iso (fst mg) cplen (snd mg)
                         (fst ph2) (snd ph2) (live \<union> {Alloc_Ci, Alloc_Cx})))"
  unfolding general_phases_def Let_def split_def
  by (simp only: general_asserts [OF assms(1)] rd_merge2 [OF assms(2)] bindE_Inr)




lemma select_iso_value_eq:
  assumes "arr (Mx A) \<noteq> []"
  shows "GB_select_iso_value env True op A athunk =
           (if \<not> mem env Alloc_selector_bitmap
            then Inr (GB_FREE_ALL GrB_OUT_OF_MEMORY A {})
            else if test op 0 0 (arr (Mx A) ! 0)
            then Inr (sel_return (GB_shallow_copy env A) A)
            else Inr (sel_return (GB_new_empty env (mtype A) (vlen A) (vdim A)) A))"
proof -
  have rd0: "rd (arr (Mx A)) 0 = Inr (arr (Mx A) ! 0)"
    using assms by (simp add: rd_def)
  show ?thesis
    unfolding GB_select_iso_value_def rd0
    by (simp add: GB_selector_bitmap_def GB_Scalar_wrap_def Let_def GB_nnz_def
        entry_keep_def aval_def arr_def)
qed


lemma selector_cases:
  "GB_selector env C_given op flipij A ithunk athunk =
     (if GB_OPCODE_IS_POSITIONAL (opcode op) \<and> jumbled A then Inl AssertFailed
      else if iso A \<and> opcode_is_value (opcode op)
      then GB_select_iso_value env C_given op A athunk
      else if use_selector_bitmap (opcode op) (\<not> C_given) A
      then (if C_given
            then Inr (sel_return
                        (GB_selector_bitmap env
                           (iso A \<or> opcode op = GB_VALUEEQ_idxunop_code) op flipij A athunk) A)
            else Inl AssertFailed)
      else if GB_IS_BITMAP A then Inl AssertFailed
      else if is_column_opcode (opcode op)
      then GB_select_column env C_given (opcode op) A ithunk
             (iso A \<or> opcode op = GB_VALUEEQ_idxunop_code)
      else GB_select_general env C_given op flipij A athunk
             (iso A \<or> opcode op = GB_VALUEEQ_idxunop_code))"
  by (simp add: GB_selector_def Let_def is_column_opcode_def ASSERT_def)


lemma selector_takes_general_path:
  assumes "\<not> (iso A \<and> opcode_is_value (opcode op))"
    and "\<not> use_selector_bitmap (opcode op) (\<not> C_given) A"
    and "\<not> is_column_opcode (opcode op)"
    and "GB_OPCODE_IS_POSITIONAL (opcode op) \<longrightarrow> \<not> jumbled A"
    and "\<not> GB_IS_BITMAP A"
  shows "GB_selector env C_given op flipij A ithunk athunk
           = GB_select_general env C_given op flipij A athunk
               (iso A \<or> opcode op = GB_VALUEEQ_idxunop_code)"
  using assms by (auto simp: selector_cases)

lemma selector_takes_column_path_gen:
  assumes "\<not> (iso A \<and> opcode_is_value (opcode op))"
    and "\<not> use_selector_bitmap (opcode op) (\<not> C_given) A"
    and "is_column_opcode (opcode op)"
    and "\<not> (GB_OPCODE_IS_POSITIONAL (opcode op) \<and> jumbled A)"
    and "\<not> GB_IS_BITMAP A"
  shows "GB_selector env C_given op flipij A ithunk athunk
           = GB_select_column env C_given (opcode op) A ithunk
               (iso A \<or> opcode op = GB_VALUEEQ_idxunop_code)"
  using assms by (auto simp: selector_cases)


lemma filter_all: "(\<And>e. e \<in> set xs \<Longrightarrow> P e) \<Longrightarrow> filter P xs = xs"
  by (induction xs) auto

lemma filter_none: "(\<And>e. e \<in> set xs \<Longrightarrow> \<not> P e) \<Longrightarrow> filter P xs = []"
  by (induction xs) auto

lemma out_of_range_filter:
  assumes "sparse_ok A" and "is_column_opcode opc" and "j < 0 \<or> vdim A \<le> j"
  shows "filter (\<lambda>(i, c, x). col_keeps opc j c) (entries A) =
           (if opc = GB_COLINDEX_idxunop_code
               \<or> (opc = GB_COLLE_idxunop_code \<and> vdim A \<le> j)
               \<or> (opc = GB_COLGT_idxunop_code \<and> j < 0)
            then entries A else [])"
proof -
  have vd: "0 \<le> vdim A" using assms(1) by (simp add: sparse_ok_def Let_def)
  show ?thesis
  proof (cases "opc = GB_COLINDEX_idxunop_code
               \<or> (opc = GB_COLLE_idxunop_code \<and> vdim A \<le> j)
               \<or> (opc = GB_COLGT_idxunop_code \<and> j < 0)")
    case True
    have "filter (\<lambda>(i, c, x). col_keeps opc j c) (entries A) = entries A"
    proof (rule filter_all)
      fix e assume e: "e \<in> set (entries A)"
      obtain i c x where [simp]: "e = (i, c, x)" by (cases e) auto
      from entries_columns [OF assms(1)] e have "0 \<le> c \<and> c < vdim A" by simp
      then show "case e of (i, c, x) \<Rightarrow> col_keeps opc j c"
        using True assms(3) by (auto simp: col_keeps_def)
    qed
    then show ?thesis using True by simp
  next
    case False
    have "filter (\<lambda>(i, c, x). col_keeps opc j c) (entries A) = []"
    proof (rule filter_none)
      fix e assume e: "e \<in> set (entries A)"
      obtain i c x where [simp]: "e = (i, c, x)" by (cases e) auto
      from entries_columns [OF assms(1)] e have "0 \<le> c \<and> c < vdim A" by simp
      then show "\<not> (case e of (i, c, x) \<Rightarrow> col_keeps opc j c)"
        using False assms(2,3) vd by (auto simp: col_keeps_def is_column_opcode_def)
    qed
    then show ?thesis using False by auto
  qed
qed



section \<open>Properties of the offload oracle\<close>

text \<open>
  C7. \<open>GB_AxB_dot3_cuda_branch\<close> returns false whenever \<open>A\<close> or \<open>B\<close> has a
  user-defined element type or is held in bitmap or full form, whatever the work estimate
  is; and when it returns true, the GPU-count heuristic, applied to the estimate
  \<open>nnz(M) * min (avg_degree A) (avg_degree B)\<close> with
  \<open>avg_degree = nnz / max 1 nvec\<close>, reports at least one GPU.
\<close>

theorem cuda_branch_refuses_and_needs_gpu:
  "(code (mtype A) = GB_UDT_code \<or> code (mtype B) = GB_UDT_code
      \<or> GB_IS_BITMAP A \<or> GB_IS_BITMAP B \<or> GB_IS_FULL A \<or> GB_IS_FULL B
    \<longrightarrow> \<not> GB_AxB_dot3_cuda_branch fp ngpus M A B)
   \<and> (GB_AxB_dot3_cuda_branch fp ngpus M A B \<longrightarrow> ngpus (cuda_work fp M A B) > 0)"
  by (auto simp: GB_AxB_dot3_cuda_branch_def cuda_work_def avg_degree_def Let_def)

theorem cuda_branch_refuses_and_needs_gpu_witness:
  "\<not> GB_AxB_dot3_cuda_branch real_fp example_ngpus
        (example_operand example_builtin_type 100 5000)
        (example_operand example_type 100 5000)
        (example_operand example_builtin_type 100 5000)
   \<and> GB_AxB_dot3_cuda_branch real_fp example_ngpus
        (example_operand example_builtin_type 100 5000)
        (example_operand example_builtin_type 100 5000)
        (example_operand example_builtin_type 100 5000)
   \<and> example_ngpus (cuda_work real_fp
        (example_operand example_builtin_type 100 5000)
        (example_operand example_builtin_type 100 5000)
        (example_operand example_builtin_type 100 5000)) > 0"
proof -
  let ?M = "example_operand example_builtin_type 100 5000"
  let ?U = "example_operand example_type 100 5000"
  have udt: "code (mtype ?U) = GB_UDT_code"
    by (simp add: example_operand_def example_type_def)
  have yes: "GB_AxB_dot3_cuda_branch real_fp example_ngpus ?M ?M ?M"
    by (simp add: GB_AxB_dot3_cuda_branch_def real_fp_def example_ngpus_def
        example_operand_def example_builtin_type_def GB_nnz_def GB_IMAX_def
        GB_IMIN_fp_def GB_IS_BITMAP_def GB_IS_FULL_def)
  show ?thesis
    using cuda_branch_refuses_and_needs_gpu [of ?U ?M real_fp example_ngpus ?M]
      cuda_branch_refuses_and_needs_gpu [of ?M ?M real_fp example_ngpus ?M] udt yes
    by blast
qed


section \<open>Properties of the JIT dispatcher\<close>

text \<open>
  C2. The claim is that a failure to write the source file, to load the compiled library
  or to resolve the kernel entry symbol makes the dispatcher fall back to the generic
  kernel. The dispatcher signals the fallback with \<open>GrB_NO_VALUE\<close> (as it does when the
  semiring cannot be encoded), but on each of these three failures it returns
  \<open>GrB_PANIC\<close>, although its own comments say "punt to generic".
\<close>

theorem saxpy5_jit_failures_return_panic:
  "jit_info (GB_AxB_saxpy5_jit (example_env\<lparr>source_writable := False\<rparr>) example_request)
     = GrB_PANIC
   \<and> jit_info (GB_AxB_saxpy5_jit (example_env\<lparr>compiled_artifact := None\<rparr>) example_request)
     = GrB_PANIC
   \<and> jit_info (GB_AxB_saxpy5_jit
        (example_env\<lparr>compiled_artifact := Some (fresh_library\<lparr>sym_kernel := None\<rparr>)\<rparr>)
        example_request) = GrB_PANIC
   \<and> jit_info (GB_AxB_saxpy5_jit (example_env\<lparr>encodify_hash := UINT64_MAX\<rparr>) example_request)
     = GrB_NO_VALUE"
  by (simp add: GB_AxB_saxpy5_jit_def jit_compile_and_load_def jit_resolve_and_call_def
      jit_return_def example_env_def fresh_library_def UINT64_MAX_def)

text \<open>
  When the hash table has no kernel, an artifact is found on disk and the encoding has a
  non-empty suffix, then any mismatch of the version, of one of the five recorded
  definitions or of the monoid identity and terminal value, and any missing introspection
  symbol, makes the dispatcher unload that artifact and take the compile path: the
  artifact is closed and the compiler is run whenever the source file can be written.
\<close>

lemma stale_artifact_closed_and_compiler_run:
  assumes "\<not> GBRENAME env" and "encodify_hash env \<noteq> UINT64_MAX"
    and "jit_lookup env = None" and "disk_artifact env = Some l"
    and "suffix_len env \<noteq> 0"
    and "sym_query_defn l = None \<or> sym_query_version l = None \<or> sym_query_monoid l = None
         \<or> sym_query_version l \<noteq> Some (current_version env)
         \<or> (\<exists>q. sym_query_defn l = Some q \<and>
               (q 0 \<noteq> op_defn (monoid_op (add (semiring rq)))
                \<or> q 1 \<noteq> op_defn (multiply (semiring rq))
                \<or> q 2 \<noteq> defn (ctype rq) \<or> q 3 \<noteq> defn (atype rq)
                \<or> q 4 \<noteq> defn (btype rq)))
         \<or> sym_query_monoid l
               \<noteq> Some (identity (add (semiring rq)), terminal (add (semiring rq)))"
  shows "GB_AxB_saxpy5_jit env rq = jit_compile_and_load env [lib_id l]
         \<and> lib_id l \<in> set (jit_dlclosed (GB_AxB_saxpy5_jit env rq))
         \<and> jit_compiled (GB_AxB_saxpy5_jit env rq) = source_writable env"
proof -
  have stale: "artifact_stale env rq l"
    using assms(6)
    by (auto simp: artifact_stale_def GB_jitifyer_match_version_def
        GB_jitifyer_match_defn_def GB_jitifyer_match_idterm_def Let_def
        split: option.splits)
  have eq: "GB_AxB_saxpy5_jit env rq = jit_compile_and_load env [lib_id l]"
    using assms(1-5) stale by (simp add: GB_AxB_saxpy5_jit_def)
  have cl: "lib_id l \<in> set (jit_dlclosed (jit_compile_and_load env [lib_id l]))"
    by (simp add: jit_compile_and_load_def jit_resolve_and_call_def jit_return_def
        split: option.splits)
  have cmp: "jit_compiled (jit_compile_and_load env [lib_id l]) = source_writable env"
    by (simp add: jit_compile_and_load_def jit_resolve_and_call_def jit_return_def
        split: option.splits)
  show ?thesis using eq cl cmp by simp
qed

text \<open>
  C4. The claim is that a stale artifact is unloaded and recompiled and never silently
  used. The dispatcher checks the artifact that the first \<open>dlopen\<close> returns (lines 103
  to 120), closes it and runs the compiler, but it discards the result of
  \<open>GB_jitifyer_compile\<close> (line 175) and applies none of the checks to the artifact that
  the second \<open>dlopen\<close> of the same file returns (line 176). When the compilation leaves
  the file as it was, the stale artifact \<open>stale_library\<close>, whose recorded definition of
  the multiplier differs from the request, is loaded again: its kernel is inserted into
  the hash table and called, and the call reports success.
\<close>

theorem stale_artifact_used_after_failed_compile:
  "\<not> GB_jitifyer_match_defn (sym_query_defn stale_library) 1
        (op_defn (multiply (semiring example_request)))
   \<and> GB_AxB_saxpy5_jit
       (example_env\<lparr>disk_artifact := Some stale_library,
                    compiled_artifact := Some stale_library\<rparr>) example_request
     = \<lparr>jit_info = GrB_SUCCESS,
        jit_called = sym_kernel stale_library,
        jit_dlclosed = [lib_id stale_library], jit_compiled = True,
        jit_inserted = sym_kernel stale_library\<rparr>
   \<and> sym_kernel stale_library = Some \<lparr>from_lib = 1, kernel_info = GrB_SUCCESS\<rparr>"
proof -
  let ?env = "example_env\<lparr>disk_artifact := Some stale_library,
                          compiled_artifact := Some stale_library\<rparr>"
  have st: "artifact_stale ?env example_request stale_library"
    by (simp add: artifact_stale_def GB_jitifyer_match_version_def
        GB_jitifyer_match_defn_def GB_jitifyer_match_idterm_def Let_def
        example_env_def stale_library_def example_request_def example_semiring_def)
  have run: "GB_AxB_saxpy5_jit ?env example_request
               = jit_compile_and_load ?env [lib_id stale_library]"
    using st by (simp add: GB_AxB_saxpy5_jit_def example_env_def UINT64_MAX_def)
  have res: "jit_compile_and_load ?env [lib_id stale_library]
     = \<lparr>jit_info = GrB_SUCCESS,
        jit_called = sym_kernel stale_library,
        jit_dlclosed = [lib_id stale_library], jit_compiled = True,
        jit_inserted = sym_kernel stale_library\<rparr>"
    by (simp add: jit_compile_and_load_def jit_resolve_and_call_def jit_return_def
        example_env_def stale_library_def)
  have k: "sym_kernel stale_library = Some \<lparr>from_lib = 1, kernel_info = GrB_SUCCESS\<rparr>"
    by (simp add: stale_library_def)
  have md: "\<not> GB_jitifyer_match_defn (sym_query_defn stale_library) 1
              (op_defn (multiply (semiring example_request)))"
    by (simp add: GB_jitifyer_match_defn_def stale_library_def example_request_def
        example_semiring_def)
  show ?thesis using md run res k by simp
qed


subsection \<open>Allocation failures\<close>




subsection \<open>The jumbled flag\<close>

text \<open>
  C9. A positional operator on a jumbled matrix is stopped by the assertion at the head
  of the selector. Every call that succeeds on the column-selector path or on the general
  two-phase path leaves the jumbled flag as it was: the new matrix \<open>C\<close> is jumbled if
  and only if \<open>A\<close> is, and after a selection in place \<open>A\<close> is jumbled if and only if
  it was before.
\<close>

theorem selector_preserves_jumbled:
  "(GB_OPCODE_IS_POSITIONAL (opcode op) \<and> jumbled A
      \<longrightarrow> GB_selector env C_given op flipij A ithunk athunk = Inl AssertFailed)
   \<and> (\<forall>r. GB_selector env C_given op flipij A ithunk athunk = Inr r
           \<and> sel_info r = GrB_SUCCESS
           \<and> \<not> (iso A \<and> opcode_is_value (opcode op))
           \<and> \<not> use_selector_bitmap (opcode op) (\<not> C_given) A
         \<longrightarrow> (if C_given then \<exists>C. sel_C r = Some C \<and> (jumbled C \<longleftrightarrow> jumbled A)
              else sel_C r = None \<and> (jumbled (sel_A r) \<longleftrightarrow> jumbled A)))"
proof (intro conjI allI impI)
  assume "GB_OPCODE_IS_POSITIONAL (opcode op) \<and> jumbled A"
  then show "GB_selector env C_given op flipij A ithunk athunk = Inl AssertFailed"
    by (simp add: selector_cases)
next
  fix r
  assume a: "GB_selector env C_given op flipij A ithunk athunk = Inr r
           \<and> sel_info r = GrB_SUCCESS
           \<and> \<not> (iso A \<and> opcode_is_value (opcode op))
           \<and> \<not> use_selector_bitmap (opcode op) (\<not> C_given) A"
  let ?ciso = "iso A \<or> opcode op = GB_VALUEEQ_idxunop_code"
  from a have run: "GB_selector env C_given op flipij A ithunk athunk = Inr r"
    and ok: "sel_info r = GrB_SUCCESS"
    and niso: "\<not> (iso A \<and> opcode_is_value (opcode op))"
    and nbm: "\<not> use_selector_bitmap (opcode op) (\<not> C_given) A"
    by blast+
  have pj: "\<not> (GB_OPCODE_IS_POSITIONAL (opcode op) \<and> jumbled A)"
  proof
    assume "GB_OPCODE_IS_POSITIONAL (opcode op) \<and> jumbled A"
    then have "GB_selector env C_given op flipij A ithunk athunk = Inl AssertFailed"
      by (simp add: selector_cases)
    with run show False by simp
  qed
  have nb: "\<not> GB_IS_BITMAP A"
  proof
    assume "GB_IS_BITMAP A"
    then have "GB_selector env C_given op flipij A ithunk athunk = Inl AssertFailed"
      using pj niso nbm by (auto simp: selector_cases)
    with run show False by simp
  qed
  show "if C_given then \<exists>C. sel_C r = Some C \<and> (jumbled C \<longleftrightarrow> jumbled A)
        else sel_C r = None \<and> (jumbled (sel_A r) \<longleftrightarrow> jumbled A)"
  proof (cases "is_column_opcode (opcode op)")
    case True
    have nj: "\<not> jumbled A" using pj column_opcode_facts(1) [OF True] by blast
    have "GB_select_column env C_given (opcode op) A ithunk ?ciso = Inr r"
      using run selector_takes_column_path_gen [OF niso nbm True pj nb, of env flipij ithunk athunk]
      by simp
    from select_column_result [OF this] ok nj
    show ?thesis by auto
  next
    case False
    have pj': "GB_OPCODE_IS_POSITIONAL (opcode op) \<longrightarrow> \<not> jumbled A"
      using pj by blast
    have "GB_select_general env C_given op flipij A athunk ?ciso = Inr r"
      using run selector_takes_general_path [OF niso nbm False pj' nb, of env flipij ithunk athunk]
      by simp
    from select_general_result [OF this] ok show ?thesis by auto
  qed
qed

theorem selector_preserves_jumbled_witness:
  "GB_selector example_env_sel True (op_COLLE 2) False example_jumbled 2 0 = Inl AssertFailed
   \<and> (\<exists>r C. GB_selector example_env_sel True (op_VALUELE 14) False example_jumbled 0 0 = Inr r
           \<and> sel_C r = Some C \<and> jumbled C)
   \<and> (\<exists>r. GB_selector example_env_sel False (op_VALUELE 14) False example_jumbled 0 0 = Inr r
           \<and> jumbled (sel_A r))"
proof -
  let ?A = example_jumbled and ?op = "op_VALUELE 14"
  have j: "jumbled ?A" by (simp add: example_jumbled_def)
  have pos: "GB_OPCODE_IS_POSITIONAL (opcode (op_COLLE 2)) \<and> jumbled ?A"
    using j by (simp add: op_COLLE_def GB_OPCODE_IS_POSITIONAL_def
        GB_IS_INDEXUNARYOP_CODE_POSITIONAL_def)
  have niso: "\<not> (iso ?A \<and> opcode_is_value (opcode ?op))"
    by (simp add: example_jumbled_def example_sparse_def)
  have nbm: "\<not> use_selector_bitmap (opcode ?op) (\<not> cg) ?A" for cg
    by (simp add: use_selector_bitmap_def op_VALUELE_def example_jumbled_def
        example_sparse_def GB_IS_BITMAP_def GB_as_if_full_def GB_IS_FULL_def GB_nnz_def)
  have ev1: "case GB_selector example_env_sel True ?op False ?A 0 0 of
               Inl e \<Rightarrow> False | Inr r \<Rightarrow> sel_info r = GrB_SUCCESS"
    by code_simp
  have ev2: "case GB_selector example_env_sel False ?op False ?A 0 0 of
               Inl e \<Rightarrow> False | Inr r \<Rightarrow> sel_info r = GrB_SUCCESS"
    by code_simp
  obtain r1 where r1: "GB_selector example_env_sel True ?op False ?A 0 0 = Inr r1"
    and i1: "sel_info r1 = GrB_SUCCESS"
    using ev1 by (cases "GB_selector example_env_sel True ?op False ?A 0 0") simp_all
  obtain r2 where r2: "GB_selector example_env_sel False ?op False ?A 0 0 = Inr r2"
    and i2: "sel_info r2 = GrB_SUCCESS"
    using ev2 by (cases "GB_selector example_env_sel False ?op False ?A 0 0") simp_all
  note t0 = selector_preserves_jumbled [of "op_COLLE 2" ?A example_env_sel True False 2 0]
  have a: "GB_selector example_env_sel True (op_COLLE 2) False ?A 2 0 = Inl AssertFailed"
    using t0 [THEN conjunct1] pos by (rule mp)
  note t1 = selector_preserves_jumbled [of ?op ?A example_env_sel True False 0 0,
      THEN conjunct2, THEN spec, of r1]
  have "if True then \<exists>C. sel_C r1 = Some C \<and> (jumbled C \<longleftrightarrow> jumbled ?A)
        else sel_C r1 = None \<and> (jumbled (sel_A r1) \<longleftrightarrow> jumbled ?A)"
    using t1 r1 i1 niso nbm [of True] by blast
  then have b: "\<exists>C. sel_C r1 = Some C \<and> jumbled C" using j by simp
  note t2 = selector_preserves_jumbled [of ?op ?A example_env_sel False False 0 0,
      THEN conjunct2, THEN spec, of r2]
  have "if False then \<exists>C. sel_C r2 = Some C \<and> (jumbled C \<longleftrightarrow> jumbled ?A)
        else sel_C r2 = None \<and> (jumbled (sel_A r2) \<longleftrightarrow> jumbled ?A)"
    using t2 r2 i2 niso nbm [of False] by blast
  then have c: "jumbled (sel_A r2)" using j by simp
  show ?thesis using a b c r1 r2 by blast
qed


subsection \<open>Column selectors and a thunk out of range\<close>

text \<open>
  C10. For every 64-bit thunk whose column \<open>j\<close> (the negated thunk for \<open>COLINDEX\<close>,
  the thunk itself for \<open>COLLE\<close> and \<open>COLGT\<close>) lies outside \<open>[0, vdim)\<close>, the column
  selector on a well-formed sparse or hypersparse matrix takes the guarded branches of
  the lookup, reads no array out of range and fails no assertion. The column is treated
  as absent: deleting it gives a shallow copy of \<open>A\<close>; keeping the columns up to a
  negative \<open>j\<close>, or beyond a \<open>j\<close> at or above \<open>vdim\<close>, gives an empty matrix of the
  shape and type of \<open>A\<close> (a shallow copy when \<open>A\<close> itself has no entry); in each case
  the output holds exactly the entries of \<open>A\<close> in the columns the operator keeps.
\<close>

theorem column_selector_guards_out_of_range_thunk:
  assumes "is_column_opcode (opcode op)" and "sparse_ok A" and "\<not> jumbled A"
    and "\<not> GB_as_if_full A"
    and "col_thunk (opcode op) ithunk < 0 \<or> vdim A \<le> col_thunk (opcode op) ithunk"
  shows "GB_selector env True op flipij A ithunk athunk =
           Inr (sel_return
                  (if nvals A = 0 \<or> opcode op = GB_COLINDEX_idxunop_code
                      \<or> (opcode op = GB_COLLE_idxunop_code
                          \<and> vdim A \<le> col_thunk (opcode op) ithunk)
                      \<or> (opcode op = GB_COLGT_idxunop_code
                          \<and> col_thunk (opcode op) ithunk < 0)
                   then GB_shallow_copy env A
                   else GB_new_empty env (mtype A) (vlen A) (vdim A)) A)
         \<and> (\<forall>r C. GB_selector env True op flipij A ithunk athunk = Inr r \<and> sel_C r = Some C
               \<longrightarrow> vlen C = vlen A \<and> vdim C = vdim A \<and> mtype C = mtype A
                   \<and> entries C = filter (\<lambda>(i, c, x). col_keeps (opcode op)
                                             (col_thunk (opcode op) ithunk) c) (entries A))"
proof -
  let ?opc = "opcode op" and ?j = "col_thunk (opcode op) ithunk"
  let ?all = "?opc = GB_COLINDEX_idxunop_code \<or> (?opc = GB_COLLE_idxunop_code \<and> vdim A \<le> ?j)
              \<or> (?opc = GB_COLGT_idxunop_code \<and> ?j < 0)"
  define h where "h = (if nvals A = 0 \<or> ?all then GB_shallow_copy env A
                        else GB_new_empty env (mtype A) (vlen A) (vdim A))"
  have path: "GB_selector env True op flipij A ithunk athunk
                = GB_select_column env True ?opc A ithunk (iso A)"
    using assms(1-4) by (simp add: selector_takes_column_path)
  have find: "col_find ?opc ithunk (vdim A) (nvec A) (Mh A)
                = Inr (if ?j < 0 then 0 else nvec A, False)"
    using assms(5) by (rule col_find_out_of_range)
  note counts = col_counts_out_of_range [OF assms(2) assms(1)]
  have eq0: "GB_selector env True op flipij A ithunk athunk =
           Inr (sel_return
                  (if nvals A = 0 \<or> opcode op = GB_COLINDEX_idxunop_code
                      \<or> (opcode op = GB_COLLE_idxunop_code
                          \<and> vdim A \<le> col_thunk (opcode op) ithunk)
                      \<or> (opcode op = GB_COLGT_idxunop_code
                          \<and> col_thunk (opcode op) ithunk < 0)
                   then GB_shallow_copy env A
                   else GB_new_empty env (mtype A) (vlen A) (vdim A)) A)"
  proof (cases "?j < 0")
    case True
    then have nge: "\<not> vdim A \<le> ?j" using assms(2) by (simp add: sparse_ok_def Let_def)
    show ?thesis
      using True nge assms(1)
      by (auto simp: path GB_select_column_def col_build_def Let_def find counts(1)
          is_column_opcode_def)
  next
    case False
    then have ge: "vdim A \<le> ?j" using assms(5) by simp
    show ?thesis
      using False ge assms(1)
      by (auto simp: path GB_select_column_def col_build_def Let_def find counts(2)
          is_column_opcode_def)
  qed
  have eq: "GB_selector env True op flipij A ithunk athunk = Inr (sel_return h A)"
    using eq0 unfolding h_def .
  note flt = out_of_range_filter [OF assms(2,1,5)]
  have sem: "vlen C = vlen A \<and> vdim C = vdim A \<and> mtype C = mtype A
             \<and> entries C = filter (\<lambda>(i, c, x). col_keeps ?opc ?j c) (entries A)"
    if "snd h = Some C" for C
  proof (cases "nvals A = 0 \<or> ?all")
    case True
    then have hh: "h = GB_shallow_copy env A" unfolding h_def by (rule if_P)
    have sc: "GB_shallow_copy env A = (fst (GB_shallow_copy env A), Some C)"
      using that unfolding hh by (simp add: prod_eq_iff)
    have "entries A = filter (\<lambda>(i, c, x). col_keeps ?opc ?j c) (entries A)"
    proof (cases ?all)
      case True
      then show ?thesis using flt by simp
    next
      case False
      then have "nvals A = 0" using \<open>nvals A = 0 \<or> ?all\<close> by blast
      then show ?thesis using entries_empty [OF assms(2)] by simp
    qed
    then show ?thesis using shape_of_helpers(1) [OF sc] entries_shallow_copy [OF sc] by simp
  next
    case False
    then have hh: "h = GB_new_empty env (mtype A) (vlen A) (vdim A)"
      unfolding h_def by (rule if_not_P)
    have nw: "GB_new_empty env (mtype A) (vlen A) (vdim A)
                     = (fst (GB_new_empty env (mtype A) (vlen A) (vdim A)), Some C)"
      using that unfolding hh by (simp add: prod_eq_iff)
    have "filter (\<lambda>(i, c, x). col_keeps ?opc ?j c) (entries A) = []"
      using False flt by auto
    then show ?thesis using shape_of_helpers(2) [OF nw] entries_new_empty [OF nw] by simp
  qed
  show ?thesis
  proof (intro conjI allI impI)
    show "GB_selector env True op flipij A ithunk athunk =
           Inr (sel_return
                  (if nvals A = 0 \<or> opcode op = GB_COLINDEX_idxunop_code
                      \<or> (opcode op = GB_COLLE_idxunop_code
                          \<and> vdim A \<le> col_thunk (opcode op) ithunk)
                      \<or> (opcode op = GB_COLGT_idxunop_code
                          \<and> col_thunk (opcode op) ithunk < 0)
                   then GB_shallow_copy env A
                   else GB_new_empty env (mtype A) (vlen A) (vdim A)) A)"
      by (rule eq0)
  next
    fix r C
    assume "GB_selector env True op flipij A ithunk athunk = Inr r \<and> sel_C r = Some C"
    then have "snd h = Some C" unfolding eq by (auto simp: sel_return_def)
    from sem [OF this] show "vlen C = vlen A" "vdim C = vdim A" "mtype C = mtype A"
      "entries C = filter (\<lambda>(i, c, x). col_keeps ?opc ?j c) (entries A)" by simp_all
  qed
qed

theorem column_selector_guards_out_of_range_thunk_witness:
  "GB_selector example_env_sel True (op_COLINDEX 9223372036854775808) False example_sparse
       (- 9223372036854775808) 0
     = Inr (sel_return (GB_shallow_copy example_env_sel example_sparse) example_sparse)
   \<and> GB_selector example_env_sel True (op_COLLE (- 1)) False example_hyper (- 1) 0
     = Inr (sel_return (GB_new_empty example_env_sel (mtype example_hyper)
                          (vlen example_hyper) (vdim example_hyper)) example_hyper)"
proof -
  let ?op1 = "op_COLINDEX 9223372036854775808" and ?op2 = "op_COLLE (- 1)"
  have s1: "sparse_ok example_sparse"
    by (simp add: sparse_ok_def example_sparse_def arr_def)
  have s2: "sparse_ok example_hyper"
    by (simp add: sparse_ok_def example_hyper_def example_sparse_def arr_def)
  have f1: "\<not> GB_as_if_full example_sparse" and g1: "\<not> jumbled example_sparse"
    by (simp_all add: GB_as_if_full_def example_sparse_def GB_IS_FULL_def GB_nnz_def)
  have f2: "\<not> GB_as_if_full example_hyper" and g2: "\<not> jumbled example_hyper"
    by (simp_all add: GB_as_if_full_def example_hyper_def example_sparse_def GB_IS_FULL_def
        GB_nnz_def)
  have o1: "opcode ?op1 = GB_COLINDEX_idxunop_code" by (simp add: op_COLINDEX_def)
  have o2: "opcode ?op2 = GB_COLLE_idxunop_code" by (simp add: op_COLLE_def)
  have c1: "is_column_opcode (opcode ?op1)" unfolding o1 by (simp add: is_column_opcode_def)
  have c2: "is_column_opcode (opcode ?op2)" unfolding o2 by (simp add: is_column_opcode_def)
  have j1: "col_thunk (opcode ?op1) (- 9223372036854775808) < 0
            \<or> vdim example_sparse \<le> col_thunk (opcode ?op1) (- 9223372036854775808)"
    unfolding o1 by (simp add: col_thunk_def)
  have j2: "col_thunk (opcode ?op2) (- 1) < 0
            \<or> vdim example_hyper \<le> col_thunk (opcode ?op2) (- 1)"
    unfolding o2 by (simp add: col_thunk_def)
  have k1: "nvals example_sparse = 0 \<or> opcode ?op1 = GB_COLINDEX_idxunop_code
      \<or> (opcode ?op1 = GB_COLLE_idxunop_code
          \<and> vdim example_sparse \<le> col_thunk (opcode ?op1) (- 9223372036854775808))
      \<or> (opcode ?op1 = GB_COLGT_idxunop_code
          \<and> col_thunk (opcode ?op1) (- 9223372036854775808) < 0)"
    using o1 by blast
  have k2: "\<not> (nvals example_hyper = 0 \<or> opcode ?op2 = GB_COLINDEX_idxunop_code
      \<or> (opcode ?op2 = GB_COLLE_idxunop_code
          \<and> vdim example_hyper \<le> col_thunk (opcode ?op2) (- 1))
      \<or> (opcode ?op2 = GB_COLGT_idxunop_code \<and> col_thunk (opcode ?op2) (- 1) < 0))"
    unfolding o2 by (simp add: col_thunk_def example_hyper_def example_sparse_def)
  note a = column_selector_guards_out_of_range_thunk
             [OF c1 s1 g1 f1 j1, of example_env_sel False 0, THEN conjunct1,
              unfolded if_P [OF k1]]
  note b = column_selector_guards_out_of_range_thunk
             [OF c2 s2 g2 f2 j2, of example_env_sel False 0, THEN conjunct1,
              unfolded if_not_P [OF k2]]
  show ?thesis using a b by (rule conjI)
qed


subsection \<open>The iso fast path\<close>

lemma value_opcode_not_positional:
  "opcode_is_value opc \<Longrightarrow> \<not> GB_OPCODE_IS_POSITIONAL opc"
  by (cases opc) (simp_all add: opcode_is_value_def GB_OPCODE_IS_POSITIONAL_def
      GB_IS_INDEXUNARYOP_CODE_POSITIONAL_def)

text \<open>
  C3, as stated, fails. The user-defined operator \<open>op_USER_value_le 14\<close> depends on the
  value of an entry only, and the stored value 10 of the iso matrix \<open>example_iso\<close>
  satisfies it. The selector does not take the iso fast path: the test at lines 147 and
  148 is on the opcode, and a user-defined operator is outside the range it admits. The
  call runs the general two-phase path, which applies the operator to every entry, and
  the output is not a shallow copy of \<open>A\<close>: it owns arrays that were built for it.
\<close>

theorem iso_fast_path_counterexample:
  "iso example_iso
   \<and> test (op_USER_value_le 14) 0 0 (arr (Mx example_iso) ! 0)
   \<and> GB_selector example_env_sel True (op_USER_value_le 14) False example_iso 0 0
       = GB_select_general example_env_sel True (op_USER_value_le 14) False example_iso 0 True
   \<and> GB_selector example_env_sel True (op_USER_value_le 14) False example_iso 0 0
       \<noteq> Inr (sel_return (GB_shallow_copy example_env_sel example_iso) example_iso)
   \<and> (case GB_selector example_env_sel True (op_USER_value_le 14) False example_iso 0 0 of
         Inl e \<Rightarrow> False
       | Inr r \<Rightarrow> sel_info r = GrB_SUCCESS
                  \<and> (case sel_C r of
                        None \<Rightarrow> False
                      | Some C \<Rightarrow> \<not> p_shallow C \<and> \<not> i_shallow C \<and> \<not> x_shallow C
                                  \<and> Mi C = Some [0, 2, 4, 1, 3, 0, 1, 2, 3, 4, 5]
                                  \<and> Mx C = Some [10] \<and> nvals C = 11))"
proof -
  let ?op = "op_USER_value_le 14"
  have a: "iso example_iso"
    by (simp add: example_iso_def)
  have b: "test ?op 0 0 (arr (Mx example_iso) ! 0)"
    by (simp add: op_USER_value_le_def example_iso_def arr_def)
  have h1: "\<not> (iso example_iso \<and> opcode_is_value (opcode ?op))"
    by (simp add: op_USER_value_le_def opcode_is_value_def)
  have h2: "\<not> use_selector_bitmap (opcode ?op) (\<not> True) example_iso"
    by (simp add: use_selector_bitmap_def op_USER_value_le_def example_iso_def
        example_hyper_def example_sparse_def GB_IS_BITMAP_def GB_as_if_full_def
        GB_IS_FULL_def GB_nnz_def)
  have h3: "\<not> is_column_opcode (opcode ?op)"
    by (simp add: is_column_opcode_def op_USER_value_le_def)
  have h4: "GB_OPCODE_IS_POSITIONAL (opcode ?op) \<longrightarrow> \<not> jumbled example_iso"
    by (simp add: example_iso_def example_hyper_def example_sparse_def)
  have h5: "\<not> GB_IS_BITMAP example_iso"
    by (simp add: GB_IS_BITMAP_def example_iso_def example_hyper_def example_sparse_def)
  have c: "GB_selector example_env_sel True ?op False example_iso 0 0
       = GB_select_general example_env_sel True ?op False example_iso 0 True"
    using selector_takes_general_path [OF h1 h2 h3 h4 h5, of example_env_sel False 0 0] a
    by simp
  have e: "case GB_selector example_env_sel True ?op False example_iso 0 0 of
         Inl e \<Rightarrow> False
       | Inr r \<Rightarrow> sel_info r = GrB_SUCCESS
                  \<and> (case sel_C r of
                        None \<Rightarrow> False
                      | Some C \<Rightarrow> \<not> p_shallow C \<and> \<not> i_shallow C \<and> \<not> x_shallow C
                                  \<and> Mi C = Some [0, 2, 4, 1, 3, 0, 1, 2, 3, 4, 5]
                                  \<and> Mx C = Some [10] \<and> nvals C = 11)"
    by code_simp
  have s: "case sel_C (sel_return (GB_shallow_copy example_env_sel example_iso) example_iso) of
             None \<Rightarrow> False | Some C \<Rightarrow> i_shallow C"
    by (simp add: sel_return_def GB_shallow_copy_def example_env_sel_def example_iso_def
        example_hyper_def example_sparse_def)
  have d: "GB_selector example_env_sel True ?op False example_iso 0 0
       \<noteq> Inr (sel_return (GB_shallow_copy example_env_sel example_iso) example_iso)"
  proof
    assume eq: "GB_selector example_env_sel True ?op False example_iso 0 0
       = Inr (sel_return (GB_shallow_copy example_env_sel example_iso) example_iso)"
    from e [unfolded eq] s show False
      by (auto split: option.splits)
  qed
  show ?thesis using a b c d e by blast
qed

text \<open>
  C3, amended. For an iso matrix \<open>A\<close> that holds its stored value, one of the built-in
  operators that compare the value with the thunk (\<open>VALUENE\<close> to \<open>VALUELE\<close>: the
  operators that the code takes as depending on the value only; a user-defined operator is
  not one of them, whatever it computes) and a request that is not in place, the result of
  the selector is determined by the operator at one point, the stored value of \<open>A\<close>
  (wrapped as a scalar, so in row 0 and column 0). When the scalar test cannot be
  allocated the call returns out-of-memory. Otherwise, when the value satisfies the
  operator the output is a shallow copy of \<open>A\<close>, with the \<open>nvals\<close> and the entries of
  \<open>A\<close>, and when it does not the output is an empty matrix with the dimensions and the
  type of \<open>A\<close> (each as its own allocation allows). The operator is not applied to any
  entry of \<open>A\<close>: the result does not mention the operator anywhere else.
\<close>

theorem iso_fast_path:
  assumes "iso A" and "opcode_is_value (opcode op)" and "arr (Mx A) \<noteq> []"
  shows "GB_selector env True op flipij A ithunk athunk =
           (if \<not> mem env Alloc_selector_bitmap
            then Inr (GB_FREE_ALL GrB_OUT_OF_MEMORY A {})
            else if test op 0 0 (arr (Mx A) ! 0)
            then Inr (sel_return (GB_shallow_copy env A) A)
            else Inr (sel_return (GB_new_empty env (mtype A) (vlen A) (vdim A)) A))
         \<and> (mem env Alloc_selector_bitmap \<and> mem env Alloc_shallow_copy \<and> mem env Alloc_new
             \<longrightarrow> (\<exists>C. GB_selector env True op flipij A ithunk athunk =
                        Inr \<lparr>sel_info = GrB_SUCCESS, sel_A = A, sel_C = Some C,
                             sel_live = {}\<rparr>
                      \<and> vlen C = vlen A \<and> vdim C = vdim A \<and> mtype C = mtype A
                      \<and> (if test op 0 0 (arr (Mx A) ! 0)
                          then C = A\<lparr>p_shallow := (Mp A \<noteq> None),
                                     h_shallow := (Mh A \<noteq> None),
                                     b_shallow := (Mb A \<noteq> None),
                                     i_shallow := (Mi A \<noteq> None),
                                     x_shallow := (Mx A \<noteq> None)\<rparr>
                               \<and> nvals C = nvals A \<and> entries C = entries A
                          else nvals C = 0 \<and> entries C = [])))"
proof -
  have np: "\<not> (GB_OPCODE_IS_POSITIONAL (opcode op) \<and> jumbled A)"
    using value_opcode_not_positional [OF assms(2)] by blast
  have "GB_selector env True op flipij A ithunk athunk
          = GB_select_iso_value env True op A athunk"
    using np assms(1,2) by (auto simp: selector_cases)
  then have eq: "GB_selector env True op flipij A ithunk athunk =
           (if \<not> mem env Alloc_selector_bitmap
            then Inr (GB_FREE_ALL GrB_OUT_OF_MEMORY A {})
            else if test op 0 0 (arr (Mx A) ! 0)
            then Inr (sel_return (GB_shallow_copy env A) A)
            else Inr (sel_return (GB_new_empty env (mtype A) (vlen A) (vdim A)) A))"
    by (simp only: select_iso_value_eq [OF assms(3)])
  have ok: "\<exists>C. GB_selector env True op flipij A ithunk athunk =
                        Inr \<lparr>sel_info = GrB_SUCCESS, sel_A = A, sel_C = Some C,
                             sel_live = {}\<rparr>
                      \<and> vlen C = vlen A \<and> vdim C = vdim A \<and> mtype C = mtype A
                      \<and> (if test op 0 0 (arr (Mx A) ! 0)
                          then C = A\<lparr>p_shallow := (Mp A \<noteq> None),
                                     h_shallow := (Mh A \<noteq> None),
                                     b_shallow := (Mb A \<noteq> None),
                                     i_shallow := (Mi A \<noteq> None),
                                     x_shallow := (Mx A \<noteq> None)\<rparr>
                               \<and> nvals C = nvals A \<and> entries C = entries A
                          else nvals C = 0 \<and> entries C = [])"
    if m: "mem env Alloc_selector_bitmap \<and> mem env Alloc_shallow_copy \<and> mem env Alloc_new"
  proof (cases "test op 0 0 (arr (Mx A) ! 0)")
    case True
    let ?C = "A\<lparr>p_shallow := (Mp A \<noteq> None), h_shallow := (Mh A \<noteq> None),
                b_shallow := (Mb A \<noteq> None), i_shallow := (Mi A \<noteq> None),
                x_shallow := (Mx A \<noteq> None)\<rparr>"
    have sc: "GB_shallow_copy env A = (GrB_SUCCESS, Some ?C)"
      using m by (simp add: GB_shallow_copy_def del: not_None_eq)
    have "GB_selector env True op flipij A ithunk athunk =
            Inr \<lparr>sel_info = GrB_SUCCESS, sel_A = A, sel_C = Some ?C, sel_live = {}\<rparr>"
      unfolding eq using m True by (simp add: sc sel_return_def del: not_None_eq)
    moreover have "vlen ?C = vlen A \<and> vdim ?C = vdim A \<and> mtype ?C = mtype A
        \<and> nvals ?C = nvals A" by simp
    moreover have "entries ?C = entries A" using entries_shallow_copy [OF sc] .
    ultimately show ?thesis using True by (intro exI [of _ ?C]) (simp del: not_None_eq)
  next
    case False
    obtain C where nw: "GB_new_empty env (mtype A) (vlen A) (vdim A) = (GrB_SUCCESS, Some C)"
      using m by (cases "auto_hyper env (vdim A)") (simp_all add: GB_new_empty_def)
    have "GB_selector env True op flipij A ithunk athunk =
            Inr \<lparr>sel_info = GrB_SUCCESS, sel_A = A, sel_C = Some C, sel_live = {}\<rparr>"
      unfolding eq using m False by (simp add: nw sel_return_def)
    then show ?thesis
      using False shape_of_helpers(2) [OF nw] entries_new_empty [OF nw]
      by (intro exI [of _ C]) simp
  qed
  show ?thesis using eq ok by blast
qed

theorem iso_fast_path_witness:
  "GB_selector example_env_sel True (op_VALUELE 14) False example_iso 0 0 =
     Inr (sel_return (GB_shallow_copy example_env_sel example_iso) example_iso)
   \<and> GB_selector example_env_sel True (op_VALUELE 4) False example_iso 0 0 =
     Inr (sel_return (GB_new_empty example_env_sel (mtype example_iso) (vlen example_iso)
                        (vdim example_iso)) example_iso)"
proof -
  have i: "iso example_iso" and x: "arr (Mx example_iso) \<noteq> []"
    and x0: "arr (Mx example_iso) ! 0 = 10"
    by (simp_all add: example_iso_def example_hyper_def example_sparse_def arr_def)
  have v1: "opcode_is_value (opcode (op_VALUELE 14))"
    and v2: "opcode_is_value (opcode (op_VALUELE 4))"
    by (simp_all add: op_VALUELE_def opcode_is_value_def)
  have m: "mem example_env_sel Alloc_selector_bitmap" by (simp add: example_env_sel_def)
  have t1: "test (op_VALUELE 14) 0 0 (arr (Mx example_iso) ! 0)"
    and t2: "\<not> test (op_VALUELE 4) 0 0 (arr (Mx example_iso) ! 0)"
    unfolding x0 by (simp_all add: op_VALUELE_def)
  from iso_fast_path [OF i v1 x, of example_env_sel False 0 0, THEN conjunct1] m t1
  have a: "GB_selector example_env_sel True (op_VALUELE 14) False example_iso 0 0 =
     Inr (sel_return (GB_shallow_copy example_env_sel example_iso) example_iso)"
    by simp
  from iso_fast_path [OF i v2 x, of example_env_sel False 0 0, THEN conjunct1] m t2
  have b: "GB_selector example_env_sel True (op_VALUELE 4) False example_iso 0 0 =
     Inr (sel_return (GB_new_empty example_env_sel (mtype example_iso) (vlen example_iso)
                        (vdim example_iso)) example_iso)"
    by simp
  show ?thesis using a b by (rule conjI)
qed


subsection \<open>The bitmap path\<close>

text \<open>
  C8, as stated, fails. The as-if-full sparse matrix \<open>example_dense\<close> with the \<open>DIAG\<close>
  operator (which is not the zombie test), not in place, is not handed to the bitmap
  selector: the selector takes the sparse path and the output is sparse, not bitmap.
\<close>

theorem bitmap_path_counterexample:
  "GB_as_if_full example_dense
   \<and> opcode (op_DIAG 0) \<noteq> GB_NONZOMBIE_idxunop_code
   \<and> \<not> use_selector_bitmap (opcode (op_DIAG 0)) False example_dense
   \<and> (case GB_selector example_env_sel True (op_DIAG 0) False example_dense 0 0 of
         Inl e \<Rightarrow> False
       | Inr r \<Rightarrow> sel_info r = GrB_SUCCESS
                  \<and> (case sel_C r of
                        None \<Rightarrow> False
                      | Some C \<Rightarrow> \<not> GB_IS_BITMAP C \<and> Mp C = Some [0, 1, 2]
                                  \<and> entries C = [(0, 0, 1), (1, 1, 4)]))"
proof -
  have a: "GB_as_if_full example_dense"
    by (simp add: GB_as_if_full_def example_dense_def GB_IS_BITMAP_def GB_nnz_def)
  have b: "opcode (op_DIAG 0) \<noteq> GB_NONZOMBIE_idxunop_code"
    by (simp add: op_DIAG_def)
  have c: "\<not> use_selector_bitmap (opcode (op_DIAG 0)) False example_dense"
    by (simp add: use_selector_bitmap_def op_DIAG_def example_dense_def GB_IS_BITMAP_def)
  have d: "case GB_selector example_env_sel True (op_DIAG 0) False example_dense 0 0 of
         Inl e \<Rightarrow> False
       | Inr r \<Rightarrow> sel_info r = GrB_SUCCESS
                  \<and> (case sel_C r of
                        None \<Rightarrow> False
                      | Some C \<Rightarrow> \<not> GB_IS_BITMAP C \<and> Mp C = Some [0, 1, 2]
                                  \<and> entries C = [(0, 0, 1), (1, 1, 4)])"
    by code_simp
  show ?thesis using a b c d by blast
qed

text \<open>
  C8, amended. Take a matrix \<open>A\<close> that is bitmap or as-if-full, an operator that is not
  the zombie test and a request that is not in place, on a call that passes the assertion
  at the head of the selector (a positional operator is not given a jumbled matrix). Then
  the selector takes one of three paths. (a) Unless \<open>A\<close> is iso and the operator is one
  of the value comparisons \<open>VALUENE\<close> to \<open>VALUELE\<close>, and unless the operator is
  \<open>DIAG\<close> and \<open>A\<close> is not bitmap, the matrix is handed to the bitmap selector, which
  evaluates the operator over the occupancy array, and the output it allocates is in
  bitmap form with the dimensions and the type of \<open>A\<close>. (b) For the \<open>DIAG\<close> operator
  and a matrix that is not bitmap the selector takes the general two-phase path of the
  sparse case instead, and the output of a call that returns one is not bitmap: it has
  vector pointers, and the dimensions and the type of \<open>A\<close>. (c) For an iso matrix and
  one of the value comparisons the selector takes the iso fast path instead.
\<close>

theorem bitmap_path_taken:
  assumes "GB_IS_BITMAP A \<or> GB_as_if_full A"
    and "opcode op \<noteq> GB_NONZOMBIE_idxunop_code"
    and "GB_OPCODE_IS_POSITIONAL (opcode op) \<longrightarrow> \<not> jumbled A"
  shows "(\<not> (iso A \<and> opcode_is_value (opcode op))
          \<and> (opcode op = GB_DIAG_idxunop_code \<longrightarrow> GB_IS_BITMAP A)
          \<longrightarrow> GB_selector env True op flipij A ithunk athunk =
                Inr (sel_return
                       (GB_selector_bitmap env (iso A \<or> opcode op = GB_VALUEEQ_idxunop_code)
                          op flipij A athunk) A)
              \<and> (\<forall>C. snd (GB_selector_bitmap env
                             (iso A \<or> opcode op = GB_VALUEEQ_idxunop_code)
                             op flipij A athunk) = Some C
                    \<longrightarrow> GB_IS_BITMAP C \<and> vlen C = vlen A \<and> vdim C = vdim A
                        \<and> mtype C = mtype A))
         \<and> (opcode op = GB_DIAG_idxunop_code \<and> \<not> GB_IS_BITMAP A
          \<longrightarrow> GB_selector env True op flipij A ithunk athunk =
                GB_select_general env True op flipij A athunk
                  (iso A \<or> opcode op = GB_VALUEEQ_idxunop_code)
              \<and> (\<forall>r C. GB_selector env True op flipij A ithunk athunk = Inr r
                        \<and> sel_C r = Some C
                    \<longrightarrow> \<not> GB_IS_BITMAP C \<and> Mp C \<noteq> None \<and> vlen C = vlen A
                        \<and> vdim C = vdim A \<and> mtype C = mtype A))
         \<and> (iso A \<and> opcode_is_value (opcode op)
          \<longrightarrow> GB_selector env True op flipij A ithunk athunk =
                GB_select_iso_value env True op A athunk)"
proof (intro conjI impI)
  assume a: "\<not> (iso A \<and> opcode_is_value (opcode op))
             \<and> (opcode op = GB_DIAG_idxunop_code \<longrightarrow> GB_IS_BITMAP A)"
  have u: "use_selector_bitmap (opcode op) (\<not> True) A"
    using assms(1,2) a by (auto simp: use_selector_bitmap_def)
  have np: "\<not> (GB_OPCODE_IS_POSITIONAL (opcode op) \<and> jumbled A)"
    using assms(3) by blast
  show "GB_selector env True op flipij A ithunk athunk =
           Inr (sel_return
                  (GB_selector_bitmap env (iso A \<or> opcode op = GB_VALUEEQ_idxunop_code)
                     op flipij A athunk) A)"
    using u np a by (auto simp: selector_cases)
  have "\<forall>C. snd (GB_selector_bitmap env ciso op flipij A athunk) = Some C
               \<longrightarrow> GB_IS_BITMAP C \<and> vlen C = vlen A \<and> vdim C = vdim A
                   \<and> mtype C = mtype A" for ciso
    by (cases "mem env Alloc_selector_bitmap")
       (auto simp: GB_selector_bitmap_def Let_def GB_IS_BITMAP_def)
  then show "\<forall>C. snd (GB_selector_bitmap env
                        (iso A \<or> opcode op = GB_VALUEEQ_idxunop_code)
                        op flipij A athunk) = Some C
               \<longrightarrow> GB_IS_BITMAP C \<and> vlen C = vlen A \<and> vdim C = vdim A
                   \<and> mtype C = mtype A" .
next
  assume d: "opcode op = GB_DIAG_idxunop_code \<and> \<not> GB_IS_BITMAP A"
  have h1: "\<not> (iso A \<and> opcode_is_value (opcode op))"
    using d by (simp add: opcode_is_value_def)
  have h2: "\<not> use_selector_bitmap (opcode op) (\<not> True) A"
    using d by (simp add: use_selector_bitmap_def)
  have h3: "\<not> is_column_opcode (opcode op)"
    using d by (simp add: is_column_opcode_def)
  have h5: "\<not> GB_IS_BITMAP A" using d by simp
  note path = selector_takes_general_path [OF h1 h2 h3 assms(3) h5,
      of env flipij ithunk athunk]
  show g: "GB_selector env True op flipij A ithunk athunk =
          GB_select_general env True op flipij A athunk
            (iso A \<or> opcode op = GB_VALUEEQ_idxunop_code)"
    by (rule path)
  show "\<forall>r C. GB_selector env True op flipij A ithunk athunk = Inr r \<and> sel_C r = Some C
          \<longrightarrow> \<not> GB_IS_BITMAP C \<and> Mp C \<noteq> None \<and> vlen C = vlen A
              \<and> vdim C = vdim A \<and> mtype C = mtype A"
  proof (intro allI impI)
    fix r C
    assume "GB_selector env True op flipij A ithunk athunk = Inr r \<and> sel_C r = Some C"
    then have r: "GB_select_general env True op flipij A athunk
                    (iso A \<or> opcode op = GB_VALUEEQ_idxunop_code) = Inr r"
      and c: "sel_C r = Some C"
      unfolding g by simp_all
    show "\<not> GB_IS_BITMAP C \<and> Mp C \<noteq> None \<and> vlen C = vlen A
              \<and> vdim C = vdim A \<and> mtype C = mtype A"
      by (rule select_general_form [OF r c])
  qed
next
  assume i: "iso A \<and> opcode_is_value (opcode op)"
  then have "\<not> GB_OPCODE_IS_POSITIONAL (opcode op)"
    by (cases "opcode op") (simp_all add: opcode_is_value_def GB_OPCODE_IS_POSITIONAL_def
        GB_IS_INDEXUNARYOP_CODE_POSITIONAL_def)
  then show "GB_selector env True op flipij A ithunk athunk =
               GB_select_iso_value env True op A athunk"
    using i by (auto simp: selector_cases)
qed

theorem bitmap_path_taken_witness:
  "(case GB_selector example_env_sel True (op_VALUELE 3) False example_bitmap 0 0 of
      Inl e \<Rightarrow> False
    | Inr r \<Rightarrow> (case sel_C r of
                  None \<Rightarrow> False
                | Some C \<Rightarrow> GB_IS_BITMAP C \<and> Mb C = Some [1, 0, 1, 0] \<and> nvals C = 2))
   \<and> (\<exists>r C. GB_selector example_env_sel True (op_DIAG 0) False example_dense 0 0 = Inr r
           \<and> sel_C r = Some C \<and> \<not> GB_IS_BITMAP C \<and> Mp C \<noteq> None)"
proof -
  let ?A = example_bitmap and ?op = "op_VALUELE 3"
  have h1: "GB_IS_BITMAP ?A \<or> GB_as_if_full ?A"
    by (simp add: GB_IS_BITMAP_def example_bitmap_def)
  have h2: "opcode ?op \<noteq> GB_NONZOMBIE_idxunop_code" by (simp add: op_VALUELE_def)
  have h3: "\<not> (iso ?A \<and> opcode_is_value (opcode ?op))
            \<and> (opcode ?op = GB_DIAG_idxunop_code \<longrightarrow> GB_IS_BITMAP ?A)"
    by (simp add: example_bitmap_def op_VALUELE_def)
  have h5: "GB_OPCODE_IS_POSITIONAL (opcode ?op) \<longrightarrow> \<not> jumbled ?A"
    by (simp add: example_bitmap_def)
  note t = bitmap_path_taken [OF h1 h2 h5, of example_env_sel False 0 0,
      THEN conjunct1, THEN mp, OF h3, THEN conjunct1]
  have ev: "case snd (GB_selector_bitmap example_env_sel
                        (iso ?A \<or> opcode ?op = GB_VALUEEQ_idxunop_code) ?op False ?A 0) of
              None \<Rightarrow> False
            | Some C \<Rightarrow> GB_IS_BITMAP C \<and> Mb C = Some [1, 0, 1, 0] \<and> nvals C = 2"
    by code_simp
  have a: "case GB_selector example_env_sel True ?op False ?A 0 0 of
      Inl e \<Rightarrow> False
    | Inr r \<Rightarrow> (case sel_C r of
                  None \<Rightarrow> False
                | Some C \<Rightarrow> GB_IS_BITMAP C \<and> Mb C = Some [1, 0, 1, 0] \<and> nvals C = 2)"
    unfolding t using ev by (simp add: sel_return_def)
  let ?D = example_dense and ?dg = "op_DIAG 0"
  have d1: "GB_IS_BITMAP ?D \<or> GB_as_if_full ?D"
    by (simp add: GB_as_if_full_def example_dense_def GB_IS_BITMAP_def GB_nnz_def)
  have d2: "opcode ?dg \<noteq> GB_NONZOMBIE_idxunop_code" by (simp add: op_DIAG_def)
  have d3: "GB_OPCODE_IS_POSITIONAL (opcode ?dg) \<longrightarrow> \<not> jumbled ?D"
    by (simp add: example_dense_def)
  have d4: "opcode ?dg = GB_DIAG_idxunop_code \<and> \<not> GB_IS_BITMAP ?D"
    by (simp add: op_DIAG_def example_dense_def GB_IS_BITMAP_def)
  note u = bitmap_path_taken [OF d1 d2 d3, of example_env_sel False 0 0,
      THEN conjunct2, THEN conjunct1, THEN mp, OF d4, THEN conjunct2]
  have ev2: "case GB_selector example_env_sel True ?dg False ?D 0 0 of
               Inl e \<Rightarrow> False
             | Inr r \<Rightarrow> (case sel_C r of None \<Rightarrow> False | Some C \<Rightarrow> True)"
    by code_simp
  obtain r where r: "GB_selector example_env_sel True ?dg False ?D 0 0 = Inr r"
    and "case sel_C r of None \<Rightarrow> False | Some C \<Rightarrow> True"
    using ev2 by (cases "GB_selector example_env_sel True ?dg False ?D 0 0") simp_all
  then obtain C where c: "sel_C r = Some C" by (cases "sel_C r") simp_all
  have "\<not> GB_IS_BITMAP C \<and> Mp C \<noteq> None" using u r c by blast
  then have b: "\<exists>r C. GB_selector example_env_sel True ?dg False ?D 0 0 = Inr r
           \<and> sel_C r = Some C \<and> \<not> GB_IS_BITMAP C \<and> Mp C \<noteq> None"
    using r c by blast
  show ?thesis using a b by (rule conjI)
qed


subsection \<open>Bulk copies and the loops of the column selector\<close>

declare copy_shift_loop.simps [simp del]
declare fill_loop.simps [simp del]
declare GB_TRIM_BINARY_SEARCH.simps [simp del]

lemma GB_memcpy_ok:
  assumes "0 \<le> n" "0 \<le> doff" "0 \<le> soff" "doff + n \<le> int (length dst)"
    "soff + n \<le> int (length src)"
  shows "GB_memcpy dst doff src soff n =
           Inr (take (nat doff) dst @ take (nat n) (drop (nat soff) src)
                @ drop (nat (doff + n)) dst)"
  using assms by (simp add: GB_memcpy_def)

lemma GB_memset_ok:
  assumes "0 \<le> n" "n \<le> int (length dst)"
  shows "GB_memset dst v n = Inr (replicate (nat n) v @ drop (nat n) dst)"
  using assms by (simp add: GB_memset_def)

lemma copy_shift_loop_ok:
  assumes "0 \<le> a" "a \<le> b + 1" "b < int (length Cp)" "0 \<le> a + d"
    "b + d < int (length Ap)"
  shows "copy_shift_loop Cp Ap a b d c =
           Inr (take (nat a) Cp
                @ map (\<lambda>v. v - c) (take (nat (b + 1 - a)) (drop (nat (a + d)) Ap))
                @ drop (nat (b + 1)) Cp)"
  using assms
proof (induction Cp Ap a b d c rule: copy_shift_loop.induct)
  case (1 Cp Ap kk b d c)
  show ?case
  proof (cases "kk \<le> b")
    case False
    then have "kk = b + 1" using "1.prems" by simp
    then show ?thesis using "1.prems" by (subst copy_shift_loop.simps) (simp del: copy_shift_loop.simps)
  next
    case True
    let ?v = "Ap ! nat (kk + d)"
    let ?Cp = "Cp[nat kk := ?v - c]"
    have rdv: "rd Ap (kk + d) = Inr ?v"
      using "1.prems" True by (simp add: rd_def)
    have inr: "0 \<le> kk \<and> kk < int (length Cp)" using "1.prems" True by simp
    have IH: "copy_shift_loop ?Cp Ap (kk + 1) b d c =
           Inr (take (nat (kk + 1)) ?Cp
                @ map (\<lambda>v. v - c) (take (nat (b + 1 - (kk + 1))) (drop (nat (kk + 1 + d)) Ap))
                @ drop (nat (b + 1)) ?Cp)"
      using "1.prems" True by (intro "1.IH" [OF True inr]) simp_all
    have t1: "take (nat (kk + 1)) ?Cp = take (nat kk) Cp @ [?v - c]"
    proof -
      have "nat (kk + 1) = Suc (nat kk)" using inr by arith
      moreover have "nat kk < length ?Cp" using inr by (simp add: nat_less_iff)
      ultimately show ?thesis by (simp add: take_Suc_conv_app_nth)
    qed
    have t2: "drop (nat (b + 1)) ?Cp = drop (nat (b + 1)) Cp"
      using True inr by simp
    have t3: "take (nat (b + 1 - kk)) (drop (nat (kk + d)) Ap)
                = ?v # take (nat (b + 1 - (kk + 1))) (drop (nat (kk + 1 + d)) Ap)"
    proof -
      have l: "nat (kk + d) < length Ap" using "1.prems" True by simp
      have n1: "nat (b + 1 - kk) = Suc (nat (b + 1 - (kk + 1)))" using True by arith
      have n2: "nat (kk + 1 + d) = Suc (nat (kk + d))" using "1.prems" True by arith
      show ?thesis unfolding n1 n2 using Cons_nth_drop_Suc [OF l, symmetric] by simp
    qed
    show ?thesis
      by (subst copy_shift_loop.simps) (simp add: True rdv inr IH t1 t2 t3 bindE_def del: copy_shift_loop.simps)
  qed
qed

lemma fill_loop_ok:
  assumes "0 \<le> a" "a \<le> b + 1" "b < int (length Cp)"
  shows "fill_loop Cp a b v =
           Inr (take (nat a) Cp @ replicate (nat (b + 1 - a)) v @ drop (nat (b + 1)) Cp)"
  using assms
proof (induction Cp a b v rule: fill_loop.induct)
  case (1 Cp kk b v)
  show ?case
  proof (cases "kk \<le> b")
    case False
    then have "kk = b + 1" using "1.prems" by simp
    then show ?thesis using "1.prems" by (subst fill_loop.simps) (simp del: fill_loop.simps)
  next
    case True
    let ?Cp = "Cp[nat kk := v]"
    have inr: "0 \<le> kk \<and> kk < int (length Cp)" using "1.prems" True by simp
    have IH: "fill_loop ?Cp (kk + 1) b v =
           Inr (take (nat (kk + 1)) ?Cp @ replicate (nat (b + 1 - (kk + 1))) v
                @ drop (nat (b + 1)) ?Cp)"
      using "1.prems" True by (intro "1.IH" [OF True inr]) simp_all
    have t1: "take (nat (kk + 1)) ?Cp = take (nat kk) Cp @ [v]"
    proof -
      have "nat (kk + 1) = Suc (nat kk)" using inr by arith
      moreover have "nat kk < length ?Cp" using inr by (simp add: nat_less_iff)
      ultimately show ?thesis by (simp add: take_Suc_conv_app_nth)
    qed
    have t2: "drop (nat (b + 1)) ?Cp = drop (nat (b + 1)) Cp"
      using True inr by simp
    have n1: "nat (b + 1 - kk) = Suc (nat (b + 1 - (kk + 1)))" using True by arith
    show ?thesis
      by (subst fill_loop.simps) (simp add: True inr IH t1 t2 n1 replicate_app_Cons_same del: fill_loop.simps)
  qed
qed
subsection \<open>Reading ranges of vectors\<close>

lemma vec_entries_vent:
  "vec_entries M k = vent (arr (Mp M)) (Mh M) (arr (Mi M)) (arr (Mx M)) (iso M) k"
  by (simp add: vec_entries_def vent_def)

lemma entries_ents:
  "entries M = ents (arr (Mp M)) (Mh M) (arr (Mi M)) (arr (Mx M)) (iso M) 0 (nat (nvec M))"
  by (simp add: entries_def ents_def vec_entries_vent [abs_def])

lemma ents_same [simp]: "ents Cp Ch Ci Cx ci a a = []"
  by (simp add: ents_def)

lemma ents_split:
  assumes "a \<le> b" "b \<le> c"
  shows "ents Cp Ch Ci Cx ci a c = ents Cp Ch Ci Cx ci a b @ ents Cp Ch Ci Cx ci b c"
proof -
  have "[a ..< c] = [a ..< b] @ [b ..< c]"
    using assms upt_add_eq_append [of a b "c - b"] by simp
  then show ?thesis by (simp add: ents_def)
qed

lemma ents_Suc:
  assumes "a \<le> b"
  shows "ents Cp Ch Ci Cx ci a (Suc b) = ents Cp Ch Ci Cx ci a b @ vent Cp Ch Ci Cx ci b"
  using assms by (simp add: ents_def)

lemma upt_shift: "map (\<lambda>k. k + d) [a ..< b] = [a + d ..< b + d]"
  by (induction b) simp_all

lemma vent_shift:
  assumes cp: "Cp ! k = Ap ! k' - s" "Cp ! Suc k = Ap ! Suc k' - s"
    and s: "0 \<le> s" "s \<le> Ap ! k'"
    and h: "GBH Ch k = GBH Ah k'"
    and x: "\<And>p. nat (Ap ! k') \<le> p \<Longrightarrow> p < nat (Ap ! Suc k') \<Longrightarrow>
              Ci ! (p - nat s) = Ai ! p \<and> aval ci Cx (p - nat s) = aval ai Ax p"
  shows "vent Cp Ch Ci Cx ci k = vent Ap Ah Ai Ax ai k'"
proof -
  define x0 where "x0 = nat (Ap ! k')"
  define y0 where "y0 = nat (Ap ! Suc k')"
  define t where "t = nat s"
  have t: "t \<le> x0" using s by (simp add: t_def x0_def)
  have c1: "nat (Cp ! k) = x0 - t" using s cp(1) by (simp add: x0_def t_def nat_diff_distrib)
  have c2: "nat (Cp ! Suc k) = y0 - t"
    using s cp(2) by (cases "0 \<le> Ap ! Suc k'") (simp_all add: y0_def t_def nat_diff_distrib)
  have "map (\<lambda>p. (Ci ! p, GBH Ch k, aval ci Cx p)) [x0 - t ..< y0 - t]
          = map (\<lambda>p. (Ai ! p, GBH Ah k', aval ai Ax p)) [x0 ..< y0]"
  proof (rule nth_equalityI)
    show "length (map (\<lambda>p. (Ci ! p, GBH Ch k, aval ci Cx p)) [x0 - t ..< y0 - t])
            = length (map (\<lambda>p. (Ai ! p, GBH Ah k', aval ai Ax p)) [x0 ..< y0])"
      using t by simp
  next
    fix i assume "i < length (map (\<lambda>p. (Ci ! p, GBH Ch k, aval ci Cx p)) [x0 - t ..< y0 - t])"
    then have i: "i < y0 - x0" using t by simp
    have "x0 \<le> x0 + i" "x0 + i < y0" using i by simp_all
    from x [OF this [unfolded x0_def y0_def]]
    have "Ci ! (x0 + i - t) = Ai ! (x0 + i) \<and> aval ci Cx (x0 + i - t) = aval ai Ax (x0 + i)"
      by (simp add: x0_def t_def)
    moreover have "x0 - t + i = x0 + i - t" using t by simp
    ultimately show "map (\<lambda>p. (Ci ! p, GBH Ch k, aval ci Cx p)) [x0 - t ..< y0 - t] ! i
            = map (\<lambda>p. (Ai ! p, GBH Ah k', aval ai Ax p)) [x0 ..< y0] ! i"
      using i t h by simp
  qed
  then show ?thesis
    unfolding vent_def vec_positions_def c1 c2 x0_def [symmetric] y0_def [symmetric] .
qed

lemma ents_shift:
  assumes cp: "\<And>k. a \<le> k \<Longrightarrow> k \<le> b \<Longrightarrow> Cp ! k = Ap ! (k + d) - s"
    and h: "\<And>k. a \<le> k \<Longrightarrow> k < b \<Longrightarrow> GBH Ch k = GBH Ah (k + d)"
    and s: "0 \<le> s" "\<And>k. a \<le> k \<Longrightarrow> k < b \<Longrightarrow> s \<le> Ap ! (k + d)"
    and x: "\<And>k p. a \<le> k \<Longrightarrow> k < b \<Longrightarrow> nat (Ap ! (k + d)) \<le> p
              \<Longrightarrow> p < nat (Ap ! Suc (k + d))
              \<Longrightarrow> Ci ! (p - nat s) = Ai ! p \<and> aval ci Cx (p - nat s) = aval ai Ax p"
  shows "ents Cp Ch Ci Cx ci a b = ents Ap Ah Ai Ax ai (a + d) (b + d)"
proof -
  have "map (vent Cp Ch Ci Cx ci) [a ..< b] = map (\<lambda>k. vent Ap Ah Ai Ax ai (k + d)) [a ..< b]"
  proof (rule map_cong [OF refl])
    fix k assume "k \<in> set [a ..< b]"
    then have k: "a \<le> k" "k < b" by simp_all
    show "vent Cp Ch Ci Cx ci k = vent Ap Ah Ai Ax ai (k + d)"
    proof (rule vent_shift)
      show "Cp ! k = Ap ! (k + d) - s" using cp [of k] k by simp
      show "Cp ! Suc k = Ap ! Suc (k + d) - s" using cp [of "Suc k"] k by simp
      show "0 \<le> s" by (rule s(1))
      show "s \<le> Ap ! (k + d)" by (rule s(2) [OF k])
      show "GBH Ch k = GBH Ah (k + d)" by (rule h [OF k])
      show "\<And>p. nat (Ap ! (k + d)) \<le> p \<Longrightarrow> p < nat (Ap ! Suc (k + d)) \<Longrightarrow>
              Ci ! (p - nat s) = Ai ! p \<and> aval ci Cx (p - nat s) = aval ai Ax p"
        by (rule x [OF k])
    qed
  qed
  also have "\<dots> = map (vent Ap Ah Ai Ax ai) (map (\<lambda>k. k + d) [a ..< b])"
    by (simp add: comp_def)
  finally show ?thesis by (simp add: ents_def upt_shift)
qed

lemma ents_empty:
  assumes "\<And>k. a \<le> k \<Longrightarrow> k < b \<Longrightarrow> Cp ! Suc k \<le> Cp ! k"
  shows "ents Cp Ch Ci Cx ci a b = []"
proof -
  have "vent Cp Ch Ci Cx ci k = []" if "k \<in> set [a ..< b]" for k
    using assms [of k] that by (simp add: vent_def vec_positions_def nat_mono)
  then show ?thesis by (simp add: ents_def)
qed

lemma length_vent: "length (vent Cp Ch Ci Cx ci k) = nat (Cp ! Suc k) - nat (Cp ! k)"
  by (simp add: vent_def vec_positions_def)

lemma length_ents:
  assumes "a \<le> b" "0 \<le> Cp ! a" "\<And>k. a \<le> k \<Longrightarrow> k < b \<Longrightarrow> Cp ! k \<le> Cp ! Suc k"
  shows "int (length (ents Cp Ch Ci Cx ci a b)) = Cp ! b - Cp ! a \<and> Cp ! a \<le> Cp ! b"
  using assms
proof (induction b)
  case 0
  then show ?case by simp
next
  case (Suc b)
  show ?case
  proof (cases "a = Suc b")
    case True
    then show ?thesis by simp
  next
    case False
    then have ab: "a \<le> b" using Suc.prems(1) by simp
    have IH: "int (length (ents Cp Ch Ci Cx ci a b)) = Cp ! b - Cp ! a \<and> Cp ! a \<le> Cp ! b"
      using Suc.prems ab by (intro Suc.IH) simp_all
    have st: "Cp ! b \<le> Cp ! Suc b" using Suc.prems(3) [of b] ab by simp
    have "int (length (vent Cp Ch Ci Cx ci b)) = Cp ! Suc b - Cp ! b"
      using st IH Suc.prems(2) by (simp add: length_vent)
    then show ?thesis using IH st by (simp add: ents_Suc [OF ab])
  qed
qed

lemma vent_columns:
  "e \<in> set (vent Cp Ch Ci Cx ci k) \<Longrightarrow> fst (snd e) = GBH Ch k"
  by (auto simp: vent_def)

lemma ents_columns:
  assumes "e \<in> set (ents Cp Ch Ci Cx ci a b)"
  shows "\<exists>k. a \<le> k \<and> k < b \<and> fst (snd e) = GBH Ch k"
  using assms by (auto simp: ents_def dest: vent_columns)

lemma filter_ents_all:
  assumes "\<And>k. a \<le> k \<Longrightarrow> k < b \<Longrightarrow> Q (GBH Ch k)"
  shows "filter (\<lambda>(i, c, x). Q c) (ents Cp Ch Ci Cx ci a b) = ents Cp Ch Ci Cx ci a b"
proof (rule filter_all)
  fix e assume "e \<in> set (ents Cp Ch Ci Cx ci a b)"
  from ents_columns [OF this] assms show "case e of (i, c, x) \<Rightarrow> Q c"
    by (auto simp: split_beta)
qed

lemma filter_ents_none:
  assumes "\<And>k. a \<le> k \<Longrightarrow> k < b \<Longrightarrow> \<not> Q (GBH Ch k)"
  shows "filter (\<lambda>(i, c, x). Q c) (ents Cp Ch Ci Cx ci a b) = []"
proof (rule filter_none)
  fix e assume "e \<in> set (ents Cp Ch Ci Cx ci a b)"
  from ents_columns [OF this] assms show "\<not> (case e of (i, c, x) \<Rightarrow> Q c)"
    by (auto simp: split_beta)
qed
subsection \<open>The binary search of the hyperlist\<close>

lemma trim_search_ok:
  assumes "\<forall>a b. a < b \<and> b < n \<longrightarrow> X ! a < X ! b" "n \<le> length X"
    "0 \<le> pl" "pl \<le> pr" "pr < int n"
    "\<forall>m. m < nat pl \<longrightarrow> X ! m < i" "\<forall>m. nat pr < m \<and> m < n \<longrightarrow> i < X ! m"
  shows "\<exists>p. GB_TRIM_BINARY_SEARCH i X pl pr = Inr (p, p) \<and> 0 \<le> p \<and> p < int n
              \<and> (\<forall>m. m < nat p \<longrightarrow> X ! m < i) \<and> (\<forall>m. nat p < m \<and> m < n \<longrightarrow> i < X ! m)"
  using assms
proof (induction i X pl pr rule: GB_TRIM_BINARY_SEARCH.induct)
  case (1 i X pleft pright)
  note srt = "1.prems"(1)
  show ?case
  proof (cases "pleft < pright")
    case False
    then have eq: "pleft = pright" using "1.prems" by simp
    have "GB_TRIM_BINARY_SEARCH i X pleft pright = Inr (pleft, pleft)"
      using eq by (subst GB_TRIM_BINARY_SEARCH.simps) (simp del: GB_TRIM_BINARY_SEARCH.simps)
    then show ?thesis using "1.prems" eq by (intro exI [of _ pleft]) simp
  next
    case True
    define pm where "pm = (pleft + pright) div 2"
    have pmb: "pleft \<le> pm" "pm < pright" using True unfolding pm_def by arith+
    have pm0: "0 \<le> pm" "nat pm < n" "pm < int (length X)"
      using pmb "1.prems" by arith+
    have rdv: "rd X pm = Inr (X ! nat pm)" using pm0 by (simp add: rd_def)
    show ?thesis
    proof (cases "X ! nat pm < i")
      case lt: True
      have un: "GB_TRIM_BINARY_SEARCH i X pleft pright = GB_TRIM_BINARY_SEARCH i X (pm + 1) pright"
        using True lt rdv
        by (subst GB_TRIM_BINARY_SEARCH.simps)
           (simp add: Let_def pm_def [symmetric] del: GB_TRIM_BINARY_SEARCH.simps)
      have low: "\<forall>m. m < nat (pm + 1) \<longrightarrow> X ! m < i"
      proof (intro allI impI)
        fix m assume m: "m < nat (pm + 1)"
        show "X ! m < i"
        proof (cases "m = nat pm")
          case True
          then show ?thesis using lt by simp
        next
          case False
          then have "m < nat pm" using m pm0 by arith
          then have "X ! m < X ! nat pm" using srt pm0 by blast
          then show ?thesis using lt by simp
        qed
      qed
      have "\<exists>p. GB_TRIM_BINARY_SEARCH i X (pm + 1) pright = Inr (p, p) \<and> 0 \<le> p \<and> p < int n
              \<and> (\<forall>m. m < nat p \<longrightarrow> X ! m < i) \<and> (\<forall>m. nat p < m \<and> m < n \<longrightarrow> i < X ! m)"
      proof (rule "1.IH"(1) [OF True pm_def lt])
        show "\<forall>a b. a < b \<and> b < n \<longrightarrow> X ! a < X ! b" by (rule srt)
        show "n \<le> length X" by (rule "1.prems"(2))
        show "0 \<le> pm + 1" using pm0 by simp
        show "pm + 1 \<le> pright" using pmb by simp
        show "pright < int n" by (rule "1.prems"(5))
        show "\<forall>m. m < nat (pm + 1) \<longrightarrow> X ! m < i" by (rule low)
        show "\<forall>m. nat pright < m \<and> m < n \<longrightarrow> i < X ! m" by (rule "1.prems"(7))
      qed
      then show ?thesis unfolding un .
    next
      case ge: False
      have un: "GB_TRIM_BINARY_SEARCH i X pleft pright = GB_TRIM_BINARY_SEARCH i X pleft pm"
        using True ge rdv
        by (subst GB_TRIM_BINARY_SEARCH.simps)
           (simp add: Let_def pm_def [symmetric] del: GB_TRIM_BINARY_SEARCH.simps)
      have high: "\<forall>m. nat pm < m \<and> m < n \<longrightarrow> i < X ! m"
      proof (intro allI impI)
        fix m assume m: "nat pm < m \<and> m < n"
        then have "X ! nat pm < X ! m" using srt by blast
        then show "i < X ! m" using ge by simp
      qed
      have "\<exists>p. GB_TRIM_BINARY_SEARCH i X pleft pm = Inr (p, p) \<and> 0 \<le> p \<and> p < int n
              \<and> (\<forall>m. m < nat p \<longrightarrow> X ! m < i) \<and> (\<forall>m. nat p < m \<and> m < n \<longrightarrow> i < X ! m)"
      proof (rule "1.IH"(2) [OF True pm_def ge])
        show "\<forall>a b. a < b \<and> b < n \<longrightarrow> X ! a < X ! b" by (rule srt)
        show "n \<le> length X" by (rule "1.prems"(2))
        show "0 \<le> pleft" by (rule "1.prems"(3))
        show "pleft \<le> pm" by (rule pmb(1))
        show "pm < int n" using pm0 by simp
        show "\<forall>m. m < nat pleft \<longrightarrow> X ! m < i" by (rule "1.prems"(6))
        show "\<forall>m. nat pm < m \<and> m < n \<longrightarrow> i < X ! m" by (rule high)
      qed
      then show ?thesis unfolding un .
    qed
  qed
qed

text \<open>
  The result that the selector states at lines 324 and 325: if \<open>found\<close> then
  \<open>Ah [k] = j\<close>; every item before \<open>k\<close> is less than \<open>j\<close> and every item from
  \<open>k\<close> on (after \<open>k\<close>, if found) is greater.
\<close>

lemma split_search_ok:
  assumes srt: "\<forall>a b. a < b \<and> b < n \<longrightarrow> X ! a < X ! b" and len: "n \<le> length X"
  shows "\<exists>k found. GB_SPLIT_BINARY_SEARCH i X 0 (int n - 1) = Inr (k, found)
            \<and> 0 \<le> k \<and> k \<le> int n \<and> (found \<longrightarrow> k < int n \<and> X ! nat k = i)
            \<and> (\<forall>m. m < nat k \<longrightarrow> X ! m < i)
            \<and> (\<forall>m. nat k + (if found then 1 else 0) \<le> m \<and> m < n \<longrightarrow> i < X ! m)"
proof (cases "n = 0")
  case True
  have "GB_TRIM_BINARY_SEARCH i X 0 (- 1) = Inr (0, - 1)"
    by (subst GB_TRIM_BINARY_SEARCH.simps) (simp del: GB_TRIM_BINARY_SEARCH.simps)
  then have "GB_SPLIT_BINARY_SEARCH i X 0 (int n - 1) = Inr (0, False)"
    using True by (simp add: GB_SPLIT_BINARY_SEARCH_def)
  then show ?thesis using True by (intro exI [of _ 0] exI [of _ False]) simp
next
  case False
  have "\<exists>p. GB_TRIM_BINARY_SEARCH i X 0 (int n - 1) = Inr (p, p) \<and> 0 \<le> p \<and> p < int n
              \<and> (\<forall>m. m < nat p \<longrightarrow> X ! m < i) \<and> (\<forall>m. nat p < m \<and> m < n \<longrightarrow> i < X ! m)"
    using False by (intro trim_search_ok [OF srt len]) auto
  then obtain p where tr: "GB_TRIM_BINARY_SEARCH i X 0 (int n - 1) = Inr (p, p)"
    and p: "0 \<le> p" "p < int n"
    and lo: "\<forall>m. m < nat p \<longrightarrow> X ! m < i" and hi: "\<forall>m. nat p < m \<and> m < n \<longrightarrow> i < X ! m"
    by blast
  have rdp: "rd X p = Inr (X ! nat p)" using p len by (simp add: rd_def)
  consider (eq) "X ! nat p = i" | (lt) "X ! nat p < i" | (gt) "i < X ! nat p" by linarith
  then show ?thesis
  proof cases
    case eq
    have r: "GB_SPLIT_BINARY_SEARCH i X 0 (int n - 1) = Inr (p, True)"
      using eq by (simp add: GB_SPLIT_BINARY_SEARCH_def tr rdp)
    have "\<forall>m. nat p + 1 \<le> m \<and> m < n \<longrightarrow> i < X ! m" using hi by auto
    then show ?thesis using r p eq lo by (intro exI [of _ p] exI [of _ True]) simp
  next
    case lt
    have r: "GB_SPLIT_BINARY_SEARCH i X 0 (int n - 1) = Inr (p + 1, False)"
      using lt by (simp add: GB_SPLIT_BINARY_SEARCH_def tr rdp)
    have n1: "nat (p + 1) = Suc (nat p)" using p by arith
    have l: "\<forall>m. m < nat (p + 1) \<longrightarrow> X ! m < i"
    proof (intro allI impI)
      fix m assume "m < nat (p + 1)"
      then have "m < nat p \<or> m = nat p" unfolding n1 by arith
      then show "X ! m < i" using lo lt by auto
    qed
    have h: "\<forall>m. nat (p + 1) \<le> m \<and> m < n \<longrightarrow> i < X ! m" unfolding n1 using hi by auto
    show ?thesis using r p l h by (intro exI [of _ "p + 1"] exI [of _ False]) simp
  next
    case gt
    have r: "GB_SPLIT_BINARY_SEARCH i X 0 (int n - 1) = Inr (p, False)"
      using gt by (simp add: GB_SPLIT_BINARY_SEARCH_def tr rdp)
    have h: "\<forall>m. nat p \<le> m \<and> m < n \<longrightarrow> i < X ! m"
    proof (intro allI impI)
      fix m assume m: "nat p \<le> m \<and> m < n"
      then have "m = nat p \<or> nat p < m" by arith
      then show "i < X ! m" using hi gt m by auto
    qed
    show ?thesis using r p lo h by (intro exI [of _ p] exI [of _ False]) simp
  qed
qed
subsection \<open>The lookup of the column and the counts\<close>

lemma entries_range: "entries M = range_entries M 0 (nat (nvec M))"
  by (simp add: range_entries_def entries_ents)

lemma range_entries_split:
  "a \<le> b \<Longrightarrow> b \<le> c \<Longrightarrow> range_entries M a c = range_entries M a b @ range_entries M b c"
  unfolding range_entries_def by (rule ents_split)

lemma length_range_entries:
  assumes "sparse_ok A" "a \<le> b" "b \<le> nat (nvec A)"
  shows "int (length (range_entries A a b)) = arr (Mp A) ! b - arr (Mp A) ! a"
proof -
  have "int (length (ents (arr (Mp A)) (Mh A) (arr (Mi A)) (arr (Mx A)) (iso A) a b))
          = arr (Mp A) ! b - arr (Mp A) ! a \<and> arr (Mp A) ! a \<le> arr (Mp A) ! b"
  proof (rule length_ents [OF assms(2)])
    show "0 \<le> arr (Mp A) ! a" using Ap_nonneg [OF assms(1), of a] assms(2,3) by simp
    show "\<And>k. a \<le> k \<Longrightarrow> k < b \<Longrightarrow> arr (Mp A) ! k \<le> arr (Mp A) ! Suc k"
      using Ap_mono [OF assms(1)] assms(3) by simp
  qed
  then show ?thesis by (simp add: range_entries_def)
qed

lemma sparse_ok_hyper:
  assumes "sparse_ok A" "Mh A = Some Ah"
  shows "nat (nvec A) \<le> length Ah"
    and "\<forall>a b. a < b \<and> b < nat (nvec A) \<longrightarrow> Ah ! a < Ah ! b"
    and "\<forall>m. m < nat (nvec A) \<longrightarrow> 0 \<le> Ah ! m \<and> Ah ! m < vdim A"
proof -
  let ?n = "nat (nvec A)"
  have le: "?n \<le> length Ah" and s: "sorted_wrt (<) (take ?n Ah)"
    and la: "list_all (\<lambda>j. 0 \<le> j \<and> j < vdim A) (take ?n Ah)"
    using assms by (simp_all add: sparse_ok_def Let_def)
  show "?n \<le> length Ah" by (rule le)
  show "\<forall>a b. a < b \<and> b < ?n \<longrightarrow> Ah ! a < Ah ! b"
  proof (intro allI impI)
    fix a b assume ab: "a < b \<and> b < ?n"
    then have "a < b" "b < length (take ?n Ah)" using le by simp_all
    from sorted_wrt_nth_less [OF s this] have "take ?n Ah ! a < take ?n Ah ! b" .
    then show "Ah ! a < Ah ! b" using ab by simp
  qed
  show "\<forall>m. m < ?n \<longrightarrow> 0 \<le> Ah ! m \<and> Ah ! m < vdim A"
  proof (intro allI impI)
    fix m assume m: "m < ?n"
    then have "take ?n Ah ! m \<in> set (take ?n Ah)" using le by (intro nth_mem) simp
    then show "0 \<le> Ah ! m \<and> Ah ! m < vdim A" using la m by (auto simp: list_all_iff)
  qed
qed

lemma hyper_nvec_le_vdim:
  assumes "sparse_ok A"
  shows "nvec A \<le> vdim A"
proof (cases "Mh A")
  case None
  then show ?thesis using assms by (simp add: sparse_ok_def Let_def)
next
  case (Some Ah)
  note h = sparse_ok_hyper [OF assms Some]
  have ge: "m < nat (nvec A) \<Longrightarrow> int m \<le> Ah ! m" for m
  proof (induction m)
    case 0
    then show ?case using h(3) by simp
  next
    case (Suc m)
    then have "int m \<le> Ah ! m" by simp
    moreover have "Ah ! m < Ah ! Suc m" using h(2) Suc.prems by simp
    ultimately show ?case by simp
  qed
  show ?thesis
  proof (cases "nat (nvec A)")
    case 0
    then show ?thesis using assms by (simp add: sparse_ok_def Let_def)
  next
    case (Suc m)
    then have "int m \<le> Ah ! m" "Ah ! m < vdim A" using ge [of m] h(3) by simp_all
    then show ?thesis using Suc by simp
  qed
qed

text \<open>
  The lookup (lines 302 to 332) ends at a vector \<open>k\<close>: the vectors before \<open>k\<close> are the
  columns less than \<open>j\<close>, the vector \<open>k\<close> is the column \<open>j\<close> if it was found, and
  the vectors after it are the columns greater than \<open>j\<close>.
\<close>

lemma col_find_ok:
  assumes ok: "sparse_ok A"
  shows "\<exists>k found. col_find opc ithunk (vdim A) (nvec A) (Mh A) = Inr (int k, found)
     \<and> k + (if found then 1 else 0) \<le> nat (nvec A)
     \<and> (found \<longrightarrow> GBH (Mh A) k = col_thunk opc ithunk)
     \<and> (\<forall>m. m < k \<longrightarrow> GBH (Mh A) m < col_thunk opc ithunk)
     \<and> (\<forall>m. k + (if found then 1 else 0) \<le> m \<and> m < nat (nvec A)
            \<longrightarrow> col_thunk opc ithunk < GBH (Mh A) m)
     \<and> (Mh A = None \<and> 0 \<le> col_thunk opc ithunk \<and> col_thunk opc ithunk < vdim A
            \<longrightarrow> found)"
proof -
  define j where "j = col_thunk opc ithunk"
  define n where "n = nat (nvec A)"
  have nv: "0 \<le> nvec A" "nvec A = int n" using ok by (simp_all add: sparse_ok_def Let_def n_def)
  have cols: "m < n \<Longrightarrow> 0 \<le> GBH (Mh A) m \<and> GBH (Mh A) m < vdim A" for m
  proof (cases "Mh A")
    case None
    assume "m < n"
    moreover have "nvec A = vdim A" using ok None by (simp add: sparse_ok_def Let_def)
    ultimately show ?thesis using None nv by (simp add: GBH_def)
  next
    case (Some Ah)
    assume "m < n"
    then show ?thesis using sparse_ok_hyper(3) [OF ok Some] Some by (simp add: GBH_def n_def)
  qed
  consider (neg) "j < 0" | (big) "0 \<le> j" "vdim A \<le> j" | (mid) "0 \<le> j" "j < vdim A" by linarith
  then have "\<exists>k found. col_find opc ithunk (vdim A) (nvec A) (Mh A) = Inr (int k, found)
     \<and> k + (if found then 1 else 0) \<le> n
     \<and> (found \<longrightarrow> GBH (Mh A) k = j)
     \<and> (\<forall>m. m < k \<longrightarrow> GBH (Mh A) m < j)
     \<and> (\<forall>m. k + (if found then 1 else 0) \<le> m \<and> m < n \<longrightarrow> j < GBH (Mh A) m)
     \<and> (Mh A = None \<and> 0 \<le> j \<and> j < vdim A \<longrightarrow> found)"
  proof cases
    case neg
    have "col_find opc ithunk (vdim A) (nvec A) (Mh A) = Inr (int 0, False)"
      using neg by (simp add: col_find_def Let_def j_def col_thunk_def)
    moreover have "\<forall>m. 0 \<le> m \<and> m < n \<longrightarrow> j < GBH (Mh A) m"
      using cols neg by fastforce
    ultimately show ?thesis using neg by (intro exI [of _ 0] exI [of _ False]) simp
  next
    case big
    have "col_find opc ithunk (vdim A) (nvec A) (Mh A) = Inr (int n, False)"
      using big nv by (simp add: col_find_def Let_def j_def col_thunk_def)
    moreover have "\<forall>m. m < n \<longrightarrow> GBH (Mh A) m < j"
      using cols big by fastforce
    ultimately show ?thesis using big by (intro exI [of _ n] exI [of _ False]) simp
  next
    case mid
    show ?thesis
    proof (cases "Mh A")
      case None
      have vd: "vdim A = int n" using ok None nv by (simp add: sparse_ok_def Let_def)
      have "col_find opc ithunk (vdim A) (nvec A) (Mh A) = Inr (int (nat j), True)"
        using mid None by (simp add: col_find_def Let_def j_def col_thunk_def)
      moreover have "nat j + 1 \<le> n" using mid vd by simp
      moreover have "GBH (Mh A) (nat j) = j" using None mid by (simp add: GBH_def)
      moreover have "\<forall>m. m < nat j \<longrightarrow> GBH (Mh A) m < j"
      proof (intro allI impI)
        fix m assume "m < nat j"
        then have "int m < j" by arith
        then show "GBH (Mh A) m < j" using None by (simp add: GBH_def)
      qed
      moreover have "\<forall>m. nat j + 1 \<le> m \<and> m < n \<longrightarrow> j < GBH (Mh A) m"
      proof (intro allI impI)
        fix m assume "nat j + 1 \<le> m \<and> m < n"
        then have "j < int m" by arith
        then show "j < GBH (Mh A) m" using None by (simp add: GBH_def)
      qed
      ultimately show ?thesis by (intro exI [of _ "nat j"] exI [of _ True]) simp
    next
      case (Some Ah)
      note h = sparse_ok_hyper [OF ok Some, folded n_def]
      from split_search_ok [OF h(2) h(1), of j]
      obtain k found where r: "GB_SPLIT_BINARY_SEARCH j Ah 0 (int n - 1) = Inr (k, found)"
        and k: "0 \<le> k" "k \<le> int n" and f: "found \<longrightarrow> k < int n \<and> Ah ! nat k = j"
        and lo: "\<forall>m. m < nat k \<longrightarrow> Ah ! m < j"
        and hi: "\<forall>m. nat k + (if found then 1 else 0) \<le> m \<and> m < n \<longrightarrow> j < Ah ! m"
        by blast
      have "col_find opc ithunk (vdim A) (nvec A) (Mh A) = Inr (int (nat k), found)"
        using mid Some r k nv by (simp add: col_find_def Let_def j_def col_thunk_def)
      moreover have "nat k + (if found then 1 else 0) \<le> n" using k f by auto
      ultimately show ?thesis using f lo hi Some
        by (intro exI [of _ "nat k"] exI [of _ found]) (simp add: GBH_def)
    qed
  qed
  then show ?thesis unfolding j_def n_def .
qed

text \<open>The counts of lines 338 to 361, from the vector-start offsets.\<close>

lemma col_counts_ok:
  assumes ok: "sparse_ok A" and kc: "k + (if found then 1 else 0) \<le> nat (nvec A)"
  shows "col_counts opc hyp (arr (Mp A)) (nvec A) (int k) found =
           (let Ap = arr (Mp A); pstart = Ap ! k; pend = Ap ! (k + (if found then 1 else 0));
                anz = Ap ! nat (nvec A)
            in Inr (pstart, pend, pend - pstart, anz,
                    if opc = GB_COLINDEX_idxunop_code then anz - (pend - pstart)
                    else if opc = GB_COLLE_idxunop_code then pend else anz - pend,
                    if opc = GB_COLINDEX_idxunop_code
                    then (if hyp \<and> found then nvec A - 1 else nvec A)
                    else if opc = GB_COLLE_idxunop_code
                    then (if hyp then int k + (if found then 1 else 0) else nvec A)
                    else nvec A - (if hyp then int k + (if found then 1 else 0) else 0)))"
proof -
  let ?Ap = "arr (Mp A)" and ?n = "nat (nvec A)"
  have l: "?n < length ?Ap" and nv: "0 \<le> nvec A" using ok by (simp_all add: sparse_ok_def Let_def)
  have r1: "rd ?Ap (int k) = Inr (?Ap ! k)" using kc l by (simp add: rd_def)
  have r2: "found \<Longrightarrow> rd ?Ap (int k + 1) = Inr (?Ap ! (k + 1))"
    using kc l by (simp add: rd_def nat_add_distrib)
  have r3: "rd ?Ap (nvec A) = Inr (?Ap ! ?n)" using l nv by (simp add: rd_def)
  show ?thesis
    by (cases found) (simp_all add: col_counts_def Let_def r1 r2 r3)
qed

text \<open>The entries in the columns that the operator keeps are those of the kept vectors.\<close>

lemma filter_col_kept:
  assumes ok: "sparse_ok A" and opc: "is_column_opcode opc"
    and kc: "kc = k + (if found then 1 else 0)" "kc \<le> nat (nvec A)"
    and f: "found \<longrightarrow> GBH (Mh A) k = j"
    and lo: "\<forall>m. m < k \<longrightarrow> GBH (Mh A) m < j"
    and hi: "\<forall>m. kc \<le> m \<and> m < nat (nvec A) \<longrightarrow> j < GBH (Mh A) m"
  shows "filter (\<lambda>(i, c, x). col_keeps opc j c) (entries A) = col_kept opc A k kc"
proof -
  let ?n = "nat (nvec A)"
  let ?P = "\<lambda>(i, c, x). col_keeps opc j c"
  have kk: "k \<le> kc" using kc by simp
  have sp: "entries A = range_entries A 0 k @ range_entries A k kc @ range_entries A kc ?n"
    using range_entries_split [of 0 k ?n A] range_entries_split [of k kc ?n A] kk kc(2)
    by (simp add: entries_range)
  have mid: "\<And>m. k \<le> m \<Longrightarrow> m < kc \<Longrightarrow> GBH (Mh A) m = j"
    using kc(1) f by (cases found) (auto simp: less_Suc_eq_le)
  have f1: "filter ?P (range_entries A 0 k)
              = (if opc = GB_COLGT_idxunop_code then [] else range_entries A 0 k)"
    unfolding range_entries_def
    using lo opc
    by (auto simp: is_column_opcode_def col_keeps_def intro!: filter_ents_all filter_ents_none)
  have f2: "filter ?P (range_entries A k kc)
              = (if opc = GB_COLLE_idxunop_code then range_entries A k kc else [])"
    unfolding range_entries_def
    using mid opc
    by (auto simp: is_column_opcode_def col_keeps_def intro!: filter_ents_all filter_ents_none)
  have f3: "filter ?P (range_entries A kc ?n)
              = (if opc = GB_COLLE_idxunop_code then [] else range_entries A kc ?n)"
    unfolding range_entries_def
    using hi opc
    by (auto simp: is_column_opcode_def col_keeps_def intro!: filter_ents_all filter_ents_none)
  show ?thesis
    using opc range_entries_split [of 0 k kc A] kk
    by (auto simp: sp f1 f2 f3 col_kept_def is_column_opcode_def)
qed

lemma length_col_kept:
  assumes ok: "sparse_ok A" and opc: "is_column_opcode opc"
    and kc: "k \<le> kc" "kc \<le> nat (nvec A)"
  shows "int (length (col_kept opc A k kc)) =
           (let Ap = arr (Mp A); pstart = Ap ! k; pend = Ap ! kc; anz = Ap ! nat (nvec A)
            in if opc = GB_COLINDEX_idxunop_code then anz - (pend - pstart)
               else if opc = GB_COLLE_idxunop_code then pend else anz - pend)"
proof -
  have z: "arr (Mp A) ! 0 = 0" using ok by (simp add: sparse_ok_def Let_def)
  have l1: "int (length (range_entries A 0 k)) = arr (Mp A) ! k"
    using length_range_entries [OF ok, of 0 k] kc z by simp
  have l2: "int (length (range_entries A 0 kc)) = arr (Mp A) ! kc"
    using length_range_entries [OF ok, of 0 kc] kc z by simp
  have l3: "int (length (range_entries A kc (nat (nvec A))))
              = arr (Mp A) ! nat (nvec A) - arr (Mp A) ! kc"
    using length_range_entries [OF ok, of kc "nat (nvec A)"] kc by simp
  show ?thesis using l1 l2 l3 by (simp add: col_kept_def Let_def)
qed

lemma filter_same_length:
  assumes "length (filter P xs) = length xs"
  shows "filter P xs = xs"
proof -
  have "length (filter (\<lambda>x. \<not> P x) xs) = 0"
    using sum_length_filter_compl [of P xs] assms by simp
  then have "\<forall>x \<in> set xs. P x" by (simp add: filter_empty_conv)
  then show ?thesis by simp
qed
subsection \<open>The copies, cell by cell\<close>

lemma nth_patch:
  assumes "length mid = m" "d + m \<le> length dst"
  shows "length (take d dst @ mid @ drop (d + m) dst) = length dst"
    and "i < length dst \<Longrightarrow> (take d dst @ mid @ drop (d + m) dst) ! i
           = (if d \<le> i \<and> i < d + m then mid ! (i - d) else dst ! i)"
proof -
  show "length (take d dst @ mid @ drop (d + m) dst) = length dst"
    using assms by simp
  assume i: "i < length dst"
  have ld: "length (take d dst) = d" using assms(2) by (simp add: min_def)
  consider (lo) "i < d" | (mi) "d \<le> i" "i < d + m" | (hi) "d + m \<le> i" by linarith
  then show "(take d dst @ mid @ drop (d + m) dst) ! i
           = (if d \<le> i \<and> i < d + m then mid ! (i - d) else dst ! i)"
  proof cases
    case lo
    then have "i < length (take d dst)" unfolding ld .
    then have "(take d dst @ mid @ drop (d + m) dst) ! i = take d dst ! i"
      by (rule nth_append_left)
    then show ?thesis using lo by simp
  next
    case mi
    have "length (take d dst) \<le> i" unfolding ld by (rule mi(1))
    then have "(take d dst @ mid @ drop (d + m) dst) ! i
                 = (mid @ drop (d + m) dst) ! (i - length (take d dst))"
      by (rule nth_append_right)
    then have "(take d dst @ mid @ drop (d + m) dst) ! i
                 = (mid @ drop (d + m) dst) ! (i - d)"
      unfolding ld .
    moreover have "i - d < length mid" using mi assms(1) by arith
    ultimately have "(take d dst @ mid @ drop (d + m) dst) ! i = mid ! (i - d)"
      by (simp add: nth_append_left)
    then show ?thesis using mi by simp
  next
    case hi
    have "length (take d dst) \<le> i" unfolding ld using hi by arith
    then have "(take d dst @ mid @ drop (d + m) dst) ! i
                 = (mid @ drop (d + m) dst) ! (i - length (take d dst))"
      by (rule nth_append_right)
    then have "(take d dst @ mid @ drop (d + m) dst) ! i
                 = (mid @ drop (d + m) dst) ! (i - d)"
      unfolding ld .
    moreover have "length mid \<le> i - d" using hi assms(1) by arith
    ultimately have "(take d dst @ mid @ drop (d + m) dst) ! i
                 = drop (d + m) dst ! (i - d - length mid)"
      by (simp add: nth_append_right)
    moreover have "d + m + (i - d - length mid) = i" using hi assms(1) by arith
    ultimately have "(take d dst @ mid @ drop (d + m) dst) ! i = dst ! i"
      using assms(2) by simp
    then show ?thesis using hi by simp
  qed
qed

lemma GB_memcpy_nth:
  assumes "0 \<le> d" "0 \<le> s" "0 \<le> m" "d + m \<le> int (length dst)"
    "s + m \<le> int (length src)"
  shows "\<exists>R. GB_memcpy dst d src s m = Inr R \<and> length R = length dst
           \<and> (\<forall>i. i < length dst \<longrightarrow>
                  R ! i = (if d \<le> int i \<and> int i < d + m then src ! nat (s + (int i - d))
                           else dst ! i))"
proof -
  let ?mid = "take (nat m) (drop (nat s) src)"
  let ?R = "take (nat d) dst @ ?mid @ drop (nat d + nat m) dst"
  have lm: "length ?mid = nat m" using assms by simp
  have le: "nat d + nat m \<le> length dst" using assms by arith
  have "GB_memcpy dst d src s m
          = Inr (take (nat d) dst @ take (nat m) (drop (nat s) src) @ drop (nat (d + m)) dst)"
    using assms by (intro GB_memcpy_ok) simp_all
  moreover have "nat (d + m) = nat d + nat m" using assms by arith
  ultimately have r: "GB_memcpy dst d src s m = Inr ?R" by simp
  have "\<forall>i. i < length dst \<longrightarrow>
          ?R ! i = (if d \<le> int i \<and> int i < d + m then src ! nat (s + (int i - d))
                    else dst ! i)"
  proof (intro allI impI)
    fix i assume i: "i < length dst"
    have "?mid ! (i - nat d) = src ! nat (s + (int i - d))" if "d \<le> int i \<and> int i < d + m"
    proof -
      have 1: "i - nat d < nat m" using that assms by arith
      have 2: "nat s + (i - nat d) = nat (s + (int i - d))" using that assms by arith
      have "?mid ! (i - nat d) = src ! (nat s + (i - nat d))" using 1 assms by simp
      then show ?thesis unfolding 2 .
    qed
    moreover have "(nat d \<le> i \<and> i < nat d + nat m) = (d \<le> int i \<and> int i < d + m)"
      using assms by arith
    ultimately show "?R ! i = (if d \<le> int i \<and> int i < d + m
                               then src ! nat (s + (int i - d)) else dst ! i)"
      using nth_patch(2) [OF lm le i] by simp
  qed
  then show ?thesis using r nth_patch(1) [OF lm le] by blast
qed

lemma GB_memset_nth:
  assumes "0 \<le> m" "m \<le> int (length dst)"
  shows "\<exists>R. GB_memset dst v m = Inr R \<and> length R = length dst
           \<and> (\<forall>i. i < length dst \<longrightarrow> R ! i = (if int i < m then v else dst ! i))"
proof -
  let ?R = "replicate (nat m) v @ drop (nat m) dst"
  have r: "GB_memset dst v m = Inr ?R"
    using assms by (rule GB_memset_ok)
  have "length ?R = length dst" using assms by simp
  moreover have "\<forall>i. i < length dst \<longrightarrow> ?R ! i = (if int i < m then v else dst ! i)"
  proof (intro allI impI)
    fix i assume i: "i < length dst"
    show "?R ! i = (if int i < m then v else dst ! i)"
    proof (cases "int i < m")
      case True
      then have "i < nat m" by arith
      then show ?thesis using True by (simp add: nth_append)
    next
      case False
      then have "nat m \<le> i" by arith
      then have "nat m + (i - nat m) = i" by arith
      then show ?thesis using False \<open>nat m \<le> i\<close> assms by (simp add: nth_append)
    qed
  qed
  ultimately show ?thesis using r by blast
qed

lemma copy_shift_loop_nth:
  assumes "0 \<le> a" "a \<le> b + 1" "b < int (length Cp)" "0 \<le> a + d"
    "b + d < int (length Ap)"
  shows "\<exists>R. copy_shift_loop Cp Ap a b d c = Inr R \<and> length R = length Cp
           \<and> (\<forall>i. i < length Cp \<longrightarrow>
                  R ! i = (if a \<le> int i \<and> int i \<le> b then Ap ! nat (int i + d) - c
                           else Cp ! i))"
proof -
  let ?mid = "map (\<lambda>v. v - c) (take (nat (b + 1 - a)) (drop (nat (a + d)) Ap))"
  let ?R = "take (nat a) Cp @ ?mid @ drop (nat a + nat (b + 1 - a)) Cp"
  have lm: "length ?mid = nat (b + 1 - a)" using assms by simp
  have le: "nat a + nat (b + 1 - a) \<le> length Cp" using assms by arith
  have "copy_shift_loop Cp Ap a b d c
          = Inr (take (nat a) Cp
                 @ map (\<lambda>v. v - c) (take (nat (b + 1 - a)) (drop (nat (a + d)) Ap))
                 @ drop (nat (b + 1)) Cp)"
    using assms by (rule copy_shift_loop_ok)
  moreover have "nat (b + 1) = nat a + nat (b + 1 - a)" using assms by arith
  ultimately have r: "copy_shift_loop Cp Ap a b d c = Inr ?R" by simp
  have "\<forall>i. i < length Cp \<longrightarrow>
          ?R ! i = (if a \<le> int i \<and> int i \<le> b then Ap ! nat (int i + d) - c else Cp ! i)"
  proof (intro allI impI)
    fix i assume i: "i < length Cp"
    have "?mid ! (i - nat a) = Ap ! nat (int i + d) - c" if "a \<le> int i \<and> int i \<le> b"
    proof -
      have 1: "i - nat a < nat (b + 1 - a)" using that assms by arith
      have 2: "nat (a + d) + (i - nat a) = nat (int i + d)" using that assms by arith
      have 3: "i - nat a < length (take (nat (b + 1 - a)) (drop (nat (a + d)) Ap))"
        using 1 assms by simp
      have "?mid ! (i - nat a)
              = take (nat (b + 1 - a)) (drop (nat (a + d)) Ap) ! (i - nat a) - c"
        using 3 by (rule nth_map)
      also have "\<dots> = Ap ! (nat (a + d) + (i - nat a)) - c" using 1 assms by simp
      finally show ?thesis unfolding 2 .
    qed
    moreover have "(nat a \<le> i \<and> i < nat a + nat (b + 1 - a)) = (a \<le> int i \<and> int i \<le> b)"
      using assms by arith
    ultimately show "?R ! i = (if a \<le> int i \<and> int i \<le> b then Ap ! nat (int i + d) - c
                               else Cp ! i)"
      using nth_patch(2) [OF lm le i] by simp
  qed
  then show ?thesis using r nth_patch(1) [OF lm le] by blast
qed

lemma fill_loop_nth:
  assumes "0 \<le> a" "a \<le> b + 1" "b < int (length Cp)"
  shows "\<exists>R. fill_loop Cp a b v = Inr R \<and> length R = length Cp
           \<and> (\<forall>i. i < length Cp \<longrightarrow>
                  R ! i = (if a \<le> int i \<and> int i \<le> b then v else Cp ! i))"
proof -
  let ?mid = "replicate (nat (b + 1 - a)) v"
  let ?R = "take (nat a) Cp @ ?mid @ drop (nat a + nat (b + 1 - a)) Cp"
  have lm: "length ?mid = nat (b + 1 - a)" by simp
  have le: "nat a + nat (b + 1 - a) \<le> length Cp" using assms by arith
  have "fill_loop Cp a b v
          = Inr (take (nat a) Cp @ replicate (nat (b + 1 - a)) v @ drop (nat (b + 1)) Cp)"
    using assms by (rule fill_loop_ok)
  moreover have "nat (b + 1) = nat a + nat (b + 1 - a)" using assms by arith
  ultimately have r: "fill_loop Cp a b v = Inr ?R" by simp
  have "\<forall>i. i < length Cp \<longrightarrow>
          ?R ! i = (if a \<le> int i \<and> int i \<le> b then v else Cp ! i)"
  proof (intro allI impI)
    fix i assume i: "i < length Cp"
    have "?mid ! (i - nat a) = v" if "a \<le> int i \<and> int i \<le> b"
    proof -
      have "i - nat a < nat (b + 1 - a)" using that assms by arith
      then show ?thesis by (rule nth_replicate)
    qed
    moreover have "(nat a \<le> i \<and> i < nat a + nat (b + 1 - a)) = (a \<le> int i \<and> int i \<le> b)"
      using assms by arith
    ultimately show "?R ! i = (if a \<le> int i \<and> int i \<le> b then v else Cp ! i)"
      using nth_patch(2) [OF lm le i] by simp
  qed
  then show ?thesis using r nth_patch(1) [OF lm le] by blast
qed

text \<open>The copy of a range of row indices and, unless the matrix is iso, of values.\<close>

lemma copy_data:
  assumes "0 \<le> d" "0 \<le> s" "0 \<le> m"
    and "s + m \<le> int (length Ai)" "d + m \<le> int (length Ci0)"
    and "if ai then Cx0 \<noteq> [] \<and> Cx0 ! 0 = Ax ! 0
         else s + m \<le> int (length Ax) \<and> d + m \<le> int (length Cx0)"
  shows "\<exists>Ci Cx. GB_memcpy Ci0 d Ai s m = Inr Ci
           \<and> (if \<not> ai then GB_memcpy Cx0 d Ax s m else Inr Cx0) = Inr Cx
           \<and> length Ci = length Ci0 \<and> length Cx = length Cx0
           \<and> (\<forall>p. s \<le> int p \<and> int p < s + m \<longrightarrow>
                  Ci ! nat (int p - s + d) = Ai ! p
                  \<and> aval ai Cx (nat (int p - s + d)) = aval ai Ax p)
           \<and> (\<forall>q. int q < d \<longrightarrow> Ci ! q = Ci0 ! q \<and> aval ai Cx q = aval ai Cx0 q)"
proof -
  from GB_memcpy_nth [OF assms(1,2,3,5,4)]
  obtain Ci where ci: "GB_memcpy Ci0 d Ai s m = Inr Ci"
    and lci: "length Ci = length Ci0"
    and nci: "\<forall>i. i < length Ci0 \<longrightarrow>
                Ci ! i = (if d \<le> int i \<and> int i < d + m then Ai ! nat (s + (int i - d))
                          else Ci0 ! i)"
    by blast
  have i1: "\<forall>p. s \<le> int p \<and> int p < s + m \<longrightarrow> Ci ! nat (int p - s + d) = Ai ! p"
  proof (intro allI impI)
    fix p assume p: "s \<le> int p \<and> int p < s + m"
    define q where "q = nat (int p - s + d)"
    have q: "q < length Ci0" "d \<le> int q" "int q < d + m" "nat (s + (int q - d)) = p"
      unfolding q_def using p assms(1-5) by arith+
    show "Ci ! nat (int p - s + d) = Ai ! p"
      unfolding q_def [symmetric] using nci q by simp
  qed
  have i2: "\<forall>q. int q < d \<longrightarrow> Ci ! q = Ci0 ! q"
  proof (intro allI impI)
    fix q assume "int q < d"
    then have "q < length Ci0" "\<not> d \<le> int q" using assms(1-5) by arith+
    then show "Ci ! q = Ci0 ! q" using nci by simp
  qed
  show ?thesis
  proof (cases ai)
    case True
    then show ?thesis using ci lci i1 i2 assms(6)
      by (intro exI [of _ Ci] exI [of _ Cx0]) (simp add: aval_def)
  next
    case False
    then have l: "s + m \<le> int (length Ax)" "d + m \<le> int (length Cx0)"
      using assms(6) by simp_all
    from GB_memcpy_nth [OF assms(1,2,3) l(2,1)]
    obtain Cx where cx: "GB_memcpy Cx0 d Ax s m = Inr Cx"
      and lcx: "length Cx = length Cx0"
      and ncx: "\<forall>i. i < length Cx0 \<longrightarrow>
                  Cx ! i = (if d \<le> int i \<and> int i < d + m then Ax ! nat (s + (int i - d))
                            else Cx0 ! i)"
      by blast
    have x1: "\<forall>p. s \<le> int p \<and> int p < s + m \<longrightarrow> Cx ! nat (int p - s + d) = Ax ! p"
    proof (intro allI impI)
      fix p assume p: "s \<le> int p \<and> int p < s + m"
      define q where "q = nat (int p - s + d)"
      have q: "q < length Cx0" "d \<le> int q" "int q < d + m" "nat (s + (int q - d)) = p"
        unfolding q_def using p assms(1-3) l by arith+
      show "Cx ! nat (int p - s + d) = Ax ! p"
        unfolding q_def [symmetric] using ncx q by simp
    qed
    have x2: "\<forall>q. int q < d \<longrightarrow> Cx ! q = Cx0 ! q"
    proof (intro allI impI)
      fix q assume "int q < d"
      then have "q < length Cx0" "\<not> d \<le> int q"
        using assms(1-3) l by arith+
      then show "Cx ! q = Cx0 ! q" using ncx by simp
    qed
    show ?thesis using False ci cx lci lcx i1 i2 x1 x2
      by (intro exI [of _ Ci] exI [of _ Cx]) (simp add: aval_def)
  qed
qed
subsection \<open>The vectors of the output of a column selector\<close>

lemma ents_from_copy:
  assumes ok: "sparse_ok A" and rng: "b + d \<le> nat (nvec A)"
    and cp: "\<And>i. a \<le> i \<Longrightarrow> i \<le> b \<Longrightarrow> Cp ! i = arr (Mp A) ! (i + d) - int t"
    and ch: "\<And>i. a \<le> i \<Longrightarrow> i < b \<Longrightarrow> GBH Ch i = GBH (Mh A) (i + d)"
    and t: "a < b \<Longrightarrow> int t \<le> arr (Mp A) ! (a + d)"
    and data: "\<And>p. nat (arr (Mp A) ! (a + d)) \<le> p \<Longrightarrow> p < nat (arr (Mp A) ! (b + d))
                 \<Longrightarrow> Ci ! (p - t) = arr (Mi A) ! p
                     \<and> aval (iso A) Cx (p - t) = aval (iso A) (arr (Mx A)) p"
  shows "ents Cp Ch Ci Cx (iso A) a b = range_entries A (a + d) (b + d)"
  unfolding range_entries_def
proof (rule ents_shift [where s = "int t"])
  show "\<And>k. a \<le> k \<Longrightarrow> k \<le> b \<Longrightarrow> Cp ! k = arr (Mp A) ! (k + d) - int t" by (rule cp)
  show "\<And>k. a \<le> k \<Longrightarrow> k < b \<Longrightarrow> GBH Ch k = GBH (Mh A) (k + d)" by (rule ch)
  show "0 \<le> int t" by simp
  show "int t \<le> arr (Mp A) ! (k + d)" if "a \<le> k" "k < b" for k
  proof -
    have "arr (Mp A) ! (a + d) \<le> arr (Mp A) ! (k + d)"
      using that rng by (intro Ap_mono [OF ok]) simp_all
    then show ?thesis using t that by simp
  qed
  show "Ci ! (p - nat (int t)) = arr (Mi A) ! p
          \<and> aval (iso A) Cx (p - nat (int t)) = aval (iso A) (arr (Mx A)) p"
    if "a \<le> k" "k < b" "nat (arr (Mp A) ! (k + d)) \<le> p" "p < nat (arr (Mp A) ! Suc (k + d))"
    for k p
  proof -
    have "arr (Mp A) ! (a + d) \<le> arr (Mp A) ! (k + d)"
      using that rng by (intro Ap_mono [OF ok]) simp_all
    moreover have "arr (Mp A) ! Suc (k + d) \<le> arr (Mp A) ! (b + d)"
      using that rng by (intro Ap_mono [OF ok]) simp_all
    ultimately have "nat (arr (Mp A) ! (a + d)) \<le> p" "p < nat (arr (Mp A) ! (b + d))"
      using that(3,4) by linarith+
    from data [OF this] show ?thesis by simp
  qed
qed

lemma sparse_ok_lengths:
  assumes "sparse_ok A"
  shows "nat (nvec A) < length (arr (Mp A))"
    and "nat (arr (Mp A) ! nat (nvec A)) \<le> length (arr (Mi A))"
    and "if iso A then arr (Mx A) \<noteq> []
         else nat (arr (Mp A) ! nat (nvec A)) \<le> length (arr (Mx A))"
    and "Mh A = Some Ah \<Longrightarrow> nat (nvec A) \<le> length Ah"
    and "0 \<le> nvec A" and "arr (Mp A) ! 0 = 0"
  using assms by (auto simp: sparse_ok_def Let_def split: if_splits)

lemma Ap_int_nat:
  assumes "sparse_ok A" "i \<le> nat (nvec A)"
  shows "arr (Mp A) ! i = int (nat (arr (Mp A) ! i))"
  using Ap_nonneg [OF assms] by simp

lemma Ap_nat_mono:
  assumes "sparse_ok A" "i \<le> j" "j \<le> nat (nvec A)"
  shows "nat (arr (Mp A) ! i) \<le> nat (arr (Mp A) ! j)"
  using Ap_mono [OF assms] by simp

text \<open>\<open>COLLE\<close> on a hypersparse matrix (lines 463 to 486).\<close>

lemma construct_COLLE_hyper:
  assumes ok: "sparse_ok A" and hy: "Mh A = Some Ah" and kc: "kc \<le> nat (nvec A)"
    and l: "kc < length Cp0" "kc \<le> length Ch0" "arr (Mp A) ! kc \<le> int (length Ci0)"
      "if iso A then Cx0 \<noteq> [] \<and> Cx0 ! 0 = arr (Mx A) ! 0
       else arr (Mp A) ! kc \<le> int (length Cx0)"
  shows "\<exists>Cp Ch Ci Cx.
           col_construct_COLLE True (iso A) (arr (Mp A)) Ah (arr (Mi A)) (arr (Mx A))
             k found (arr (Mp A) ! kc) (int kc) (Cp0, Ch0, Ci0, Cx0) = Inr (Cp, Ch, Ci, Cx)
           \<and> kc < length Cp \<and> Cp ! kc = arr (Mp A) ! kc
           \<and> ents Cp (Some Ch) Ci Cx (iso A) 0 kc = range_entries A 0 kc"
proof -
  let ?Ap = "arr (Mp A)" and ?Ai = "arr (Mi A)" and ?Ax = "arr (Mx A)" and ?n = "nat (nvec A)"
  define pend where "pend = ?Ap ! kc"
  note sl = sparse_ok_lengths [OF ok]
  have pe0: "0 \<le> pend" unfolding pend_def by (rule Ap_nonneg [OF ok kc])
  have pen: "pend \<le> ?Ap ! ?n" unfolding pend_def by (rule Ap_mono [OF ok kc]) simp
  have la: "pend \<le> int (length ?Ai)" using pen sl(2) pe0 by arith
  have "\<exists>Cp. GB_memcpy Cp0 0 ?Ap 0 (int kc + 1) = Inr Cp \<and> length Cp = length Cp0
          \<and> (\<forall>i. i < length Cp0 \<longrightarrow>
                Cp ! i = (if 0 \<le> int i \<and> int i < 0 + (int kc + 1)
                          then ?Ap ! nat (0 + (int i - 0)) else Cp0 ! i))"
    using l(1) kc sl(1) by (intro GB_memcpy_nth) simp_all
  then obtain Cp where cp: "GB_memcpy Cp0 0 ?Ap 0 (int kc + 1) = Inr Cp"
    and lcp: "length Cp = length Cp0"
    and ncp: "\<And>i. i \<le> kc \<Longrightarrow> Cp ! i = ?Ap ! i"
    using l(1) by auto
  have "\<exists>Ch. GB_memcpy Ch0 0 Ah 0 (int kc) = Inr Ch \<and> length Ch = length Ch0
          \<and> (\<forall>i. i < length Ch0 \<longrightarrow>
                Ch ! i = (if 0 \<le> int i \<and> int i < 0 + int kc
                          then Ah ! nat (0 + (int i - 0)) else Ch0 ! i))"
    using l(2) kc sl(4) [OF hy] by (intro GB_memcpy_nth) simp_all
  then obtain Ch where ch: "GB_memcpy Ch0 0 Ah 0 (int kc) = Inr Ch"
    and nch: "\<And>i. i < kc \<Longrightarrow> Ch ! i = Ah ! i"
    using l(2) by auto
  have cd: "if iso A then Cx0 \<noteq> [] \<and> Cx0 ! 0 = ?Ax ! 0
            else 0 + pend \<le> int (length ?Ax) \<and> 0 + pend \<le> int (length Cx0)"
  proof (cases "iso A")
    case True
    then show ?thesis using l(4) by simp
  next
    case False
    then have "pend \<le> int (length ?Ax)" using pen sl(3) pe0 by simp
    then show ?thesis using False l(4) by (simp add: pend_def)
  qed
  have "\<exists>Ci Cx. GB_memcpy Ci0 0 ?Ai 0 pend = Inr Ci
           \<and> (if \<not> iso A then GB_memcpy Cx0 0 ?Ax 0 pend else Inr Cx0) = Inr Cx
           \<and> length Ci = length Ci0 \<and> length Cx = length Cx0
           \<and> (\<forall>p. 0 \<le> int p \<and> int p < 0 + pend \<longrightarrow>
                  Ci ! nat (int p - 0 + 0) = ?Ai ! p
                  \<and> aval (iso A) Cx (nat (int p - 0 + 0)) = aval (iso A) ?Ax p)
           \<and> (\<forall>q. int q < 0 \<longrightarrow> Ci ! q = Ci0 ! q \<and> aval (iso A) Cx q = aval (iso A) Cx0 q)"
    using pe0 la l(3) cd by (intro copy_data) (simp_all add: pend_def)
  then obtain Ci Cx where ci: "GB_memcpy Ci0 0 ?Ai 0 pend = Inr Ci"
    and cx: "(if \<not> iso A then GB_memcpy Cx0 0 ?Ax 0 pend else Inr Cx0) = Inr Cx"
    and dat: "\<And>p. int p < pend \<Longrightarrow>
                Ci ! p = ?Ai ! p \<and> aval (iso A) Cx p = aval (iso A) ?Ax p"
    by auto
  have run: "col_construct_COLLE True (iso A) ?Ap Ah ?Ai ?Ax k found pend (int kc)
               (Cp0, Ch0, Ci0, Cx0) = Inr (Cp, Ch, Ci, Cx)"
    using cp ch ci cx by (simp add: col_construct_COLLE_def)
  have e: "ents Cp (Some Ch) Ci Cx (iso A) 0 kc = range_entries A (0 + 0) (kc + 0)"
  proof (rule ents_from_copy [OF ok, where t = 0])
    show "kc + 0 \<le> ?n" using kc by simp
    show "\<And>i. 0 \<le> i \<Longrightarrow> i \<le> kc \<Longrightarrow> Cp ! i = ?Ap ! (i + 0) - int 0"
      using ncp by simp
    show "\<And>i. 0 \<le> i \<Longrightarrow> i < kc \<Longrightarrow> GBH (Some Ch) i = GBH (Mh A) (i + 0)"
      using nch hy by (simp add: GBH_def)
    show "0 < kc \<Longrightarrow> int 0 \<le> ?Ap ! (0 + 0)" using sl(6) by simp
    show "Ci ! (p - 0) = ?Ai ! p \<and> aval (iso A) Cx (p - 0) = aval (iso A) ?Ax p"
      if "nat (?Ap ! (0 + 0)) \<le> p" "p < nat (?Ap ! (kc + 0))" for p
    proof -
      have "int p < pend" using that(2) by (simp add: pend_def)
      from dat [OF this] show ?thesis by simp
    qed
  qed
  have "kc < length Cp \<and> Cp ! kc = ?Ap ! kc" using ncp [of kc] lcp l(1) by simp
  then show ?thesis using run e unfolding pend_def
    by (intro exI [of _ Cp] exI [of _ Ch] exI [of _ Ci] exI [of _ Cx]) simp
qed
text \<open>The copies of the row indices and values: a head, a tail, and both for \<open>COLINDEX\<close>.\<close>

lemma copy_head:
  assumes ok: "sparse_ok A" and kc: "kc \<le> nat (nvec A)"
    and l: "arr (Mp A) ! kc \<le> int (length Ci0)"
      "if iso A then Cx0 \<noteq> [] \<and> Cx0 ! 0 = arr (Mx A) ! 0
       else arr (Mp A) ! kc \<le> int (length Cx0)"
  shows "\<exists>Ci Cx. GB_memcpy Ci0 0 (arr (Mi A)) 0 (arr (Mp A) ! kc) = Inr Ci
           \<and> (if \<not> iso A then GB_memcpy Cx0 0 (arr (Mx A)) 0 (arr (Mp A) ! kc)
               else Inr Cx0) = Inr Cx
           \<and> length Ci = length Ci0 \<and> length Cx = length Cx0
           \<and> (\<forall>p. int p < arr (Mp A) ! kc \<longrightarrow>
                  Ci ! p = arr (Mi A) ! p
                  \<and> aval (iso A) Cx p = aval (iso A) (arr (Mx A)) p)"
proof -
  let ?Ap = "arr (Mp A)" and ?Ai = "arr (Mi A)" and ?Ax = "arr (Mx A)" and ?n = "nat (nvec A)"
  define pend where "pend = ?Ap ! kc"
  note sl = sparse_ok_lengths [OF ok]
  have pe0: "0 \<le> pend" unfolding pend_def by (rule Ap_nonneg [OF ok kc])
  have pen: "pend \<le> ?Ap ! ?n" unfolding pend_def by (rule Ap_mono [OF ok kc]) simp
  have la: "pend \<le> int (length ?Ai)" using pen sl(2) pe0 by arith
  have cd: "if iso A then Cx0 \<noteq> [] \<and> Cx0 ! 0 = ?Ax ! 0
            else 0 + pend \<le> int (length ?Ax) \<and> 0 + pend \<le> int (length Cx0)"
  proof (cases "iso A")
    case True
    then show ?thesis using l(2) by simp
  next
    case False
    then have "pend \<le> int (length ?Ax)" using pen sl(3) pe0 by simp
    then show ?thesis using False l(2) by (simp add: pend_def)
  qed
  have "\<exists>Ci Cx. GB_memcpy Ci0 0 ?Ai 0 pend = Inr Ci
           \<and> (if \<not> iso A then GB_memcpy Cx0 0 ?Ax 0 pend else Inr Cx0) = Inr Cx
           \<and> length Ci = length Ci0 \<and> length Cx = length Cx0
           \<and> (\<forall>p. 0 \<le> int p \<and> int p < 0 + pend \<longrightarrow>
                  Ci ! nat (int p - 0 + 0) = ?Ai ! p
                  \<and> aval (iso A) Cx (nat (int p - 0 + 0)) = aval (iso A) ?Ax p)
           \<and> (\<forall>q. int q < 0 \<longrightarrow> Ci ! q = Ci0 ! q \<and> aval (iso A) Cx q = aval (iso A) Cx0 q)"
    using pe0 la l(1) cd by (intro copy_data) (simp_all add: pend_def)
  then show ?thesis unfolding pend_def [symmetric] by auto
qed

lemma copy_tail:
  assumes ok: "sparse_ok A" and kc: "kc \<le> nat (nvec A)"
    and l: "arr (Mp A) ! nat (nvec A) - arr (Mp A) ! kc \<le> int (length Ci0)"
      "if iso A then Cx0 \<noteq> [] \<and> Cx0 ! 0 = arr (Mx A) ! 0
       else arr (Mp A) ! nat (nvec A) - arr (Mp A) ! kc \<le> int (length Cx0)"
  shows "\<exists>Ci Cx. GB_memcpy Ci0 0 (arr (Mi A)) (arr (Mp A) ! kc)
                    (arr (Mp A) ! nat (nvec A) - arr (Mp A) ! kc) = Inr Ci
           \<and> (if \<not> iso A
               then GB_memcpy Cx0 0 (arr (Mx A)) (arr (Mp A) ! kc)
                      (arr (Mp A) ! nat (nvec A) - arr (Mp A) ! kc)
               else Inr Cx0) = Inr Cx
           \<and> length Ci = length Ci0 \<and> length Cx = length Cx0
           \<and> (\<forall>p. arr (Mp A) ! kc \<le> int p \<and> int p < arr (Mp A) ! nat (nvec A) \<longrightarrow>
                  Ci ! (p - nat (arr (Mp A) ! kc)) = arr (Mi A) ! p
                  \<and> aval (iso A) Cx (p - nat (arr (Mp A) ! kc))
                      = aval (iso A) (arr (Mx A)) p)"
proof -
  let ?Ap = "arr (Mp A)" and ?Ai = "arr (Mi A)" and ?Ax = "arr (Mx A)" and ?n = "nat (nvec A)"
  define pend where "pend = ?Ap ! kc"
  define anz where "anz = ?Ap ! ?n"
  note sl = sparse_ok_lengths [OF ok]
  have pe0: "0 \<le> pend" unfolding pend_def by (rule Ap_nonneg [OF ok kc])
  have pen: "pend \<le> anz" unfolding pend_def anz_def by (rule Ap_mono [OF ok kc]) simp
  have la: "anz \<le> int (length ?Ai)" using sl(2) pe0 pen unfolding anz_def by arith
  have cd: "if iso A then Cx0 \<noteq> [] \<and> Cx0 ! 0 = ?Ax ! 0
            else pend + (anz - pend) \<le> int (length ?Ax)
                 \<and> 0 + (anz - pend) \<le> int (length Cx0)"
  proof (cases "iso A")
    case True
    then show ?thesis using l(2) by simp
  next
    case False
    then have "anz \<le> int (length ?Ax)" using sl(3) pe0 pen unfolding anz_def by simp
    then show ?thesis using False l(2) by (simp add: pend_def anz_def)
  qed
  have "\<exists>Ci Cx. GB_memcpy Ci0 0 ?Ai pend (anz - pend) = Inr Ci
           \<and> (if \<not> iso A then GB_memcpy Cx0 0 ?Ax pend (anz - pend) else Inr Cx0) = Inr Cx
           \<and> length Ci = length Ci0 \<and> length Cx = length Cx0
           \<and> (\<forall>p. pend \<le> int p \<and> int p < pend + (anz - pend) \<longrightarrow>
                  Ci ! nat (int p - pend + 0) = ?Ai ! p
                  \<and> aval (iso A) Cx (nat (int p - pend + 0)) = aval (iso A) ?Ax p)
           \<and> (\<forall>q. int q < 0 \<longrightarrow> Ci ! q = Ci0 ! q \<and> aval (iso A) Cx q = aval (iso A) Cx0 q)"
    using pe0 pen la l(1) cd by (intro copy_data) (simp_all add: pend_def anz_def)
  then obtain Ci Cx where ci: "GB_memcpy Ci0 0 ?Ai pend (anz - pend) = Inr Ci"
    and cx: "(if \<not> iso A then GB_memcpy Cx0 0 ?Ax pend (anz - pend) else Inr Cx0) = Inr Cx"
    and len: "length Ci = length Ci0" "length Cx = length Cx0"
    and dat: "\<forall>p. pend \<le> int p \<and> int p < pend + (anz - pend) \<longrightarrow>
                  Ci ! nat (int p - pend + 0) = ?Ai ! p
                  \<and> aval (iso A) Cx (nat (int p - pend + 0)) = aval (iso A) ?Ax p"
    by blast
  have "Ci ! (p - nat pend) = ?Ai ! p \<and> aval (iso A) Cx (p - nat pend) = aval (iso A) ?Ax p"
    if "pend \<le> int p \<and> int p < anz" for p
  proof -
    have "nat (int p - pend + 0) = p - nat pend" using that pe0 by arith
    moreover have "pend \<le> int p \<and> int p < pend + (anz - pend)" using that by simp
    ultimately show ?thesis using dat by metis
  qed
  then show ?thesis using ci cx len unfolding pend_def anz_def by blast
qed

lemma copy_both:
  assumes ok: "sparse_ok A" and kc: "k \<le> kc" "kc \<le> nat (nvec A)"
    and cnz: "cnz = arr (Mp A) ! nat (nvec A) - (arr (Mp A) ! kc - arr (Mp A) ! k)"
    and l: "cnz \<le> int (length Ci0)"
      "if iso A then Cx0 \<noteq> [] \<and> Cx0 ! 0 = arr (Mx A) ! 0 else cnz \<le> int (length Cx0)"
  shows "\<exists>Ci1 Ci Cx. GB_memcpy Ci0 0 (arr (Mi A)) 0 (arr (Mp A) ! k) = Inr Ci1
           \<and> GB_memcpy Ci1 (arr (Mp A) ! k) (arr (Mi A)) (arr (Mp A) ! kc)
               (cnz - arr (Mp A) ! k) = Inr Ci
           \<and> (if \<not> iso A
               then bindE (GB_memcpy Cx0 0 (arr (Mx A)) 0 (arr (Mp A) ! k)) (\<lambda>Cx.
                      GB_memcpy Cx (arr (Mp A) ! k) (arr (Mx A)) (arr (Mp A) ! kc)
                        (cnz - arr (Mp A) ! k))
               else Inr Cx0) = Inr Cx
           \<and> (\<forall>p. int p < arr (Mp A) ! k \<longrightarrow>
                  Ci ! p = arr (Mi A) ! p
                  \<and> aval (iso A) Cx p = aval (iso A) (arr (Mx A)) p)
           \<and> (\<forall>p. arr (Mp A) ! kc \<le> int p \<and> int p < arr (Mp A) ! nat (nvec A) \<longrightarrow>
                  Ci ! (p - nat (arr (Mp A) ! kc - arr (Mp A) ! k)) = arr (Mi A) ! p
                  \<and> aval (iso A) Cx (p - nat (arr (Mp A) ! kc - arr (Mp A) ! k))
                      = aval (iso A) (arr (Mx A)) p)"
proof -
  let ?Ap = "arr (Mp A)" and ?Ai = "arr (Mi A)" and ?Ax = "arr (Mx A)" and ?n = "nat (nvec A)"
  define ps where "ps = ?Ap ! k"
  define pend where "pend = ?Ap ! kc"
  define anz where "anz = ?Ap ! ?n"
  note sl = sparse_ok_lengths [OF ok]
  have kn: "k \<le> ?n" using kc by simp
  have ps0: "0 \<le> ps" unfolding ps_def by (rule Ap_nonneg [OF ok kn])
  have pse: "ps \<le> pend" unfolding ps_def pend_def by (rule Ap_mono [OF ok kc])
  have pen: "pend \<le> anz" unfolding pend_def anz_def by (rule Ap_mono [OF ok kc(2)]) simp
  have cz: "cnz = anz - (pend - ps)" using cnz by (simp add: ps_def pend_def anz_def)
  have la: "anz \<le> int (length ?Ai)" using sl(2) ps0 pse pen unfolding anz_def by arith
  have cd1: "if iso A then Cx0 \<noteq> [] \<and> Cx0 ! 0 = ?Ax ! 0
            else 0 + ps \<le> int (length ?Ax) \<and> 0 + ps \<le> int (length Cx0)"
  proof (cases "iso A")
    case True
    then show ?thesis using l(2) by simp
  next
    case False
    then have "anz \<le> int (length ?Ax)" using sl(3) ps0 pse pen unfolding anz_def by simp
    then show ?thesis using False l(2) cz pse pen by simp
  qed
  have "\<exists>Ci Cx. GB_memcpy Ci0 0 ?Ai 0 ps = Inr Ci
           \<and> (if \<not> iso A then GB_memcpy Cx0 0 ?Ax 0 ps else Inr Cx0) = Inr Cx
           \<and> length Ci = length Ci0 \<and> length Cx = length Cx0
           \<and> (\<forall>p. 0 \<le> int p \<and> int p < 0 + ps \<longrightarrow>
                  Ci ! nat (int p - 0 + 0) = ?Ai ! p
                  \<and> aval (iso A) Cx (nat (int p - 0 + 0)) = aval (iso A) ?Ax p)
           \<and> (\<forall>q. int q < 0 \<longrightarrow> Ci ! q = Ci0 ! q \<and> aval (iso A) Cx q = aval (iso A) Cx0 q)"
    using ps0 pse pen la l(1) cz cd1 by (intro copy_data) simp_all
  then obtain Ci1 Cx1 where ci1: "GB_memcpy Ci0 0 ?Ai 0 ps = Inr Ci1"
    and cx1: "(if \<not> iso A then GB_memcpy Cx0 0 ?Ax 0 ps else Inr Cx0) = Inr Cx1"
    and len1: "length Ci1 = length Ci0" "length Cx1 = length Cx0"
    and dat1: "\<And>p. int p < ps \<Longrightarrow>
                 Ci1 ! p = ?Ai ! p \<and> aval (iso A) Cx1 p = aval (iso A) ?Ax p"
    by auto
  have cx10: "iso A \<Longrightarrow> Cx1 = Cx0" using cx1 by simp
  have cd2: "if iso A then Cx1 \<noteq> [] \<and> Cx1 ! 0 = ?Ax ! 0
            else pend + (cnz - ps) \<le> int (length ?Ax) \<and> ps + (cnz - ps) \<le> int (length Cx1)"
  proof (cases "iso A")
    case True
    then show ?thesis using l(2) cx10 by simp
  next
    case False
    then have "anz \<le> int (length ?Ax)" using sl(3) ps0 pse pen unfolding anz_def by simp
    then show ?thesis using False l(2) cz len1 by simp
  qed
  have "\<exists>Ci Cx. GB_memcpy Ci1 ps ?Ai pend (cnz - ps) = Inr Ci
           \<and> (if \<not> iso A then GB_memcpy Cx1 ps ?Ax pend (cnz - ps) else Inr Cx1) = Inr Cx
           \<and> length Ci = length Ci1 \<and> length Cx = length Cx1
           \<and> (\<forall>p. pend \<le> int p \<and> int p < pend + (cnz - ps) \<longrightarrow>
                  Ci ! nat (int p - pend + ps) = ?Ai ! p
                  \<and> aval (iso A) Cx (nat (int p - pend + ps)) = aval (iso A) ?Ax p)
           \<and> (\<forall>q. int q < ps \<longrightarrow> Ci ! q = Ci1 ! q \<and> aval (iso A) Cx q = aval (iso A) Cx1 q)"
    using ps0 pse pen la l(1) cz cd2 len1 by (intro copy_data) simp_all
  then obtain Ci Cx where ci: "GB_memcpy Ci1 ps ?Ai pend (cnz - ps) = Inr Ci"
    and cx: "(if \<not> iso A then GB_memcpy Cx1 ps ?Ax pend (cnz - ps) else Inr Cx1) = Inr Cx"
    and dat2: "\<forall>p. pend \<le> int p \<and> int p < pend + (cnz - ps) \<longrightarrow>
                  Ci ! nat (int p - pend + ps) = ?Ai ! p
                  \<and> aval (iso A) Cx (nat (int p - pend + ps)) = aval (iso A) ?Ax p"
    and keep: "\<forall>q. int q < ps \<longrightarrow> Ci ! q = Ci1 ! q \<and> aval (iso A) Cx q = aval (iso A) Cx1 q"
    by blast
  have cxx: "(if \<not> iso A
               then bindE (GB_memcpy Cx0 0 ?Ax 0 ps) (\<lambda>Cx. GB_memcpy Cx ps ?Ax pend (cnz - ps))
               else Inr Cx0) = Inr Cx"
  proof (cases "iso A")
    case True
    then show ?thesis using cx cx10 by simp
  next
    case False
    then show ?thesis using cx cx1 by simp
  qed
  have d1: "Ci ! p = ?Ai ! p \<and> aval (iso A) Cx p = aval (iso A) ?Ax p" if "int p < ps" for p
    using keep dat1 [OF that] that by simp
  have d2: "Ci ! (p - nat (pend - ps)) = ?Ai ! p
            \<and> aval (iso A) Cx (p - nat (pend - ps)) = aval (iso A) ?Ax p"
    if "pend \<le> int p \<and> int p < anz" for p
  proof -
    have "nat (int p - pend + ps) = p - nat (pend - ps)" using that ps0 pse by arith
    moreover have "pend \<le> int p \<and> int p < pend + (cnz - ps)" using that cz by simp
    ultimately show ?thesis using dat2 by metis
  qed
  show ?thesis
    unfolding ps_def [symmetric] pend_def [symmetric] anz_def [symmetric]
    using ci1 ci cxx d1 d2 by blast
qed
text \<open>\<open>COLLE\<close> on a sparse matrix (lines 470 to 486).\<close>

lemma construct_COLLE_sparse:
  assumes ok: "sparse_ok A" and hy: "Mh A = None" and k: "k + 1 \<le> nat (nvec A)"
    and l: "nat (nvec A) < length Cp0" "arr (Mp A) ! (k + 1) \<le> int (length Ci0)"
      "if iso A then Cx0 \<noteq> [] \<and> Cx0 ! 0 = arr (Mx A) ! 0
       else arr (Mp A) ! (k + 1) \<le> int (length Cx0)"
  shows "\<exists>Cp Ci Cx.
           col_construct_COLLE False (iso A) (arr (Mp A)) Ah (arr (Mi A)) (arr (Mx A))
             (int k) True (arr (Mp A) ! (k + 1)) (nvec A) (Cp0, Ch0, Ci0, Cx0)
             = Inr (Cp, Ch0, Ci, Cx)
           \<and> nat (nvec A) < length Cp \<and> Cp ! nat (nvec A) = arr (Mp A) ! (k + 1)
           \<and> ents Cp None Ci Cx (iso A) 0 (nat (nvec A)) = range_entries A 0 (k + 1)"
proof -
  let ?Ap = "arr (Mp A)" and ?Ai = "arr (Mi A)" and ?Ax = "arr (Mx A)"
  define n where "n = nat (nvec A)"
  define cnz where "cnz = ?Ap ! (k + 1)"
  note sl = sparse_ok_lengths [OF ok, folded n_def]
  have nv: "nvec A = int n" using sl(5) by (simp add: n_def)
  have kn: "k + 1 \<le> n" using k by (simp add: n_def)
  have ln: "n < length Cp0" using l(1) by (simp add: n_def)
  have "\<exists>R. GB_memcpy Cp0 0 ?Ap 0 (int k + 2) = Inr R \<and> length R = length Cp0
          \<and> (\<forall>i. i < length Cp0 \<longrightarrow>
                R ! i = (if 0 \<le> int i \<and> int i < 0 + (int k + 2)
                          then ?Ap ! nat (0 + (int i - 0)) else Cp0 ! i))"
    using ln kn sl(1) by (intro GB_memcpy_nth) simp_all
  then obtain Cp1 where cp1: "GB_memcpy Cp0 0 ?Ap 0 (int k + 2) = Inr Cp1"
    and lcp1: "length Cp1 = length Cp0"
    and r1: "\<forall>i. i < length Cp0 \<longrightarrow>
                Cp1 ! i = (if 0 \<le> int i \<and> int i < 0 + (int k + 2)
                          then ?Ap ! nat (0 + (int i - 0)) else Cp0 ! i)"
    by blast
  have "\<exists>R. fill_loop Cp1 (int k + 2) (nvec A) cnz = Inr R \<and> length R = length Cp1
          \<and> (\<forall>i. i < length Cp1 \<longrightarrow>
                R ! i = (if int k + 2 \<le> int i \<and> int i \<le> nvec A then cnz else Cp1 ! i))"
    using ln kn lcp1 nv by (intro fill_loop_nth) simp_all
  then obtain Cp where cp: "fill_loop Cp1 (int k + 2) (nvec A) cnz = Inr Cp"
    and lcp: "length Cp = length Cp1"
    and r2: "\<forall>i. i < length Cp1 \<longrightarrow>
                Cp ! i = (if int k + 2 \<le> int i \<and> int i \<le> nvec A then cnz else Cp1 ! i)"
    by blast
  have lo: "Cp ! i = ?Ap ! i" if "i \<le> k + 1" for i
  proof -
    have "i < length Cp1" "i < length Cp0" "\<not> int k + 2 \<le> int i"
      "0 \<le> int i \<and> int i < 0 + (int k + 2)" "nat (0 + (int i - 0)) = i"
      using that kn ln lcp1 by arith+
    then show ?thesis using r1 r2 by simp
  qed
  have hi: "Cp ! i = cnz" if "k + 1 \<le> i" "i \<le> n" for i
  proof (cases "i = k + 1")
    case True
    then show ?thesis using lo [of i] by (simp add: cnz_def)
  next
    case False
    then have "i < length Cp1" "int k + 2 \<le> int i \<and> int i \<le> nvec A"
      using that ln lcp1 nv by arith+
    then show ?thesis using r2 by simp
  qed
  have kc: "k + 1 \<le> nat (nvec A)" using k .
  from copy_head [OF ok kc l(2,3)]
  obtain Ci Cx where ci: "GB_memcpy Ci0 0 ?Ai 0 cnz = Inr Ci"
    and cx: "(if \<not> iso A then GB_memcpy Cx0 0 ?Ax 0 cnz else Inr Cx0) = Inr Cx"
    and dat: "\<forall>p. int p < cnz \<longrightarrow>
                Ci ! p = ?Ai ! p \<and> aval (iso A) Cx p = aval (iso A) ?Ax p"
    unfolding cnz_def by blast
  have run: "col_construct_COLLE False (iso A) ?Ap Ah ?Ai ?Ax (int k) True cnz (nvec A)
               (Cp0, Ch0, Ci0, Cx0) = Inr (Cp, Ch0, Ci, Cx)"
    using cp1 cp ci cx by (simp add: col_construct_COLLE_def)
  have e1: "ents Cp None Ci Cx (iso A) 0 (k + 1) = range_entries A (0 + 0) (k + 1 + 0)"
  proof (rule ents_from_copy [OF ok, where t = 0])
    show "k + 1 + 0 \<le> nat (nvec A)" using k by simp
    show "\<And>i. 0 \<le> i \<Longrightarrow> i \<le> k + 1 \<Longrightarrow> Cp ! i = ?Ap ! (i + 0) - int 0"
      using lo by simp
    show "\<And>i. 0 \<le> i \<Longrightarrow> i < k + 1 \<Longrightarrow> GBH None i = GBH (Mh A) (i + 0)"
      using hy by simp
    show "0 < k + 1 \<Longrightarrow> int 0 \<le> ?Ap ! (0 + 0)" using sl(6) by simp
    show "Ci ! (p - 0) = ?Ai ! p \<and> aval (iso A) Cx (p - 0) = aval (iso A) ?Ax p"
      if "nat (?Ap ! (0 + 0)) \<le> p" "p < nat (?Ap ! (k + 1 + 0))" for p
    proof -
      have "int p < cnz" using that(2) by (simp add: cnz_def)
      then show ?thesis using dat by simp
    qed
  qed
  have e2: "ents Cp None Ci Cx (iso A) (k + 1) n = []"
  proof (rule ents_empty)
    fix i assume "k + 1 \<le> i" "i < n"
    then show "Cp ! Suc i \<le> Cp ! i" using hi [of i] hi [of "Suc i"] by simp
  qed
  have e: "ents Cp None Ci Cx (iso A) 0 n = range_entries A 0 (k + 1)"
    using ents_split [of 0 "k + 1" n Cp None Ci Cx "iso A"] kn e1 e2 by simp
  have "n < length Cp \<and> Cp ! n = cnz" using hi [of n] kn ln lcp lcp1 by simp
  then show ?thesis using run e unfolding cnz_def n_def
    by (intro exI [of _ Cp] exI [of _ Ci] exI [of _ Cx]) simp
qed

text \<open>\<open>COLGT\<close> on a hypersparse matrix (lines 498 to 525).\<close>

lemma construct_COLGT_hyper:
  assumes ok: "sparse_ok A" and hy: "Mh A = Some Ah"
    and kc: "kc = k + (if found then 1 else 0)" "kc \<le> nat (nvec A)"
    and l: "nat (nvec A) - kc < length Cp0" "nat (nvec A) - kc \<le> length Ch0"
      "arr (Mp A) ! nat (nvec A) - arr (Mp A) ! kc \<le> int (length Ci0)"
      "if iso A then Cx0 \<noteq> [] \<and> Cx0 ! 0 = arr (Mx A) ! 0
       else arr (Mp A) ! nat (nvec A) - arr (Mp A) ! kc \<le> int (length Cx0)"
  shows "\<exists>Cp Ch Ci Cx.
           col_construct_COLGT True (iso A) (arr (Mp A)) Ah (arr (Mi A)) (arr (Mx A))
             (int k) found (arr (Mp A) ! kc)
             (arr (Mp A) ! nat (nvec A) - arr (Mp A) ! kc) (nvec A - int kc)
             (Cp0, Ch0, Ci0, Cx0) = Inr (Cp, Ch, Ci, Cx)
           \<and> nat (nvec A) - kc < length Cp
           \<and> Cp ! (nat (nvec A) - kc) = arr (Mp A) ! nat (nvec A) - arr (Mp A) ! kc
           \<and> ents Cp (Some Ch) Ci Cx (iso A) 0 (nat (nvec A) - kc)
               = range_entries A kc (nat (nvec A))"
proof -
  let ?Ap = "arr (Mp A)" and ?Ai = "arr (Mi A)" and ?Ax = "arr (Mx A)"
  define n where "n = nat (nvec A)"
  define pend where "pend = ?Ap ! kc"
  define anz where "anz = ?Ap ! n"
  define cv where "cv = n - kc"
  note sl = sparse_ok_lengths [OF ok, folded n_def]
  have nv: "nvec A = int n" using sl(5) by (simp add: n_def)
  have kn: "kc \<le> n" using kc(2) by (simp add: n_def)
  have cvn: "cv + kc = n" "nvec A - int kc = int cv" using kn nv by (simp_all add: cv_def)
  have ks: "int k + (if found then 1 else 0) = int kc" using kc(1) by simp
  have pe0: "0 \<le> pend" unfolding pend_def using Ap_nonneg [OF ok kc(2)] .
  have lcv: "cv < length Cp0" "cv \<le> length Ch0" using l(1,2) by (simp_all add: cv_def n_def)
  have "\<exists>R. copy_shift_loop Cp0 ?Ap 0 (int cv) (int kc) pend = Inr R
          \<and> length R = length Cp0
          \<and> (\<forall>i. i < length Cp0 \<longrightarrow>
                R ! i = (if 0 \<le> int i \<and> int i \<le> int cv
                          then ?Ap ! nat (int i + int kc) - pend else Cp0 ! i))"
    using lcv cvn sl(1) by (intro copy_shift_loop_nth) simp_all
  then obtain Cp where cp: "copy_shift_loop Cp0 ?Ap 0 (int cv) (int kc) pend = Inr Cp"
    and lcp: "length Cp = length Cp0"
    and r1: "\<forall>i. i < length Cp0 \<longrightarrow>
                Cp ! i = (if 0 \<le> int i \<and> int i \<le> int cv
                          then ?Ap ! nat (int i + int kc) - pend else Cp0 ! i)"
    by blast
  have ncp: "Cp ! i = ?Ap ! (i + kc) - pend" if "i \<le> cv" for i
  proof -
    have "i < length Cp0" "0 \<le> int i \<and> int i \<le> int cv" "nat (int i + int kc) = i + kc"
      using that lcv by arith+
    then show ?thesis using r1 by simp
  qed
  have "\<exists>R. GB_memcpy Ch0 0 Ah (int kc) (int cv) = Inr R \<and> length R = length Ch0
          \<and> (\<forall>i. i < length Ch0 \<longrightarrow>
                R ! i = (if 0 \<le> int i \<and> int i < 0 + int cv
                          then Ah ! nat (int kc + (int i - 0)) else Ch0 ! i))"
    using lcv cvn sl(4) [OF hy] by (intro GB_memcpy_nth) simp_all
  then obtain Ch where ch: "GB_memcpy Ch0 0 Ah (int kc) (int cv) = Inr Ch"
    and r2: "\<forall>i. i < length Ch0 \<longrightarrow>
                Ch ! i = (if 0 \<le> int i \<and> int i < 0 + int cv
                          then Ah ! nat (int kc + (int i - 0)) else Ch0 ! i)"
    by blast
  have nch: "Ch ! i = Ah ! (i + kc)" if "i < cv" for i
  proof -
    have "i < length Ch0" "0 \<le> int i \<and> int i < 0 + int cv"
      "nat (int kc + (int i - 0)) = i + kc"
      using that lcv by arith+
    then show ?thesis using r2 by simp
  qed
  from copy_tail [OF ok kc(2) l(3,4)]
  obtain Ci Cx where ci: "GB_memcpy Ci0 0 ?Ai pend (anz - pend) = Inr Ci"
    and cx: "(if \<not> iso A then GB_memcpy Cx0 0 ?Ax pend (anz - pend) else Inr Cx0) = Inr Cx"
    and dat: "\<forall>p. pend \<le> int p \<and> int p < anz \<longrightarrow>
                Ci ! (p - nat pend) = ?Ai ! p
                \<and> aval (iso A) Cx (p - nat pend) = aval (iso A) ?Ax p"
    unfolding pend_def anz_def n_def by blast
  have run: "col_construct_COLGT True (iso A) ?Ap Ah ?Ai ?Ax (int k) found pend
               (anz - pend) (nvec A - int kc) (Cp0, Ch0, Ci0, Cx0) = Inr (Cp, Ch, Ci, Cx)"
    using cp ch ci cx by (simp add: col_construct_COLGT_def ks cvn(2))
  have e: "ents Cp (Some Ch) Ci Cx (iso A) 0 cv = range_entries A (0 + kc) (cv + kc)"
  proof (rule ents_from_copy [OF ok, where t = "nat pend"])
    show "cv + kc \<le> nat (nvec A)" using cvn by (simp add: n_def)
    show "\<And>i. 0 \<le> i \<Longrightarrow> i \<le> cv \<Longrightarrow> Cp ! i = ?Ap ! (i + kc) - int (nat pend)"
      using ncp pe0 by simp
    show "\<And>i. 0 \<le> i \<Longrightarrow> i < cv \<Longrightarrow> GBH (Some Ch) i = GBH (Mh A) (i + kc)"
      using nch hy by (simp add: GBH_def)
    show "0 < cv \<Longrightarrow> int (nat pend) \<le> ?Ap ! (0 + kc)" using pe0 by (simp add: pend_def)
    show "Ci ! (p - nat pend) = ?Ai ! p
            \<and> aval (iso A) Cx (p - nat pend) = aval (iso A) ?Ax p"
      if "nat (?Ap ! (0 + kc)) \<le> p" "p < nat (?Ap ! (cv + kc))" for p
    proof -
      have "nat pend \<le> p" "p < nat anz"
        using that cvn(1) by (simp_all add: pend_def anz_def)
      then have "pend \<le> int p \<and> int p < anz" by arith
      then show ?thesis using dat by simp
    qed
  qed
  have "cv < length Cp \<and> Cp ! cv = anz - pend"
    using ncp [of cv] lcp lcv cvn(1) by (simp add: anz_def)
  then show ?thesis using run e cvn(1) unfolding pend_def anz_def cv_def n_def
    by (intro exI [of _ Cp] exI [of _ Ch] exI [of _ Ci] exI [of _ Cx]) simp
qed
text \<open>\<open>COLGT\<close> on a sparse matrix (lines 509 to 525).\<close>

lemma construct_COLGT_sparse:
  assumes ok: "sparse_ok A" and hy: "Mh A = None" and k: "k + 1 \<le> nat (nvec A)"
    and l: "nat (nvec A) < length Cp0"
      "arr (Mp A) ! nat (nvec A) - arr (Mp A) ! (k + 1) \<le> int (length Ci0)"
      "if iso A then Cx0 \<noteq> [] \<and> Cx0 ! 0 = arr (Mx A) ! 0
       else arr (Mp A) ! nat (nvec A) - arr (Mp A) ! (k + 1) \<le> int (length Cx0)"
  shows "\<exists>Cp Ci Cx.
           col_construct_COLGT False (iso A) (arr (Mp A)) Ah (arr (Mi A)) (arr (Mx A))
             (int k) True (arr (Mp A) ! (k + 1))
             (arr (Mp A) ! nat (nvec A) - arr (Mp A) ! (k + 1)) (nvec A)
             (Cp0, Ch0, Ci0, Cx0) = Inr (Cp, Ch0, Ci, Cx)
           \<and> nat (nvec A) < length Cp
           \<and> Cp ! nat (nvec A) = arr (Mp A) ! nat (nvec A) - arr (Mp A) ! (k + 1)
           \<and> ents Cp None Ci Cx (iso A) 0 (nat (nvec A))
               = range_entries A (k + 1) (nat (nvec A))"
proof -
  let ?Ap = "arr (Mp A)" and ?Ai = "arr (Mi A)" and ?Ax = "arr (Mx A)"
  define n where "n = nat (nvec A)"
  define pend where "pend = ?Ap ! (k + 1)"
  define anz where "anz = ?Ap ! n"
  note sl = sparse_ok_lengths [OF ok, folded n_def]
  have nv: "nvec A = int n" using sl(5) by (simp add: n_def)
  have kn: "k + 1 \<le> n" using k by (simp add: n_def)
  have ln: "n < length Cp0" using l(1) by (simp add: n_def)
  have pe0: "0 \<le> pend" unfolding pend_def using Ap_nonneg [OF ok k] .
  have "\<exists>R. GB_memset Cp0 0 (int k + 1) = Inr R \<and> length R = length Cp0
          \<and> (\<forall>i. i < length Cp0 \<longrightarrow> R ! i = (if int i < int k + 1 then 0 else Cp0 ! i))"
    using ln kn by (intro GB_memset_nth) simp_all
  then obtain Cp1 where cp1: "GB_memset Cp0 0 (int k + 1) = Inr Cp1"
    and lcp1: "length Cp1 = length Cp0"
    and r1: "\<forall>i. i < length Cp0 \<longrightarrow> Cp1 ! i = (if int i < int k + 1 then 0 else Cp0 ! i)"
    by blast
  have "\<exists>R. copy_shift_loop Cp1 ?Ap (int k + 1) (nvec A) 0 pend = Inr R
          \<and> length R = length Cp1
          \<and> (\<forall>i. i < length Cp1 \<longrightarrow>
                R ! i = (if int k + 1 \<le> int i \<and> int i \<le> nvec A
                          then ?Ap ! nat (int i + 0) - pend else Cp1 ! i))"
    using ln kn lcp1 nv sl(1) by (intro copy_shift_loop_nth) simp_all
  then obtain Cp where cp: "copy_shift_loop Cp1 ?Ap (int k + 1) (nvec A) 0 pend = Inr Cp"
    and lcp: "length Cp = length Cp1"
    and r2: "\<forall>i. i < length Cp1 \<longrightarrow>
                Cp ! i = (if int k + 1 \<le> int i \<and> int i \<le> nvec A
                          then ?Ap ! nat (int i + 0) - pend else Cp1 ! i)"
    by blast
  have lo: "Cp ! i = 0" if "i \<le> k" for i
  proof -
    have "i < length Cp1" "i < length Cp0" "\<not> int k + 1 \<le> int i" "int i < int k + 1"
      using that kn ln lcp1 by arith+
    then show ?thesis using r1 r2 by simp
  qed
  have hi: "Cp ! i = ?Ap ! i - pend" if "k + 1 \<le> i" "i \<le> n" for i
  proof -
    have "i < length Cp1" "int k + 1 \<le> int i \<and> int i \<le> nvec A"
      using that ln lcp1 nv by arith+
    then show ?thesis using r2 by simp
  qed
  from copy_tail [OF ok k l(2,3)]
  obtain Ci Cx where ci: "GB_memcpy Ci0 0 ?Ai pend (anz - pend) = Inr Ci"
    and cx: "(if \<not> iso A then GB_memcpy Cx0 0 ?Ax pend (anz - pend) else Inr Cx0) = Inr Cx"
    and dat: "\<forall>p. pend \<le> int p \<and> int p < anz \<longrightarrow>
                Ci ! (p - nat pend) = ?Ai ! p
                \<and> aval (iso A) Cx (p - nat pend) = aval (iso A) ?Ax p"
    unfolding pend_def anz_def n_def by blast
  have run: "col_construct_COLGT False (iso A) ?Ap Ah ?Ai ?Ax (int k) True pend
               (anz - pend) (nvec A) (Cp0, Ch0, Ci0, Cx0) = Inr (Cp, Ch0, Ci, Cx)"
    using cp1 cp ci cx by (simp add: col_construct_COLGT_def)
  have e1: "ents Cp None Ci Cx (iso A) 0 (k + 1) = []"
  proof (rule ents_empty)
    fix i assume i: "0 \<le> i" "i < k + 1"
    show "Cp ! Suc i \<le> Cp ! i"
    proof (cases "i = k")
      case True
      then show ?thesis using lo [of k] hi [of "k + 1"] kn by (simp add: pend_def)
    next
      case False
      then show ?thesis using lo [of i] lo [of "Suc i"] i by simp
    qed
  qed
  have e2: "ents Cp None Ci Cx (iso A) (k + 1) n = range_entries A (k + 1 + 0) (n + 0)"
  proof (rule ents_from_copy [OF ok, where t = "nat pend"])
    show "n + 0 \<le> nat (nvec A)" by (simp add: n_def)
    show "\<And>i. k + 1 \<le> i \<Longrightarrow> i \<le> n \<Longrightarrow> Cp ! i = ?Ap ! (i + 0) - int (nat pend)"
      using hi pe0 by simp
    show "\<And>i. k + 1 \<le> i \<Longrightarrow> i < n \<Longrightarrow> GBH None i = GBH (Mh A) (i + 0)"
      using hy by simp
    show "k + 1 < n \<Longrightarrow> int (nat pend) \<le> ?Ap ! (k + 1 + 0)" using pe0 by (simp add: pend_def)
    show "Ci ! (p - nat pend) = ?Ai ! p
            \<and> aval (iso A) Cx (p - nat pend) = aval (iso A) ?Ax p"
      if "nat (?Ap ! (k + 1 + 0)) \<le> p" "p < nat (?Ap ! (n + 0))" for p
    proof -
      have "nat pend \<le> p" "p < nat anz" using that by (simp_all add: pend_def anz_def)
      then have "pend \<le> int p \<and> int p < anz" by arith
      then show ?thesis using dat by simp
    qed
  qed
  have e: "ents Cp None Ci Cx (iso A) 0 n = range_entries A (k + 1) n"
    using ents_split [of 0 "k + 1" n Cp None Ci Cx "iso A"] kn e1 e2 by simp
  have "n < length Cp \<and> Cp ! n = anz - pend"
    using hi [of n] kn ln lcp lcp1 by (simp add: anz_def)
  then show ?thesis using run e unfolding pend_def anz_def n_def
    by (intro exI [of _ Cp] exI [of _ Ci] exI [of _ Cx]) simp
qed

text \<open>\<open>COLINDEX\<close> on a hypersparse matrix (lines 413 to 451).\<close>

lemma construct_COLINDEX_hyper:
  assumes ok: "sparse_ok A" and hy: "Mh A = Some Ah" and k: "k + 1 \<le> nat (nvec A)"
    and cnz: "cnz = arr (Mp A) ! nat (nvec A) - (arr (Mp A) ! (k + 1) - arr (Mp A) ! k)"
    and l: "nat (nvec A) - 1 < length Cp0" "nat (nvec A) - 1 \<le> length Ch0"
      "cnz \<le> int (length Ci0)"
      "if iso A then Cx0 \<noteq> [] \<and> Cx0 ! 0 = arr (Mx A) ! 0 else cnz \<le> int (length Cx0)"
  shows "\<exists>Cp Ch Ci Cx.
           col_construct_COLINDEX True (iso A) (arr (Mp A)) Ah (arr (Mi A)) (arr (Mx A))
             (int k) True (arr (Mp A) ! k) (arr (Mp A) ! (k + 1))
             (arr (Mp A) ! (k + 1) - arr (Mp A) ! k) cnz (nvec A - 1)
             (Cp0, Ch0, Ci0, Cx0) = Inr (Cp, Ch, Ci, Cx)
           \<and> nat (nvec A) - 1 < length Cp \<and> Cp ! (nat (nvec A) - 1) = cnz
           \<and> ents Cp (Some Ch) Ci Cx (iso A) 0 (nat (nvec A) - 1)
               = range_entries A 0 k @ range_entries A (k + 1) (nat (nvec A))"
proof -
  let ?Ap = "arr (Mp A)" and ?Ai = "arr (Mi A)" and ?Ax = "arr (Mx A)"
  define n where "n = nat (nvec A)"
  define ps where "ps = ?Ap ! k"
  define pend where "pend = ?Ap ! (k + 1)"
  define anz where "anz = ?Ap ! n"
  define ajnz where "ajnz = pend - ps"
  note sl = sparse_ok_lengths [OF ok, folded n_def]
  have nv: "nvec A = int n" using sl(5) by (simp add: n_def)
  have kn: "k + 1 \<le> n" using k by (simp add: n_def)
  have lcv: "n - 1 < length Cp0" "n - 1 \<le> length Ch0" using l(1,2) by (simp_all add: n_def)
  have kk: "k \<le> k + 1" by simp
  have ps0: "0 \<le> ps" unfolding ps_def using Ap_nonneg [OF ok, of k] k by simp
  have pse: "ps \<le> pend" unfolding ps_def pend_def by (rule Ap_mono [OF ok kk k])
  have aj0: "0 \<le> ajnz" using pse by (simp add: ajnz_def)
  have cz: "cnz = anz - ajnz" using cnz by (simp add: ajnz_def ps_def pend_def anz_def n_def)
  have "\<exists>R. GB_memcpy Cp0 0 ?Ap 0 (int k) = Inr R \<and> length R = length Cp0
          \<and> (\<forall>i. i < length Cp0 \<longrightarrow>
                R ! i = (if 0 \<le> int i \<and> int i < 0 + int k
                          then ?Ap ! nat (0 + (int i - 0)) else Cp0 ! i))"
    using lcv kn sl(1) by (intro GB_memcpy_nth) simp_all
  then obtain Cp1 where cp1: "GB_memcpy Cp0 0 ?Ap 0 (int k) = Inr Cp1"
    and lcp1: "length Cp1 = length Cp0"
    and r1: "\<forall>i. i < length Cp0 \<longrightarrow>
                Cp1 ! i = (if 0 \<le> int i \<and> int i < 0 + int k
                          then ?Ap ! nat (0 + (int i - 0)) else Cp0 ! i)"
    by blast
  have "\<exists>R. copy_shift_loop Cp1 ?Ap (int k) (nvec A - 1) 1 ajnz = Inr R
          \<and> length R = length Cp1
          \<and> (\<forall>i. i < length Cp1 \<longrightarrow>
                R ! i = (if int k \<le> int i \<and> int i \<le> nvec A - 1
                          then ?Ap ! nat (int i + 1) - ajnz else Cp1 ! i))"
    using lcv kn lcp1 nv sl(1) by (intro copy_shift_loop_nth) simp_all
  then obtain Cp where cp: "copy_shift_loop Cp1 ?Ap (int k) (nvec A - 1) 1 ajnz = Inr Cp"
    and lcp: "length Cp = length Cp1"
    and r2: "\<forall>i. i < length Cp1 \<longrightarrow>
                Cp ! i = (if int k \<le> int i \<and> int i \<le> nvec A - 1
                          then ?Ap ! nat (int i + 1) - ajnz else Cp1 ! i)"
    by blast
  have lo: "Cp ! i = ?Ap ! i" if "i < k" for i
  proof -
    have "i < length Cp1" "i < length Cp0" "\<not> int k \<le> int i"
      "0 \<le> int i \<and> int i < 0 + int k" "nat (0 + (int i - 0)) = i"
      using that kn lcv lcp1 by arith+
    then show ?thesis using r1 r2 by simp
  qed
  have hi: "Cp ! i = ?Ap ! (i + 1) - ajnz" if "k \<le> i" "i \<le> n - 1" for i
  proof -
    have "i < length Cp1" "int k \<le> int i \<and> int i \<le> nvec A - 1" "nat (int i + 1) = i + 1"
      using that kn lcv lcp1 nv by arith+
    then show ?thesis using r2 by simp
  qed
  have "\<exists>R. GB_memcpy Ch0 0 Ah 0 (int k) = Inr R \<and> length R = length Ch0
          \<and> (\<forall>i. i < length Ch0 \<longrightarrow>
                R ! i = (if 0 \<le> int i \<and> int i < 0 + int k
                          then Ah ! nat (0 + (int i - 0)) else Ch0 ! i))"
    using lcv kn sl(4) [OF hy] by (intro GB_memcpy_nth) simp_all
  then obtain Ch1 where ch1: "GB_memcpy Ch0 0 Ah 0 (int k) = Inr Ch1"
    and lch1: "length Ch1 = length Ch0"
    and r3: "\<forall>i. i < length Ch0 \<longrightarrow>
                Ch1 ! i = (if 0 \<le> int i \<and> int i < 0 + int k
                          then Ah ! nat (0 + (int i - 0)) else Ch0 ! i)"
    by blast
  have "\<exists>R. GB_memcpy Ch1 (int k) Ah (int k + 1) (nvec A - 1 - int k) = Inr R
          \<and> length R = length Ch1
          \<and> (\<forall>i. i < length Ch1 \<longrightarrow>
                R ! i = (if int k \<le> int i \<and> int i < int k + (nvec A - 1 - int k)
                          then Ah ! nat (int k + 1 + (int i - int k)) else Ch1 ! i))"
    using lcv kn lch1 nv sl(4) [OF hy] by (intro GB_memcpy_nth) simp_all
  then obtain Ch where ch: "GB_memcpy Ch1 (int k) Ah (int k + 1) (nvec A - 1 - int k) = Inr Ch"
    and r4: "\<forall>i. i < length Ch1 \<longrightarrow>
                Ch ! i = (if int k \<le> int i \<and> int i < int k + (nvec A - 1 - int k)
                          then Ah ! nat (int k + 1 + (int i - int k)) else Ch1 ! i)"
    by blast
  have hlo: "Ch ! i = Ah ! i" if "i < k" for i
  proof -
    have "i < length Ch1" "i < length Ch0" "\<not> int k \<le> int i"
      "0 \<le> int i \<and> int i < 0 + int k" "nat (0 + (int i - 0)) = i"
      using that kn lcv lch1 by arith+
    then show ?thesis using r3 r4 by simp
  qed
  have hhi: "Ch ! i = Ah ! (i + 1)" if "k \<le> i" "i < n - 1" for i
  proof -
    have "i < length Ch1" "int k \<le> int i \<and> int i < int k + (nvec A - 1 - int k)"
      "nat (int k + 1 + (int i - int k)) = i + 1"
      using that kn lcv lch1 nv by arith+
    then show ?thesis using r4 by simp
  qed
  from copy_both [OF ok kk k cnz l(3,4)]
  obtain Ci1 Ci Cx where ci1: "GB_memcpy Ci0 0 ?Ai 0 ps = Inr Ci1"
    and ci: "GB_memcpy Ci1 ps ?Ai pend (cnz - ps) = Inr Ci"
    and cx: "(if \<not> iso A
               then bindE (GB_memcpy Cx0 0 ?Ax 0 ps) (\<lambda>Cx. GB_memcpy Cx ps ?Ax pend (cnz - ps))
               else Inr Cx0) = Inr Cx"
    and d1: "\<forall>p. int p < ps \<longrightarrow>
               Ci ! p = ?Ai ! p \<and> aval (iso A) Cx p = aval (iso A) ?Ax p"
    and d2: "\<forall>p. pend \<le> int p \<and> int p < anz \<longrightarrow>
               Ci ! (p - nat ajnz) = ?Ai ! p
               \<and> aval (iso A) Cx (p - nat ajnz) = aval (iso A) ?Ax p"
    unfolding ps_def pend_def anz_def ajnz_def n_def by blast
  have run: "col_construct_COLINDEX True (iso A) ?Ap Ah ?Ai ?Ax (int k) True ps pend
               ajnz cnz (nvec A - 1) (Cp0, Ch0, Ci0, Cx0) = Inr (Cp, Ch, Ci, Cx)"
    using cp1 cp ch1 ch ci1 ci cx by (simp add: col_construct_COLINDEX_def)
  have e1: "ents Cp (Some Ch) Ci Cx (iso A) 0 k = range_entries A (0 + 0) (k + 0)"
  proof (rule ents_from_copy [OF ok, where t = 0])
    show "k + 0 \<le> nat (nvec A)" using k by simp
    show "Cp ! i = ?Ap ! (i + 0) - int 0" if "0 \<le> i" "i \<le> k" for i
    proof (cases "i = k")
      case True
      then show ?thesis using hi [of k] kn by (simp add: ajnz_def ps_def pend_def)
    next
      case False
      then show ?thesis using lo [of i] that by simp
    qed
    show "\<And>i. 0 \<le> i \<Longrightarrow> i < k \<Longrightarrow> GBH (Some Ch) i = GBH (Mh A) (i + 0)"
      using hlo hy by (simp add: GBH_def)
    show "0 < k \<Longrightarrow> int 0 \<le> ?Ap ! (0 + 0)" using sl(6) by simp
    show "Ci ! (p - 0) = ?Ai ! p \<and> aval (iso A) Cx (p - 0) = aval (iso A) ?Ax p"
      if "nat (?Ap ! (0 + 0)) \<le> p" "p < nat (?Ap ! (k + 0))" for p
    proof -
      have "int p < ps" using that(2) by (simp add: ps_def)
      then show ?thesis using d1 by simp
    qed
  qed
  have e2: "ents Cp (Some Ch) Ci Cx (iso A) k (n - 1) = range_entries A (k + 1) (n - 1 + 1)"
  proof (rule ents_from_copy [OF ok, where t = "nat ajnz"])
    show "n - 1 + 1 \<le> nat (nvec A)" using kn by (simp add: n_def)
    show "\<And>i. k \<le> i \<Longrightarrow> i \<le> n - 1 \<Longrightarrow> Cp ! i = ?Ap ! (i + 1) - int (nat ajnz)"
      using hi aj0 by simp
    show "\<And>i. k \<le> i \<Longrightarrow> i < n - 1 \<Longrightarrow> GBH (Some Ch) i = GBH (Mh A) (i + 1)"
      using hhi hy by (simp add: GBH_def)
    show "k < n - 1 \<Longrightarrow> int (nat ajnz) \<le> ?Ap ! (k + 1)"
      using aj0 ps0 by (simp add: ajnz_def pend_def)
    show "Ci ! (p - nat ajnz) = ?Ai ! p
            \<and> aval (iso A) Cx (p - nat ajnz) = aval (iso A) ?Ax p"
      if "nat (?Ap ! (k + 1)) \<le> p" "p < nat (?Ap ! (n - 1 + 1))" for p
    proof -
      have "nat pend \<le> p" "p < nat anz" using that kn by (simp_all add: pend_def anz_def)
      then have "pend \<le> int p \<and> int p < anz" by arith
      then show ?thesis using d2 by simp
    qed
  qed
  have e: "ents Cp (Some Ch) Ci Cx (iso A) 0 (n - 1)
             = range_entries A 0 k @ range_entries A (k + 1) n"
    using ents_split [of 0 k "n - 1" Cp "Some Ch" Ci Cx "iso A"] kn e1 e2 by simp
  have "n - 1 < length Cp \<and> Cp ! (n - 1) = cnz"
    using hi [of "n - 1"] kn lcv lcp lcp1 cz by (simp add: anz_def)
  then show ?thesis using run e unfolding ps_def pend_def ajnz_def n_def
    by (intro exI [of _ Cp] exI [of _ Ch] exI [of _ Ci] exI [of _ Cx]) simp
qed

text \<open>\<open>COLINDEX\<close> on a sparse matrix (lines 430 to 451).\<close>

lemma construct_COLINDEX_sparse:
  assumes ok: "sparse_ok A" and hy: "Mh A = None" and k: "k + 1 \<le> nat (nvec A)"
    and cnz: "cnz = arr (Mp A) ! nat (nvec A) - (arr (Mp A) ! (k + 1) - arr (Mp A) ! k)"
    and l: "nat (nvec A) < length Cp0" "cnz \<le> int (length Ci0)"
      "if iso A then Cx0 \<noteq> [] \<and> Cx0 ! 0 = arr (Mx A) ! 0 else cnz \<le> int (length Cx0)"
  shows "\<exists>Cp Ci Cx.
           col_construct_COLINDEX False (iso A) (arr (Mp A)) Ah (arr (Mi A)) (arr (Mx A))
             (int k) True (arr (Mp A) ! k) (arr (Mp A) ! (k + 1))
             (arr (Mp A) ! (k + 1) - arr (Mp A) ! k) cnz (nvec A)
             (Cp0, Ch0, Ci0, Cx0) = Inr (Cp, Ch0, Ci, Cx)
           \<and> nat (nvec A) < length Cp \<and> Cp ! nat (nvec A) = cnz
           \<and> ents Cp None Ci Cx (iso A) 0 (nat (nvec A))
               = range_entries A 0 k @ range_entries A (k + 1) (nat (nvec A))"
proof -
  let ?Ap = "arr (Mp A)" and ?Ai = "arr (Mi A)" and ?Ax = "arr (Mx A)"
  define n where "n = nat (nvec A)"
  define ps where "ps = ?Ap ! k"
  define pend where "pend = ?Ap ! (k + 1)"
  define anz where "anz = ?Ap ! n"
  define ajnz where "ajnz = pend - ps"
  note sl = sparse_ok_lengths [OF ok, folded n_def]
  have nv: "nvec A = int n" using sl(5) by (simp add: n_def)
  have kn: "k + 1 \<le> n" using k by (simp add: n_def)
  have ln: "n < length Cp0" using l(1) by (simp add: n_def)
  have kk: "k \<le> k + 1" by simp
  have ps0: "0 \<le> ps" unfolding ps_def using Ap_nonneg [OF ok, of k] k by simp
  have pse: "ps \<le> pend" unfolding ps_def pend_def by (rule Ap_mono [OF ok kk k])
  have aj0: "0 \<le> ajnz" using pse by (simp add: ajnz_def)
  have cz: "cnz = anz - ajnz" using cnz by (simp add: ajnz_def ps_def pend_def anz_def n_def)
  have "\<exists>R. GB_memcpy Cp0 0 ?Ap 0 (int k + 1) = Inr R \<and> length R = length Cp0
          \<and> (\<forall>i. i < length Cp0 \<longrightarrow>
                R ! i = (if 0 \<le> int i \<and> int i < 0 + (int k + 1)
                          then ?Ap ! nat (0 + (int i - 0)) else Cp0 ! i))"
    using ln kn sl(1) by (intro GB_memcpy_nth) simp_all
  then obtain Cp1 where cp1: "GB_memcpy Cp0 0 ?Ap 0 (int k + 1) = Inr Cp1"
    and lcp1: "length Cp1 = length Cp0"
    and r1: "\<forall>i. i < length Cp0 \<longrightarrow>
                Cp1 ! i = (if 0 \<le> int i \<and> int i < 0 + (int k + 1)
                          then ?Ap ! nat (0 + (int i - 0)) else Cp0 ! i)"
    by blast
  have "\<exists>R. copy_shift_loop Cp1 ?Ap (int k + 1) (nvec A) 0 ajnz = Inr R
          \<and> length R = length Cp1
          \<and> (\<forall>i. i < length Cp1 \<longrightarrow>
                R ! i = (if int k + 1 \<le> int i \<and> int i \<le> nvec A
                          then ?Ap ! nat (int i + 0) - ajnz else Cp1 ! i))"
    using ln kn lcp1 nv sl(1) by (intro copy_shift_loop_nth) simp_all
  then obtain Cp where cp: "copy_shift_loop Cp1 ?Ap (int k + 1) (nvec A) 0 ajnz = Inr Cp"
    and lcp: "length Cp = length Cp1"
    and r2: "\<forall>i. i < length Cp1 \<longrightarrow>
                Cp ! i = (if int k + 1 \<le> int i \<and> int i \<le> nvec A
                          then ?Ap ! nat (int i + 0) - ajnz else Cp1 ! i)"
    by blast
  have lo: "Cp ! i = ?Ap ! i" if "i \<le> k" for i
  proof -
    have "i < length Cp1" "i < length Cp0" "\<not> int k + 1 \<le> int i"
      "0 \<le> int i \<and> int i < 0 + (int k + 1)" "nat (0 + (int i - 0)) = i"
      using that kn ln lcp1 by arith+
    then show ?thesis using r1 r2 by simp
  qed
  have hi: "Cp ! i = ?Ap ! i - ajnz" if "k + 1 \<le> i" "i \<le> n" for i
  proof -
    have "i < length Cp1" "int k + 1 \<le> int i \<and> int i \<le> nvec A"
      using that ln lcp1 nv by arith+
    then show ?thesis using r2 by simp
  qed
  from copy_both [OF ok kk k cnz l(2,3)]
  obtain Ci1 Ci Cx where ci1: "GB_memcpy Ci0 0 ?Ai 0 ps = Inr Ci1"
    and ci: "GB_memcpy Ci1 ps ?Ai pend (cnz - ps) = Inr Ci"
    and cx: "(if \<not> iso A
               then bindE (GB_memcpy Cx0 0 ?Ax 0 ps) (\<lambda>Cx. GB_memcpy Cx ps ?Ax pend (cnz - ps))
               else Inr Cx0) = Inr Cx"
    and d1: "\<forall>p. int p < ps \<longrightarrow>
               Ci ! p = ?Ai ! p \<and> aval (iso A) Cx p = aval (iso A) ?Ax p"
    and d2: "\<forall>p. pend \<le> int p \<and> int p < anz \<longrightarrow>
               Ci ! (p - nat ajnz) = ?Ai ! p
               \<and> aval (iso A) Cx (p - nat ajnz) = aval (iso A) ?Ax p"
    unfolding ps_def pend_def anz_def ajnz_def n_def by blast
  have run: "col_construct_COLINDEX False (iso A) ?Ap Ah ?Ai ?Ax (int k) True ps pend
               ajnz cnz (nvec A) (Cp0, Ch0, Ci0, Cx0) = Inr (Cp, Ch0, Ci, Cx)"
    using cp1 cp ci1 ci cx by (simp add: col_construct_COLINDEX_def)
  have e1: "ents Cp None Ci Cx (iso A) 0 k = range_entries A (0 + 0) (k + 0)"
  proof (rule ents_from_copy [OF ok, where t = 0])
    show "k + 0 \<le> nat (nvec A)" using k by simp
    show "\<And>i. 0 \<le> i \<Longrightarrow> i \<le> k \<Longrightarrow> Cp ! i = ?Ap ! (i + 0) - int 0"
      using lo by simp
    show "\<And>i. 0 \<le> i \<Longrightarrow> i < k \<Longrightarrow> GBH None i = GBH (Mh A) (i + 0)"
      using hy by simp
    show "0 < k \<Longrightarrow> int 0 \<le> ?Ap ! (0 + 0)" using sl(6) by simp
    show "Ci ! (p - 0) = ?Ai ! p \<and> aval (iso A) Cx (p - 0) = aval (iso A) ?Ax p"
      if "nat (?Ap ! (0 + 0)) \<le> p" "p < nat (?Ap ! (k + 0))" for p
    proof -
      have "int p < ps" using that(2) by (simp add: ps_def)
      then show ?thesis using d1 by simp
    qed
  qed
  have e2: "ents Cp None Ci Cx (iso A) k (k + 1) = []"
  proof (rule ents_empty)
    fix i assume "k \<le> i" "i < k + 1"
    then have "i = k" by simp
    then show "Cp ! Suc i \<le> Cp ! i"
      using lo [of k] hi [of "k + 1"] kn by (simp add: ajnz_def ps_def pend_def)
  qed
  have e3: "ents Cp None Ci Cx (iso A) (k + 1) n = range_entries A (k + 1 + 0) (n + 0)"
  proof (rule ents_from_copy [OF ok, where t = "nat ajnz"])
    show "n + 0 \<le> nat (nvec A)" by (simp add: n_def)
    show "\<And>i. k + 1 \<le> i \<Longrightarrow> i \<le> n \<Longrightarrow> Cp ! i = ?Ap ! (i + 0) - int (nat ajnz)"
      using hi aj0 by simp
    show "\<And>i. k + 1 \<le> i \<Longrightarrow> i < n \<Longrightarrow> GBH None i = GBH (Mh A) (i + 0)"
      using hy by simp
    show "k + 1 < n \<Longrightarrow> int (nat ajnz) \<le> ?Ap ! (k + 1 + 0)"
      using aj0 ps0 by (simp add: ajnz_def pend_def)
    show "Ci ! (p - nat ajnz) = ?Ai ! p
            \<and> aval (iso A) Cx (p - nat ajnz) = aval (iso A) ?Ax p"
      if "nat (?Ap ! (k + 1 + 0)) \<le> p" "p < nat (?Ap ! (n + 0))" for p
    proof -
      have "nat pend \<le> p" "p < nat anz" using that by (simp_all add: pend_def anz_def)
      then have "pend \<le> int p \<and> int p < anz" by arith
      then show ?thesis using d2 by simp
    qed
  qed
  have e: "ents Cp None Ci Cx (iso A) 0 n
             = range_entries A 0 k @ range_entries A (k + 1) n"
    using ents_split [of 0 k n Cp None Ci Cx "iso A"]
      ents_split [of k "k + 1" n Cp None Ci Cx "iso A"] kn e1 e2 e3 by simp
  have "n < length Cp \<and> Cp ! n = cnz"
    using hi [of n] kn ln lcp lcp1 cz by (simp add: anz_def)
  then show ?thesis using run e unfolding ps_def pend_def ajnz_def n_def
    by (intro exI [of _ Cp] exI [of _ Ci] exI [of _ Cx]) simp
qed
subsection \<open>The column selector as a whole\<close>

lemma col_fill_finish:
  assumes cx1: "(if iso A then GB_memcpy (arr (Mx C0)) 0 (arr (Mx A)) 0 1
                 else Inr (arr (Mx C0))) = Inr Cx1"
    and con: "col_construct opc (Mh A \<noteq> None) (iso A) (arr (Mp A)) (arr (Mh A)) (arr (Mi A))
                (arr (Mx A)) k found pstart pend ajnz cnz cnvec
                (arr (Mp C0), arr (Mh C0), arr (Mi C0), Cx1) = Inr (Cp, Ch, Ci, Cx)"
    and cv: "0 \<le> cnvec" "nat cnvec < length Cp" "Cp ! nat cnvec = cnz"
    and e: "ents Cp (if Mh A \<noteq> None then Some Ch else None) Ci Cx (iso A) 0 (nat cnvec) = E"
  shows "\<exists>C. col_fill opc A (iso A) k found pstart pend ajnz cnz cnvec C0
                = Inr \<lparr>sel_info = GrB_SUCCESS, sel_A = A, sel_C = Some C, sel_live = {}\<rparr>
              \<and> entries C = E \<and> nvals C = cnz \<and> nvec C = cnvec
              \<and> vlen C = vlen C0 \<and> vdim C = vdim C0 \<and> mtype C = mtype C0"
proof -
  let ?C = "C0\<lparr>nvec := cnvec, nvals := cnz,
                nvec_nonempty := GB_nvec_nonempty Cp cnvec,
                Mh := (if Mh A \<noteq> None then Some Ch else None),
                Mp := Some Cp, Mi := Some Ci, Mx := Some Cx,
                iso := iso A, jumbled := jumbled A\<rparr>"
  have rdv: "rd Cp cnvec = Inr cnz" using cv by (simp add: rd_def)
  have run: "col_fill opc A (iso A) k found pstart pend ajnz cnz cnvec C0
               = Inr \<lparr>sel_info = GrB_SUCCESS, sel_A = A, sel_C = Some ?C, sel_live = {}\<rparr>"
    unfolding col_fill_def Let_def cx1 bindE_Inr con prod.case rdv ..
  have "entries ?C = E"
    unfolding entries_ents using e by (simp add: arr_def del: not_None_eq)
  then show ?thesis using run by (intro exI [of _ ?C]) simp
qed

lemma iso_value_copy:
  assumes ok: "sparse_ok A" and l: "iso A \<longrightarrow> Cx0 \<noteq> []"
  shows "\<exists>Cx1. (if iso A then GB_memcpy Cx0 0 (arr (Mx A)) 0 1 else Inr Cx0) = Inr Cx1
           \<and> length Cx1 = length Cx0
           \<and> (iso A \<longrightarrow> Cx1 \<noteq> [] \<and> Cx1 ! 0 = arr (Mx A) ! 0)"
proof (cases "iso A")
  case False
  then show ?thesis by simp
next
  case True
  have ax: "arr (Mx A) \<noteq> []" using sparse_ok_lengths(3) [OF ok] True by simp
  have "\<exists>R. GB_memcpy Cx0 0 (arr (Mx A)) 0 1 = Inr R \<and> length R = length Cx0
          \<and> (\<forall>i. i < length Cx0 \<longrightarrow>
                R ! i = (if 0 \<le> int i \<and> int i < 0 + 1
                          then arr (Mx A) ! nat (0 + (int i - 0)) else Cx0 ! i))"
    using ax l True by (intro GB_memcpy_nth) (simp_all add: Suc_le_eq)
  then obtain R where r: "GB_memcpy Cx0 0 (arr (Mx A)) 0 1 = Inr R"
    and lr: "length R = length Cx0"
    and nr: "\<forall>i. i < length Cx0 \<longrightarrow>
                R ! i = (if 0 \<le> int i \<and> int i < 0 + 1
                          then arr (Mx A) ! nat (0 + (int i - 0)) else Cx0 ! i)"
    by blast
  have "0 < length Cx0" using l True by simp
  then have "R ! 0 = arr (Mx A) ! 0" using nr by simp
  moreover have "R \<noteq> []" using lr l True by auto
  ultimately show ?thesis using True r lr by simp
qed
text \<open>
  Lines 398 to 539: whatever the allocated arrays hold, the matrix that the column selector
  builds has the entries of the kept vectors, and its entry count and vector count are the
  ones computed at lines 338 to 361.
\<close>

lemma col_fill_ok:
  assumes ok: "sparse_ok A" and opc: "is_column_opcode opc"
    and kc: "kc = k + (if found then 1 else 0)" "kc \<le> nat (nvec A)"
    and fnd: "Mh A = None \<or> opc = GB_COLINDEX_idxunop_code \<longrightarrow> found"
    and cz: "cnz = (if opc = GB_COLINDEX_idxunop_code
                    then arr (Mp A) ! nat (nvec A) - (arr (Mp A) ! kc - arr (Mp A) ! k)
                    else if opc = GB_COLLE_idxunop_code then arr (Mp A) ! kc
                    else arr (Mp A) ! nat (nvec A) - arr (Mp A) ! kc)"
    and cv: "cnvec = (if opc = GB_COLINDEX_idxunop_code
                      then (if Mh A \<noteq> None \<and> found then nvec A - 1 else nvec A)
                      else if opc = GB_COLLE_idxunop_code
                      then (if Mh A \<noteq> None then int k + (if found then 1 else 0) else nvec A)
                      else nvec A - (if Mh A \<noteq> None then int k + (if found then 1 else 0)
                                     else 0))"
    and l: "nat cnvec < length (arr (Mp C0))"
      "Mh A \<noteq> None \<longrightarrow> nat cnvec \<le> length (arr (Mh C0))"
      "cnz \<le> int (length (arr (Mi C0)))"
      "if iso A then arr (Mx C0) \<noteq> [] else cnz \<le> int (length (arr (Mx C0)))"
  shows "\<exists>C. col_fill opc A (iso A) (int k) found (arr (Mp A) ! k) (arr (Mp A) ! kc)
                (arr (Mp A) ! kc - arr (Mp A) ! k) cnz cnvec C0
                = Inr \<lparr>sel_info = GrB_SUCCESS, sel_A = A, sel_C = Some C, sel_live = {}\<rparr>
              \<and> entries C = col_kept opc A k kc \<and> nvals C = cnz \<and> nvec C = cnvec
              \<and> vlen C = vlen C0 \<and> vdim C = vdim C0 \<and> mtype C = mtype C0"
proof -
  let ?Ap = "arr (Mp A)" and ?Ai = "arr (Mi A)" and ?Ax = "arr (Mx A)"
  define n where "n = nat (nvec A)"
  note sl = sparse_ok_lengths [OF ok, folded n_def]
  have nv: "nvec A = int n" using sl(5) by (simp add: n_def)
  have kn: "kc \<le> n" using kc(2) by (simp add: n_def)
  have ikc: "int k + (if found then 1 else 0) = int kc" using kc(1) by simp
  have l0: "iso A \<longrightarrow> arr (Mx C0) \<noteq> []" using l(4) by simp
  from iso_value_copy [OF ok l0]
  obtain Cx1 where cx1: "(if iso A then GB_memcpy (arr (Mx C0)) 0 ?Ax 0 1
                          else Inr (arr (Mx C0))) = Inr Cx1"
    and lx1: "length Cx1 = length (arr (Mx C0))"
    and vx1: "iso A \<longrightarrow> Cx1 \<noteq> [] \<and> Cx1 ! 0 = ?Ax ! 0"
    by blast
  have lx: "if iso A then Cx1 \<noteq> [] \<and> Cx1 ! 0 = ?Ax ! 0 else cnz \<le> int (length Cx1)"
    using l(4) lx1 vx1 by simp
  have cv0: "0 \<le> cnvec" using cv nv kn kc(1) by (auto split: if_splits)
  have "\<exists>Cp Ch Ci Cx.
          col_construct opc (Mh A \<noteq> None) (iso A) ?Ap (arr (Mh A)) ?Ai ?Ax (int k) found
            (?Ap ! k) (?Ap ! kc) (?Ap ! kc - ?Ap ! k) cnz cnvec
            (arr (Mp C0), arr (Mh C0), arr (Mi C0), Cx1) = Inr (Cp, Ch, Ci, Cx)
          \<and> nat cnvec < length Cp \<and> Cp ! nat cnvec = cnz
          \<and> ents Cp (if Mh A \<noteq> None then Some Ch else None) Ci Cx (iso A) 0 (nat cnvec)
              = col_kept opc A k kc"
  proof (cases "Mh A")
    case None
    then have f: found using fnd by simp
    then have k1: "kc = k + 1" "k + 1 \<le> nat (nvec A)" using kc by simp_all
    have cvn: "cnvec = nvec A" "nat cnvec = nat (nvec A)" using cv None by (auto simp: is_column_opcode_def)
    have lcp: "nat (nvec A) < length (arr (Mp C0))" using l(1) cvn by simp
    from opc consider (ci) "opc = GB_COLINDEX_idxunop_code" | (le) "opc = GB_COLLE_idxunop_code"
      | (gt) "opc = GB_COLGT_idxunop_code" by (auto simp: is_column_opcode_def)
    then show ?thesis
    proof cases
      case ci
      have c: "cnz = ?Ap ! nat (nvec A) - (?Ap ! (k + 1) - ?Ap ! k)" using cz ci k1 by simp
      from construct_COLINDEX_sparse [OF ok None k1(2) c lcp l(3) lx, of "arr (Mh A)" "arr (Mh C0)"]
      show ?thesis using ci None k1 f cvn
        by (auto simp: col_construct_def col_kept_def)
    next
      case le
      have c: "cnz = ?Ap ! (k + 1)" using cz le k1 by simp
      from construct_COLLE_sparse [OF ok None k1(2) lcp l(3) [unfolded c] lx [unfolded c],
          of "arr (Mh A)" "arr (Mh C0)"]
      show ?thesis using le None k1 f cvn c
        by (auto simp: col_construct_def col_kept_def)
    next
      case gt
      have c: "cnz = ?Ap ! nat (nvec A) - ?Ap ! (k + 1)" using cz gt k1 by simp
      from construct_COLGT_sparse [OF ok None k1(2) lcp l(3) [unfolded c] lx [unfolded c],
          of "arr (Mh A)" "arr (Mh C0)"]
      show ?thesis using gt None k1 f cvn c
        by (auto simp: col_construct_def col_kept_def)
    qed
  next
    case (Some Ah)
    have ah: "arr (Mh A) = Ah" using Some by (simp add: arr_def)
    have lch: "nat cnvec \<le> length (arr (Mh C0))" using l(2) Some by simp
    from opc consider (ci) "opc = GB_COLINDEX_idxunop_code" | (le) "opc = GB_COLLE_idxunop_code"
      | (gt) "opc = GB_COLGT_idxunop_code" by (auto simp: is_column_opcode_def)
    then show ?thesis
    proof cases
      case ci
      then have f: found using fnd by simp
      then have k1: "kc = k + 1" "k + 1 \<le> nat (nvec A)" using kc by simp_all
      have c: "cnz = ?Ap ! nat (nvec A) - (?Ap ! (k + 1) - ?Ap ! k)" using cz ci k1 by simp
      have cvn: "cnvec = nvec A - 1" "nat cnvec = nat (nvec A) - 1"
        using cv ci Some f by simp_all
      from construct_COLINDEX_hyper [OF ok Some k1(2) c l(1) [unfolded cvn(2)]
          lch [unfolded cvn(2)] l(3) lx]
      show ?thesis using ci Some k1 f cvn ah
        by (auto simp: col_construct_def col_kept_def)
    next
      case le
      have c: "cnz = ?Ap ! kc" using cz le by simp
      have cvn: "cnvec = int kc" "nat cnvec = kc" using cv le Some ikc by simp_all
      from construct_COLLE_hyper [OF ok Some kc(2) l(1) [unfolded cvn(2)]
          lch [unfolded cvn(2)] l(3) [unfolded c] lx [unfolded c], of "int k" found]
      show ?thesis using le Some cvn c ah
        by (auto simp: col_construct_def col_kept_def)
    next
      case gt
      have c: "cnz = ?Ap ! nat (nvec A) - ?Ap ! kc" using cz gt by simp
      have cvn1: "cnvec = nvec A - int kc" using cv gt Some ikc by simp
      have cvn2: "nat cnvec = nat (nvec A) - kc" unfolding cvn1 by arith
      note cvn = cvn1 cvn2
      from construct_COLGT_hyper [OF ok Some kc l(1) [unfolded cvn(2)]
          lch [unfolded cvn(2)] l(3) [unfolded c] lx [unfolded c]]
      show ?thesis using gt Some cvn c ah
        by (auto simp: col_construct_def col_kept_def)
    qed
  qed
  then obtain Cp Ch Ci Cx where
    con: "col_construct opc (Mh A \<noteq> None) (iso A) ?Ap (arr (Mh A)) ?Ai ?Ax (int k) found
            (?Ap ! k) (?Ap ! kc) (?Ap ! kc - ?Ap ! k) cnz cnvec
            (arr (Mp C0), arr (Mh C0), arr (Mi C0), Cx1) = Inr (Cp, Ch, Ci, Cx)"
    and len: "nat cnvec < length Cp" and val: "Cp ! nat cnvec = cnz"
    and e: "ents Cp (if Mh A \<noteq> None then Some Ch else None) Ci Cx (iso A) 0 (nat cnvec)
              = col_kept opc A k kc"
    by blast
  show ?thesis by (rule col_fill_finish [OF cx1 con cv0 len val e])
qed
lemma new_bix_arrays:
  assumes "mem env Alloc_new_bix"
  shows "\<exists>C0. GB_new_bix env t vl vd hyper cnvec cnz ciso = (GrB_SUCCESS, Some C0)
           \<and> vlen C0 = vl \<and> vdim C0 = vd \<and> mtype C0 = t
           \<and> length (arr (Mp C0)) = nat (if hyper then GB_IMIN cnvec vd else vd) + 1
           \<and> (hyper \<longrightarrow> length (arr (Mh C0)) = nat (GB_IMIN cnvec vd))
           \<and> length (arr (Mi C0)) = nat (GB_IMAX cnz 1)
           \<and> length (arr (Mx C0)) = (if ciso then 1 else nat (GB_IMAX cnz 1))"
  using assms by (simp add: GB_new_bix_def Let_def arr_def)

text \<open>
  When the column was not found, or the matrix is sparse and the column is out of range,
  the output is a shallow copy or empty and nothing is built (lines 363 to 374).
\<close>

lemma found_when_built:
  assumes ok: "sparse_ok A" and opc: "is_column_opcode opc"
    and kc: "kc = k + (if found then 1 else 0)" "kc \<le> nat (nvec A)"
    and lo: "\<forall>m. m < k \<longrightarrow> GBH (Mh A) m < j"
    and hi: "\<forall>m. kc \<le> m \<and> m < nat (nvec A) \<longrightarrow> j < GBH (Mh A) m"
    and cz: "cnz = (if opc = GB_COLINDEX_idxunop_code
                    then arr (Mp A) ! nat (nvec A) - (arr (Mp A) ! kc - arr (Mp A) ! k)
                    else if opc = GB_COLLE_idxunop_code then arr (Mp A) ! kc
                    else arr (Mp A) ! nat (nvec A) - arr (Mp A) ! kc)"
    and ne: "cnz \<noteq> arr (Mp A) ! nat (nvec A)" "cnz \<noteq> 0"
  shows "Mh A = None \<or> opc = GB_COLINDEX_idxunop_code \<longrightarrow> found"
proof (intro impI, rule ccontr)
  assume a: "Mh A = None \<or> opc = GB_COLINDEX_idxunop_code" and nf: "\<not> found"
  have kk: "kc = k" using kc(1) nf by simp
  have z: "arr (Mp A) ! 0 = 0" using sparse_ok_lengths(6) [OF ok] .
  show False
  proof (cases "opc = GB_COLINDEX_idxunop_code")
    case True
    then show False using cz ne(1) kk by simp
  next
    case False
    then have none: "Mh A = None" using a by simp
    have "k = 0 \<or> k = nat (nvec A)"
    proof (rule ccontr)
      assume "\<not> (k = 0 \<or> k = nat (nvec A))"
      then have b: "0 < k" "k < nat (nvec A)" using kc(2) kk by simp_all
      have "GBH (Mh A) (k - 1) < j" using lo b by simp
      moreover have "j < GBH (Mh A) k" using hi b kk by simp
      ultimately show False using none b by (simp add: GBH_def)
    qed
    then show False using cz ne kk z False opc by (auto simp: is_column_opcode_def)
  qed
qed

lemma col_build_ok:
  assumes ok: "sparse_ok A" and opc: "is_column_opcode opc"
    and kc: "kc = k + (if found then 1 else 0)" "kc \<le> nat (nvec A)"
    and f: "found \<longrightarrow> GBH (Mh A) k = j"
    and lo: "\<forall>m. m < k \<longrightarrow> GBH (Mh A) m < j"
    and hi: "\<forall>m. kc \<le> m \<and> m < nat (nvec A) \<longrightarrow> j < GBH (Mh A) m"
    and cz: "cnz = (if opc = GB_COLINDEX_idxunop_code
                    then arr (Mp A) ! nat (nvec A) - (arr (Mp A) ! kc - arr (Mp A) ! k)
                    else if opc = GB_COLLE_idxunop_code then arr (Mp A) ! kc
                    else arr (Mp A) ! nat (nvec A) - arr (Mp A) ! kc)"
    and cv: "cnvec = (if opc = GB_COLINDEX_idxunop_code
                      then (if Mh A \<noteq> None \<and> found then nvec A - 1 else nvec A)
                      else if opc = GB_COLLE_idxunop_code
                      then (if Mh A \<noteq> None then int k + (if found then 1 else 0) else nvec A)
                      else nvec A - (if Mh A \<noteq> None then int k + (if found then 1 else 0)
                                     else 0))"
    and m: "mem env Alloc_shallow_copy" "mem env Alloc_new" "mem env Alloc_new_bix"
  shows "\<exists>C. col_build env opc A (iso A) (int k) found
                (arr (Mp A) ! k, arr (Mp A) ! kc, arr (Mp A) ! kc - arr (Mp A) ! k,
                 arr (Mp A) ! nat (nvec A), cnz, cnvec)
                = Inr \<lparr>sel_info = GrB_SUCCESS, sel_A = A, sel_C = Some C, sel_live = {}\<rparr>
              \<and> entries C = filter (\<lambda>(i, c, x). col_keeps opc j c) (entries A)
              \<and> nvals C = cnz
              \<and> (cnz \<noteq> nvals A \<and> cnz \<noteq> 0 \<longrightarrow> nvec C = cnvec)
              \<and> vlen C = vlen A \<and> vdim C = vdim A \<and> mtype C = mtype A"
proof -
  let ?Ap = "arr (Mp A)"
  let ?P = "\<lambda>(i, c, x). col_keeps opc j c"
  let ?build = "col_build env opc A (iso A) (int k) found
                (?Ap ! k, ?Ap ! kc, ?Ap ! kc - ?Ap ! k, ?Ap ! nat (nvec A), cnz, cnvec)"
  have kk: "k \<le> kc" using kc(1) by simp
  have nva: "nvals A = ?Ap ! nat (nvec A)" using ok by (simp add: sparse_ok_def Let_def)
  have fk: "filter ?P (entries A) = col_kept opc A k kc"
    by (rule filter_col_kept [OF ok opc kc f lo hi])
  have len: "int (length (filter ?P (entries A))) = cnz"
    unfolding fk using length_col_kept [OF ok opc kk kc(2)] cz by (simp add: Let_def)
  have lenA: "int (length (entries A)) = ?Ap ! nat (nvec A)"
    using length_range_entries [OF ok, of 0 "nat (nvec A)"] sparse_ok_lengths(6) [OF ok]
    by (simp add: entries_range)
  show ?thesis
  proof (cases "cnz = ?Ap ! nat (nvec A)")
    case True
    let ?C = "A\<lparr>p_shallow := (Mp A \<noteq> None), h_shallow := (Mh A \<noteq> None),
                b_shallow := (Mb A \<noteq> None), i_shallow := (Mi A \<noteq> None),
                x_shallow := (Mx A \<noteq> None)\<rparr>"
    have sc: "GB_shallow_copy env A = (GrB_SUCCESS, Some ?C)"
      using m(1) by (simp add: GB_shallow_copy_def del: not_None_eq)
    have run: "?build = Inr \<lparr>sel_info = GrB_SUCCESS, sel_A = A, sel_C = Some ?C,
                             sel_live = {}\<rparr>"
      using True by (simp add: col_build_def sc sel_return_def del: not_None_eq)
    have "length (filter ?P (entries A)) = length (entries A)"
      using len lenA True by simp
    then have "filter ?P (entries A) = entries A" by (rule filter_same_length)
    then have e: "entries ?C = filter ?P (entries A)"
      using entries_shallow_copy [OF sc] by simp
    have "nvals ?C = cnz" using True nva by simp
    then show ?thesis using run e True nva
      by (intro exI [of _ ?C]) (simp del: not_None_eq)
  next
    case ne: False
    show ?thesis
    proof (cases "cnz = 0")
      case True
      obtain C where nw: "GB_new_empty env (mtype A) (vlen A) (vdim A) = (GrB_SUCCESS, Some C)"
        using m(2) by (cases "auto_hyper env (vdim A)") (simp_all add: GB_new_empty_def)
      have run: "?build = Inr \<lparr>sel_info = GrB_SUCCESS, sel_A = A, sel_C = Some C,
                               sel_live = {}\<rparr>"
        using True ne by (simp add: col_build_def nw sel_return_def)
      have "filter ?P (entries A) = []" using len True by simp
      then have e: "entries C = filter ?P (entries A)"
        using entries_new_empty [OF nw] by simp
      show ?thesis using run e True shape_of_helpers(2) [OF nw]
        by (intro exI [of _ C]) simp
    next
      case nz: False
      have fnd: "Mh A = None \<or> opc = GB_COLINDEX_idxunop_code \<longrightarrow> found"
        by (rule found_when_built [OF ok opc kc lo hi cz ne nz])
      from new_bix_arrays [OF m(3), of "mtype A" "vlen A" "vdim A" "Mh A \<noteq> None" cnvec cnz
          "iso A"]
      obtain C0 where nb: "GB_new_bix env (mtype A) (vlen A) (vdim A) (Mh A \<noteq> None) cnvec cnz
                             (iso A) = (GrB_SUCCESS, Some C0)"
        and sh: "vlen C0 = vlen A" "vdim C0 = vdim A" "mtype C0 = mtype A"
        and lp: "length (arr (Mp C0))
                   = nat (if Mh A \<noteq> None then GB_IMIN cnvec (vdim A) else vdim A) + 1"
        and lh: "Mh A \<noteq> None \<longrightarrow> length (arr (Mh C0)) = nat (GB_IMIN cnvec (vdim A))"
        and li: "length (arr (Mi C0)) = nat (GB_IMAX cnz 1)"
        and lx: "length (arr (Mx C0)) = (if iso A then 1 else nat (GB_IMAX cnz 1))"
        by blast
      have nvd: "nvec A \<le> vdim A" by (rule hyper_nvec_le_vdim [OF ok])
      have nv0: "0 \<le> nvec A" using sparse_ok_lengths(5) [OF ok] .
      have ikc: "int kc \<le> nvec A" using kc(2) nv0 by arith
      have ikk: "int k + (if found then 1 else 0) = int kc" using kc(1) by simp
      have cvb: "cnvec \<le> nvec A"
        using cv ikc ikk opc by (auto simp: is_column_opcode_def split: if_splits)
      have cvs: "Mh A = None \<longrightarrow> cnvec = vdim A"
        using cv opc ok by (auto simp: is_column_opcode_def sparse_ok_def Let_def)
      have l1: "nat cnvec < length (arr (Mp C0))"
        using lp cvb nvd cvs by (auto simp: GB_IMIN_def)
      have l2: "Mh A \<noteq> None \<longrightarrow> nat cnvec \<le> length (arr (Mh C0))"
        using lh cvb nvd by (auto simp: GB_IMIN_def)
      have l3: "cnz \<le> int (length (arr (Mi C0)))" using li by (simp add: GB_IMAX_def)
      have l4: "if iso A then arr (Mx C0) \<noteq> [] else cnz \<le> int (length (arr (Mx C0)))"
        using lx by (auto simp: GB_IMAX_def)
      from col_fill_ok [OF ok opc kc fnd cz cv l1 l2 l3 l4]
      obtain C where cf: "col_fill opc A (iso A) (int k) found (?Ap ! k) (?Ap ! kc)
                (?Ap ! kc - ?Ap ! k) cnz cnvec C0
                = Inr \<lparr>sel_info = GrB_SUCCESS, sel_A = A, sel_C = Some C, sel_live = {}\<rparr>"
        and e: "entries C = col_kept opc A k kc"
        and c: "nvals C = cnz" "nvec C = cnvec" "vlen C = vlen C0" "vdim C = vdim C0"
          "mtype C = mtype C0"
        by blast
      have run: "?build = Inr \<lparr>sel_info = GrB_SUCCESS, sel_A = A, sel_C = Some C,
                               sel_live = {}\<rparr>"
        using ne nz cf by (simp add: col_build_def nb del: not_None_eq)
      show ?thesis using run e c sh fk by (intro exI [of _ C]) simp
    qed
  qed
qed

text \<open>
  The column selector: the lookup, the counts and the construction give a matrix that
  holds the entries of \<open>A\<close> in the columns that the operator keeps.
\<close>

lemma select_column_ok:
  assumes ok: "sparse_ok A" and opc: "is_column_opcode opc"
    and m: "mem env Alloc_shallow_copy" "mem env Alloc_new" "mem env Alloc_new_bix"
  shows "\<exists>C k found.
           GB_select_column env True opc A ithunk (iso A)
             = Inr \<lparr>sel_info = GrB_SUCCESS, sel_A = A, sel_C = Some C, sel_live = {}\<rparr>
           \<and> col_find opc ithunk (vdim A) (nvec A) (Mh A) = Inr (int k, found)
           \<and> k + (if found then 1 else 0) \<le> nat (nvec A)
           \<and> (found \<longrightarrow> GBH (Mh A) k = col_thunk opc ithunk)
           \<and> (\<forall>m. m < k \<longrightarrow> GBH (Mh A) m < col_thunk opc ithunk)
           \<and> (\<forall>m. k + (if found then 1 else 0) \<le> m \<and> m < nat (nvec A)
                  \<longrightarrow> col_thunk opc ithunk < GBH (Mh A) m)
           \<and> entries C = col_kept opc A k (k + (if found then 1 else 0))
           \<and> entries C = filter (\<lambda>(i, c, x). col_keeps opc (col_thunk opc ithunk) c)
                            (entries A)
           \<and> nvals C = int (length (entries C))
           \<and> nvals C =
               (let Ap = arr (Mp A); pstart = Ap ! k;
                    pend = Ap ! (k + (if found then 1 else 0)); anz = Ap ! nat (nvec A)
                in if opc = GB_COLINDEX_idxunop_code then anz - (pend - pstart)
                   else if opc = GB_COLLE_idxunop_code then pend else anz - pend)
           \<and> (nvals C \<noteq> nvals A \<and> nvals C \<noteq> 0 \<longrightarrow>
                nvec C =
                  (if opc = GB_COLINDEX_idxunop_code
                   then (if Mh A \<noteq> None \<and> found then nvec A - 1 else nvec A)
                   else if opc = GB_COLLE_idxunop_code
                   then (if Mh A \<noteq> None then int k + (if found then 1 else 0) else nvec A)
                   else nvec A - (if Mh A \<noteq> None then int k + (if found then 1 else 0)
                                  else 0)))
           \<and> vlen C = vlen A \<and> vdim C = vdim A \<and> mtype C = mtype A"
proof -
  let ?Ap = "arr (Mp A)" and ?j = "col_thunk opc ithunk"
  from col_find_ok [OF ok, of opc ithunk]
  obtain k found where cf: "col_find opc ithunk (vdim A) (nvec A) (Mh A) = Inr (int k, found)"
    and kcn: "k + (if found then 1 else 0) \<le> nat (nvec A)"
    and f: "found \<longrightarrow> GBH (Mh A) k = ?j"
    and lo: "\<forall>m. m < k \<longrightarrow> GBH (Mh A) m < ?j"
    and hi: "\<forall>m. k + (if found then 1 else 0) \<le> m \<and> m < nat (nvec A) \<longrightarrow> ?j < GBH (Mh A) m"
    by blast
  define kc where "kc = k + (if found then 1 else 0)"
  define cnz where "cnz = (if opc = GB_COLINDEX_idxunop_code
                    then ?Ap ! nat (nvec A) - (?Ap ! kc - ?Ap ! k)
                    else if opc = GB_COLLE_idxunop_code then ?Ap ! kc
                    else ?Ap ! nat (nvec A) - ?Ap ! kc)"
  define cnvec where "cnvec = (if opc = GB_COLINDEX_idxunop_code
                      then (if Mh A \<noteq> None \<and> found then nvec A - 1 else nvec A)
                      else if opc = GB_COLLE_idxunop_code
                      then (if Mh A \<noteq> None then int k + (if found then 1 else 0) else nvec A)
                      else nvec A - (if Mh A \<noteq> None then int k + (if found then 1 else 0)
                                     else 0))"
  have kc2: "kc \<le> nat (nvec A)" using kcn by (simp add: kc_def)
  have hik: "\<forall>m. kc \<le> m \<and> m < nat (nvec A) \<longrightarrow> ?j < GBH (Mh A) m"
    using hi by (simp add: kc_def)
  have cc: "col_counts opc (Mh A \<noteq> None) ?Ap (nvec A) (int k) found
              = Inr (?Ap ! k, ?Ap ! kc, ?Ap ! kc - ?Ap ! k, ?Ap ! nat (nvec A), cnz, cnvec)"
    unfolding col_counts_ok [OF ok kcn] Let_def cnz_def cnvec_def kc_def ..
  from col_build_ok [OF ok opc kc_def kc2 f lo hik cnz_def cnvec_def m]
  obtain C where cb: "col_build env opc A (iso A) (int k) found
                (?Ap ! k, ?Ap ! kc, ?Ap ! kc - ?Ap ! k, ?Ap ! nat (nvec A), cnz, cnvec)
                = Inr \<lparr>sel_info = GrB_SUCCESS, sel_A = A, sel_C = Some C, sel_live = {}\<rparr>"
    and e: "entries C = filter (\<lambda>(i, c, x). col_keeps opc ?j c) (entries A)"
    and c: "nvals C = cnz" "cnz \<noteq> nvals A \<and> cnz \<noteq> 0 \<longrightarrow> nvec C = cnvec"
      "vlen C = vlen A" "vdim C = vdim A" "mtype C = mtype A"
    by blast
  have run: "GB_select_column env True opc A ithunk (iso A)
               = Inr \<lparr>sel_info = GrB_SUCCESS, sel_A = A, sel_C = Some C, sel_live = {}\<rparr>"
    unfolding GB_select_column_def using cf cc cb by simp
  have kk: "k \<le> kc" by (simp add: kc_def)
  have len: "int (length (entries C)) = cnz"
    unfolding e filter_col_kept [OF ok opc kc_def kc2 f lo hik]
    using length_col_kept [OF ok opc kk kc2] by (simp add: Let_def cnz_def)
  have ek: "entries C = col_kept opc A k kc"
    unfolding e by (rule filter_col_kept [OF ok opc kc_def kc2 f lo hik])
  show ?thesis
    using run cf e ek c len kcn f lo hi
    by (intro exI [of _ C] exI [of _ k] exI [of _ found])
       (simp add: Let_def cnz_def cnvec_def kc_def)
qed


section \<open>The general two-phase path\<close>

subsection \<open>Phase 1 and the cumulative sum\<close>

lemma phase1_counts:
  "GB_select_phase1 op flipij A
     = map (\<lambda>k. int (length (kept_positions op flipij A k))) [0 ..< nat (nvec A)]"
  by (simp add: GB_select_phase1_def kept_positions_def)

lemma cumsum_nth:
  "k \<le> length cs \<Longrightarrow> GB_cumsum s cs ! k = s + sum_list (take k cs)"
proof (induction cs arbitrary: s k)
  case Nil
  then show ?case by simp
next
  case (Cons c cs)
  show ?case
  proof (cases k)
    case 0
    then show ?thesis by simp
  next
    case (Suc k')
    then have "k' \<le> length cs" using Cons.prems by simp
    from Cons.IH [OF this, of "s + c"] show ?thesis using Suc by simp
  qed
qed

lemma length_kept_upto:
  "int (length (kept_upto op flipij A m))
     = sum_list (map (\<lambda>k. int (length (kept_positions op flipij A k))) [0 ..< m])"
  by (induction m) (simp_all add: kept_upto_def)

lemma kept_upto_Suc:
  "kept_upto op flipij A (Suc m) = kept_upto op flipij A m @ kept_positions op flipij A m"
  by (simp add: kept_upto_def)

lemma kept_upto_mono:
  "m \<le> m' \<Longrightarrow> length (kept_upto op flipij A m) \<le> length (kept_upto op flipij A m')"
proof (induction m')
  case 0
  then show ?case by simp
next
  case (Suc m')
  then show ?case by (cases "m = Suc m'") (simp_all add: kept_upto_Suc)
qed

lemma sum_phase1:
  "sum_list (GB_select_phase1 op flipij A)
     = int (length (kept_upto op flipij A (nat (nvec A))))"
  by (simp add: phase1_counts length_kept_upto)

text \<open>
  After the cumulative sum, \<open>Cp [k]\<close> is the number of entries kept in the vectors
  before the \<open>k\<close>-th; \<open>Cp [anvec]\<close> is the sum of the counts of phase 1.
\<close>

lemma merge2_nth:
  assumes "k \<le> nat (nvec A)"
  shows "snd (GB_ek_slice_merge2 (GB_select_phase1 op flipij A) cplen) ! k
           = int (length (kept_upto op flipij A k))"
proof -
  let ?cs = "GB_select_phase1 op flipij A"
  have l: "k < length (GB_cumsum 0 ?cs)" using assms by simp
  have "snd (GB_ek_slice_merge2 ?cs cplen) ! k = GB_cumsum 0 ?cs ! k"
    using l by (simp add: GB_ek_slice_merge2_def nth_append)
  also have "\<dots> = sum_list (take k ?cs)" using assms by (simp add: cumsum_nth)
  also have "take k ?cs
               = map (\<lambda>k. int (length (kept_positions op flipij A k))) [0 ..< k]"
    using assms by (simp add: phase1_counts take_map)
  finally show ?thesis by (simp add: length_kept_upto)
qed

lemma merge2_nonempty:
  "fst (GB_ek_slice_merge2 (GB_select_phase1 op flipij A) cplen)
     = int (length (filter (\<lambda>k. kept_positions op flipij A k \<noteq> []) [0 ..< nat (nvec A)]))"
  by (simp add: GB_ek_slice_merge2_def phase1_counts filter_map comp_def)

subsection \<open>Phase 2\<close>

lemma phase2_inner:
  assumes "pC + length (filter (keep_at op flipij A k) ps) \<le> length Ci"
    and "\<not> C_iso \<longrightarrow> pC + length (filter (keep_at op flipij A k) ps) \<le> length Cx"
  shows "foldl (phase2_entry op flipij A C_iso k) (pC, Ci, Cx) ps
           = (pC + length (filter (keep_at op flipij A k) ps),
              take pC Ci @ map (\<lambda>p. arr (Mi A) ! p) (filter (keep_at op flipij A k) ps)
                @ drop (pC + length (filter (keep_at op flipij A k) ps)) Ci,
              if C_iso then Cx
              else take pC Cx @ map (\<lambda>p. arr (Mx A) ! p) (filter (keep_at op flipij A k) ps)
                     @ drop (pC + length (filter (keep_at op flipij A k) ps)) Cx)"
  using assms
proof (induction ps arbitrary: pC Ci Cx)
  case Nil
  then show ?case by simp
next
  case (Cons p ps)
  let ?K = "filter (keep_at op flipij A k) ps"
  show ?case
  proof (cases "keep_at op flipij A k p")
    case False
    then show ?thesis using Cons by (simp add: phase2_entry_def)
  next
    case True
    let ?Ci = "Ci[pC := arr (Mi A) ! p]"
    let ?Cx = "if C_iso then Cx else Cx[pC := arr (Mx A) ! p]"
    have lc: "pC < length Ci" "Suc pC + length ?K \<le> length ?Ci"
      using Cons.prems(1) True by simp_all
    have lx: "\<not> C_iso \<longrightarrow> pC < length Cx \<and> Suc pC + length ?K \<le> length ?Cx"
      using Cons.prems(2) True by auto
    have st: "phase2_entry op flipij A C_iso k (pC, Ci, Cx) p = (Suc pC, ?Ci, ?Cx)"
      using True by (simp add: phase2_entry_def)
    have lx': "\<not> C_iso \<longrightarrow> Suc pC + length ?K \<le> length ?Cx" using lx by simp
    note IH = Cons.IH [OF lc(2) lx']
    have t1: "take (Suc pC) ?Ci = take pC Ci @ [arr (Mi A) ! p]"
      using lc(1) by (simp add: take_Suc_conv_app_nth)
    have t2: "drop (Suc pC + length ?K) ?Ci = drop (Suc pC + length ?K) Ci" by simp
    have t3: "\<not> C_iso \<Longrightarrow> take (Suc pC) ?Cx = take pC Cx @ [arr (Mx A) ! p]"
      using lx by (simp add: take_Suc_conv_app_nth)
    have t4: "\<not> C_iso \<Longrightarrow> drop (Suc pC + length ?K) ?Cx = drop (Suc pC + length ?K) Cx"
      by simp
    have f: "foldl (phase2_entry op flipij A C_iso k) (pC, Ci, Cx) (p # ps)
               = foldl (phase2_entry op flipij A C_iso k) (Suc pC, ?Ci, ?Cx) ps"
      by (simp add: st)
    show ?thesis
    proof (cases C_iso)
      case ci: True
      show ?thesis unfolding f IH using True ci t1 t2 by simp
    next
      case ci: False
      show ?thesis unfolding f IH using True ci t1 t2 t3 [OF ci] t4 [OF ci] by simp
    qed
  qed
qed

lemma drop_append_exact: "length xs = a \<Longrightarrow> drop (a + b) (xs @ ys) = drop b ys"
  by simp

lemma take_append_exact: "length xs = a \<Longrightarrow> take a (xs @ ys) = xs"
  by simp

lemma phase2_outer:
  assumes cp: "\<And>k. k \<le> n \<Longrightarrow> nat (Cp ! k) = length (kept_upto op flipij A k)"
    and m: "m \<le> n"
    and cap: "length (kept_upto op flipij A n) \<le> length Ci0"
      "\<not> C_iso \<longrightarrow> length (kept_upto op flipij A n) \<le> length Cx0"
  shows "foldl (phase2_vector op flipij A C_iso Cp) (Ci0, Cx0) [0 ..< m]
           = (map (\<lambda>p. arr (Mi A) ! p) (kept_upto op flipij A m)
                @ drop (length (kept_upto op flipij A m)) Ci0,
              if C_iso then Cx0
              else map (\<lambda>p. arr (Mx A) ! p) (kept_upto op flipij A m)
                     @ drop (length (kept_upto op flipij A m)) Cx0)"
  using m
proof (induction m)
  case 0
  then show ?case by (simp add: kept_upto_def)
next
  case (Suc m)
  let ?L = "kept_upto op flipij A m" and ?K = "kept_positions op flipij A m"
  let ?Ci = "map (\<lambda>p. arr (Mi A) ! p) ?L @ drop (length ?L) Ci0"
  let ?Cx = "if C_iso then Cx0
             else map (\<lambda>p. arr (Mx A) ! p) ?L @ drop (length ?L) Cx0"
  have IH: "foldl (phase2_vector op flipij A C_iso Cp) (Ci0, Cx0) [0 ..< m] = (?Ci, ?Cx)"
    using Suc by simp
  have le: "length ?L + length ?K \<le> length (kept_upto op flipij A n)"
    using kept_upto_mono [of "Suc m" n op flipij A] Suc.prems by (simp add: kept_upto_Suc)
  have lci: "length ?Ci = length Ci0" using le cap(1) by simp
  have lcx: "\<not> C_iso \<longrightarrow> length ?Cx = length Cx0" using le cap(2) by auto
  have pc: "nat (Cp ! m) = length ?L" using cp [of m] Suc.prems by simp
  have pre1: "length ?L + length (filter (keep_at op flipij A m)
                (vec_positions (arr (Mp A)) m)) \<le> length ?Ci"
    using le cap(1) lci by (simp add: kept_positions_def)
  have pre2: "\<not> C_iso \<longrightarrow> length ?L + length (filter (keep_at op flipij A m)
                (vec_positions (arr (Mp A)) m)) \<le> length ?Cx"
    using le cap(2) lcx by (auto simp add: kept_positions_def)
  note inner = phase2_inner [OF pre1 pre2, folded kept_positions_def]
  have a1: "take (length ?L) ?Ci = map (\<lambda>p. arr (Mi A) ! p) ?L" by simp
  have a2: "drop (length ?L + length ?K) ?Ci = drop (length ?L + length ?K) Ci0"
    by (simp add: add.commute)
  have a3: "\<not> C_iso \<Longrightarrow> take (length ?L) ?Cx = map (\<lambda>p. arr (Mx A) ! p) ?L" by simp
  have a4: "\<not> C_iso \<Longrightarrow> drop (length ?L + length ?K) ?Cx
              = drop (length ?L + length ?K) Cx0"
    by (simp add: add.commute)
  have step: "phase2_vector op flipij A C_iso Cp (?Ci, ?Cx) m
           = (map (\<lambda>p. arr (Mi A) ! p) (?L @ ?K) @ drop (length (?L @ ?K)) Ci0,
              if C_iso then Cx0
              else map (\<lambda>p. arr (Mx A) ! p) (?L @ ?K) @ drop (length (?L @ ?K)) Cx0)"
  proof (cases C_iso)
    case True
    show ?thesis
      unfolding phase2_vector_def fst_conv snd_conv pc inner
      using True a1 a2 by simp
  next
    case False
    show ?thesis
      unfolding phase2_vector_def fst_conv snd_conv pc inner
      using False a1 a2 a3 [OF False] a4 [OF False] by simp
  qed
  show ?case
    using IH step by (simp add: kept_upto_Suc)
qed
subsection \<open>Reading the output back\<close>

lemma kept_upto_prefix:
  "m \<le> n \<Longrightarrow> \<exists>r. kept_upto op flipij A n = kept_upto op flipij A m @ r"
proof (induction n)
  case 0
  then show ?case by simp
next
  case (Suc n)
  show ?case
  proof (cases "m = Suc n")
    case True
    then show ?thesis by simp
  next
    case False
    then have "m \<le> n" using Suc.prems by simp
    from Suc.IH [OF this] obtain r where "kept_upto op flipij A n = kept_upto op flipij A m @ r"
      by blast
    then show ?thesis by (simp add: kept_upto_Suc)
  qed
qed

lemma kept_upto_nth:
  assumes "k < n" and "i < length (kept_positions op flipij A k)"
  shows "length (kept_upto op flipij A k) + i < length (kept_upto op flipij A n)"
    and "kept_upto op flipij A n ! (length (kept_upto op flipij A k) + i)
           = kept_positions op flipij A k ! i"
proof -
  from kept_upto_prefix [of "Suc k" n op flipij A] assms(1)
  obtain r where r: "kept_upto op flipij A n
      = (kept_upto op flipij A k @ kept_positions op flipij A k) @ r"
    by (auto simp: kept_upto_Suc)
  show "length (kept_upto op flipij A k) + i < length (kept_upto op flipij A n)"
    using assms(2) by (simp add: r)
  have "kept_upto op flipij A n ! (length (kept_upto op flipij A k) + i)
          = (kept_upto op flipij A k @ kept_positions op flipij A k)
              ! (length (kept_upto op flipij A k) + i)"
    unfolding r using assms(2) by (simp add: nth_append)
  also have "\<dots> = kept_positions op flipij A k ! i" by simp
  finally show "kept_upto op flipij A n ! (length (kept_upto op flipij A k) + i)
           = kept_positions op flipij A k ! i" .
qed

lemma filter_vec_entries:
  "filter (\<lambda>(i, j, x). entry_keep op flipij i j x) (vec_entries A k)
     = map (\<lambda>p. (arr (Mi A) ! p, GBH (Mh A) k, aval (iso A) (arr (Mx A)) p))
         (kept_positions op flipij A k)"
  by (simp add: vec_entries_def kept_positions_def filter_map comp_def keep_at_def [abs_def])

lemma filter_entries:
  "filter (\<lambda>(i, j, x). entry_keep op flipij i j x) (entries A)
     = concat (map (\<lambda>k. filter (\<lambda>(i, j, x). entry_keep op flipij i j x) (vec_entries A k))
         [0 ..< nat (nvec A)])"
  by (simp add: entries_def filter_concat comp_def)

lemma length_filter_entries:
  "length (filter (\<lambda>(i, j, x). entry_keep op flipij i j x) (entries A))
     = length (kept_upto op flipij A (nat (nvec A)))"
proof -
  have "\<And>m. length (concat (map (\<lambda>k. filter (\<lambda>(i, j, x). entry_keep op flipij i j x)
            (vec_entries A k)) [0 ..< m])) = length (kept_upto op flipij A m)"
  proof -
    fix m
    show "length (concat (map (\<lambda>k. filter (\<lambda>(i, j, x). entry_keep op flipij i j x)
            (vec_entries A k)) [0 ..< m])) = length (kept_upto op flipij A m)"
      by (induction m) (simp_all add: kept_upto_Suc filter_vec_entries, simp add: kept_upto_def)
  qed
  then show ?thesis by (simp add: filter_entries)
qed

text \<open>
  A vector of the output, read back through the offsets of the cumulative sum, holds the
  entries of the vector of \<open>A\<close> that the operator keeps, in their order.
\<close>

lemma vent_general:
  assumes k: "k < n"
    and cp: "Cp ! k = int (length (kept_upto op flipij A k))"
      "Cp ! Suc k = int (length (kept_upto op flipij A (Suc k)))"
    and ci: "\<And>q. q < length (kept_upto op flipij A n)
               \<Longrightarrow> Ci ! q = arr (Mi A) ! (kept_upto op flipij A n ! q)"
    and cx: "\<And>q. q < length (kept_upto op flipij A n)
               \<Longrightarrow> aval C_iso Cx q = aval (iso A) (arr (Mx A)) (kept_upto op flipij A n ! q)"
    and h: "GBH Ch k = GBH (Mh A) k"
  shows "vent Cp Ch Ci Cx C_iso k
           = filter (\<lambda>(i, j, x). entry_keep op flipij i j x) (vec_entries A k)"
proof -
  let ?L = "kept_upto op flipij A k" and ?K = "kept_positions op flipij A k"
  have vp: "vec_positions Cp k = [length ?L ..< length ?L + length ?K]"
  proof -
    have "nat (int (length ?L) + int (length ?K)) = length ?L + length ?K" by arith
    then show ?thesis by (simp add: vec_positions_def cp kept_upto_Suc)
  qed
  show ?thesis
    unfolding filter_vec_entries vent_def vp
  proof (rule nth_equalityI)
    show "length (map (\<lambda>p. (Ci ! p, GBH Ch k, aval C_iso Cx p))
             [length ?L ..< length ?L + length ?K])
          = length (map (\<lambda>p. (arr (Mi A) ! p, GBH (Mh A) k, aval (iso A) (arr (Mx A)) p)) ?K)"
      by simp
  next
    fix i
    assume "i < length (map (\<lambda>p. (Ci ! p, GBH Ch k, aval C_iso Cx p))
             [length ?L ..< length ?L + length ?K])"
    then have i: "i < length ?K" by simp
    note nth = kept_upto_nth [OF k i]
    have "Ci ! (length ?L + i) = arr (Mi A) ! (?K ! i)"
      using ci [OF nth(1)] nth(2) by simp
    moreover have "aval C_iso Cx (length ?L + i) = aval (iso A) (arr (Mx A)) (?K ! i)"
      using cx [OF nth(1)] nth(2) by simp
    ultimately show "map (\<lambda>p. (Ci ! p, GBH Ch k, aval C_iso Cx p))
             [length ?L ..< length ?L + length ?K] ! i
          = map (\<lambda>p. (arr (Mi A) ! p, GBH (Mh A) k, aval (iso A) (arr (Mx A)) p)) ?K ! i"
      using i h by simp
  qed
qed

lemma ents_general:
  assumes cp: "\<And>k. k \<le> n \<Longrightarrow> Cp ! k = int (length (kept_upto op flipij A k))"
    and ci: "\<And>q. q < length (kept_upto op flipij A n)
               \<Longrightarrow> Ci ! q = arr (Mi A) ! (kept_upto op flipij A n ! q)"
    and cx: "\<And>q. q < length (kept_upto op flipij A n)
               \<Longrightarrow> aval C_iso Cx q = aval (iso A) (arr (Mx A)) (kept_upto op flipij A n ! q)"
    and n: "n = nat (nvec A)"
  shows "ents Cp (Mh A) Ci Cx C_iso 0 n
           = filter (\<lambda>(i, j, x). entry_keep op flipij i j x) (entries A)"
proof -
  have "map (vent Cp (Mh A) Ci Cx C_iso) [0 ..< n]
          = map (\<lambda>k. filter (\<lambda>(i, j, x). entry_keep op flipij i j x) (vec_entries A k))
              [0 ..< n]"
  proof (rule map_cong [OF refl])
    fix k assume "k \<in> set [0 ..< n]"
    then have k: "k < n" by simp
    show "vent Cp (Mh A) Ci Cx C_iso k
            = filter (\<lambda>(i, j, x). entry_keep op flipij i j x) (vec_entries A k)"
      by (rule vent_general [OF k cp cp ci cx refl]) (use k in simp_all)
  qed
  then show ?thesis by (simp only: ents_def filter_entries n)
qed

lemma ents_cong:
  assumes "\<And>k. a \<le> k \<Longrightarrow> k \<le> b \<Longrightarrow> Cp ! k = Cp' ! k"
    and "\<And>k. a \<le> k \<Longrightarrow> k < b \<Longrightarrow> GBH Ch k = GBH Ch' k"
  shows "ents Cp Ch Ci Cx ci a b = ents Cp' Ch' Ci Cx ci a b"
proof -
  have "map (vent Cp Ch Ci Cx ci) [a ..< b] = map (vent Cp' Ch' Ci Cx ci) [a ..< b]"
  proof (rule map_cong [OF refl])
    fix k assume "k \<in> set [a ..< b]"
    then have k: "a \<le> k" "k < b" by simp_all
    have "Cp ! k = Cp' ! k" "Cp ! Suc k = Cp' ! Suc k"
      using assms(1) [of k] assms(1) [of "Suc k"] k by simp_all
    then show "vent Cp Ch Ci Cx ci k = vent Cp' Ch' Ci Cx ci k"
      using assms(2) [OF k] by (simp add: vent_def vec_positions_def)
  qed
  then show ?thesis by (simp only: ents_def)
qed

lemma vent_empty:
  "Cp ! Suc k \<le> Cp ! k \<Longrightarrow> vent Cp Ch Ci Cx ci k = []"
  by (simp add: vent_def vec_positions_def)
subsection \<open>Pruning the empty vectors and the transplant\<close>

lemma prune_new_ok:
  fixes Cp0 :: "int list"
  assumes len: "n < length Cp0" "n \<le> length Ah"
    and mono: "\<And>m. m < n \<Longrightarrow> Cp0 ! m \<le> Cp0 ! Suc m"
    and inv: "c \<le> k" "k \<le> n" "length Cp = length Cp0" "length Ch = n"
      "\<And>i. c \<le> i \<Longrightarrow> Cp ! i = Cp0 ! i"
      "ents (Cp[c := Cp0 ! k]) (Some Ch) Ci Cx ci 0 c = ents Cp0 (Some Ah) Ci Cx ci 0 k"
      "c = length (filter (\<lambda>m. Cp0 ! m < Cp0 ! Suc m) [0 ..< k])"
  shows "\<exists>c' Ch' Cp'. prune_new Ah [k ..< n] (c, Ch, Cp) = Inr (c', Ch', Cp')
           \<and> c' \<le> n \<and> length Cp' = length Cp0 \<and> Cp' ! n = Cp0 ! n
           \<and> ents (Cp'[c' := Cp0 ! n]) (Some Ch') Ci Cx ci 0 c'
               = ents Cp0 (Some Ah) Ci Cx ci 0 n
           \<and> c' = length (filter (\<lambda>m. Cp0 ! m < Cp0 ! Suc m) [0 ..< n])"
  using inv
proof (induction "n - k" arbitrary: k c Ch Cp)
  case 0
  then have kn: "k = n" by simp
  have "Cp ! n = Cp0 ! n" using 0(6) [of n] 0(2) kn by simp
  then show ?case using 0 kn by simp
next
  case (Suc d)
  then have kn: "k < n" by simp
  have up: "[k ..< n] = k # [Suc k ..< n]" using kn by (simp add: upt_conv_Cons)
  have ck: "c \<le> k" by (rule Suc.prems(1))
  have lCp: "length Cp = length Cp0" by (rule Suc.prems(3))
  have lCh: "length Ch = n" by (rule Suc.prems(4))
  have r0: "rd Cp (int k) = Inr (Cp0 ! k)"
    using Suc.prems(5) [of k] ck kn len(1) lCp by (simp add: rd_def)
  have r1: "rd Cp (int k + 1) = Inr (Cp0 ! Suc k)"
  proof -
    have "nat (int k + 1) = Suc k" by arith
    then show ?thesis
      using Suc.prems(5) [of "Suc k"] ck kn len(1) lCp by (simp add: rd_def)
  qed
  have rh: "rd Ah (int k) = Inr (Ah ! k)" using kn len(2) by (simp add: rd_def)
  have d: "d = n - Suc k" using Suc.hyps(2) by simp
  have sk: "Suc k \<le> n" using kn by simp
  show ?case
  proof (cases "Cp0 ! k < Cp0 ! Suc k")
    case True
    let ?Ch = "Ch[c := Ah ! k]" and ?Cp = "Cp[c := Cp0 ! k]"
    have cl: "c < length Ch" "c < length Cp" "Suc c < length Cp"
      using ck kn lCh lCp len(1) by simp_all
    have step: "prune_new Ah [k ..< n] (c, Ch, Cp) = prune_new Ah [Suc k ..< n] (Suc c, ?Ch, ?Cp)"
      unfolding up using True cl by (simp add: r0 r1 rh)
    have i1: "Suc c \<le> Suc k" using ck by simp
    have i3: "length ?Cp = length Cp0" using lCp by simp
    have i4: "length ?Ch = n" using lCh by simp
    have i5: "\<And>i. Suc c \<le> i \<Longrightarrow> ?Cp ! i = Cp0 ! i"
      using Suc.prems(5) by simp
    have i6: "ents (?Cp[Suc c := Cp0 ! Suc k]) (Some ?Ch) Ci Cx ci 0 (Suc c)
                = ents Cp0 (Some Ah) Ci Cx ci 0 (Suc k)"
    proof -
      let ?X = "?Cp[Suc c := Cp0 ! Suc k]"
      have a: "ents ?X (Some ?Ch) Ci Cx ci 0 c = ents ?Cp (Some Ch) Ci Cx ci 0 c"
        by (rule ents_cong) (simp_all add: GBH_def)
      have "vec_positions ?X c = vec_positions Cp0 k"
        using cl by (simp add: vec_positions_def)
      moreover have "GBH (Some ?Ch) c = GBH (Some Ah) k" using cl by (simp add: GBH_def)
      ultimately have b: "vent ?X (Some ?Ch) Ci Cx ci c = vent Cp0 (Some Ah) Ci Cx ci k"
        by (simp add: vent_def)
      show ?thesis
        unfolding ents_Suc [OF le0] a b Suc.prems(6) ..
    qed
    have i7: "Suc c = length (filter (\<lambda>m. Cp0 ! m < Cp0 ! Suc m) [0 ..< Suc k])"
      using Suc.prems(7) True by simp
    from Suc.hyps(1) [OF d i1 sk i3 i4 i5 i6 i7] show ?thesis unfolding step .
  next
    case False
    have eq: "Cp0 ! Suc k = Cp0 ! k" using False mono [OF kn] by simp
    have step: "prune_new Ah [k ..< n] (c, Ch, Cp) = prune_new Ah [Suc k ..< n] (c, Ch, Cp)"
      unfolding up using False by (simp add: r0 r1)
    have i1: "c \<le> Suc k" using ck by simp
    have ve: "vent Cp0 (Some Ah) Ci Cx ci k = []"
      by (rule vent_empty) (simp add: eq)
    have i6: "ents (Cp[c := Cp0 ! Suc k]) (Some Ch) Ci Cx ci 0 c
                = ents Cp0 (Some Ah) Ci Cx ci 0 (Suc k)"
      unfolding ents_Suc [OF le0] ve eq Suc.prems(6) by simp
    have i7: "c = length (filter (\<lambda>m. Cp0 ! m < Cp0 ! Suc m) [0 ..< Suc k])"
      using Suc.prems(7) False by simp
    from Suc.hyps(1) [OF d i1 sk lCp lCh Suc.prems(5) i6 i7] show ?thesis unfolding step .
  qed
qed

text \<open>
  The transplant into a new matrix (lines 835 to 893): \<open>C\<close> holds the entries that the
  arrays of phase 2 hold under the offsets of the cumulative sum, whether its empty
  vectors were pruned or not, and \<open>Cp [anvec]\<close> of them.
\<close>

lemma finalize_new_ok:
  assumes n: "n = nat (nvec A)" "0 \<le> nvec A" "n < length Cp"
    and h: "case Mh A of None \<Rightarrow> nvec A = vdim A | Some Ah \<Rightarrow> n \<le> length Ah"
    and mono: "\<And>m. m < n \<Longrightarrow> Cp ! m \<le> Cp ! Suc m"
    and mm: "Mh A \<noteq> None \<longrightarrow> mem env Alloc_Ch"
    and nne: "nne = int (length (filter (\<lambda>m. Cp ! m < Cp ! Suc m) [0 ..< n]))"
    and live: "live \<subseteq> workspace_sites"
  shows "\<exists>C. general_finalize_new env A C_iso nne cplen Cp Ci Cx live
               = Inr \<lparr>sel_info = GrB_SUCCESS, sel_A = A, sel_C = Some C, sel_live = {}\<rparr>
             \<and> entries C = ents Cp (Mh A) Ci Cx C_iso 0 n \<and> nvals C = Cp ! n
             \<and> vlen C = vlen A \<and> vdim C = vdim A \<and> mtype C = mtype A
             \<and> iso C = C_iso \<and> jumbled C = jumbled A"
proof -
  have "insert Alloc_Ch live \<subseteq> workspace_sites" using live by simp
  note fw = free_workspace_empty(1) [OF live] free_workspace_empty(1) [OF this]
  have rn: "rd Cp (nvec A) = Inr (Cp ! n)" using n by (simp add: rd_def)
  show ?thesis
  proof (cases "Mh A")
    case None
    have nv: "vdim A = nvec A" using h None by simp
    let ?C = "\<lparr>mtype = mtype A, vlen = vlen A, vdim = vdim A, nvec = nvec A,
               plen = cplen, nvals = Cp ! n, nvec_nonempty = nne,
               Mh = None, Mp = Some Cp, Mb = None, Mi = Some Ci, Mx = Some Cx,
               iso = C_iso, jumbled = jumbled A, nzombies = 0, Pending = False,
               p_shallow = False, h_shallow = False, b_shallow = False,
               i_shallow = False, x_shallow = False\<rparr>"
    have eq: "general_finalize_new env A C_iso nne cplen Cp Ci Cx live
               = Inr \<lparr>sel_info = GrB_SUCCESS, sel_A = A, sel_C = Some ?C, sel_live = {}\<rparr>"
      unfolding general_finalize_new_def Let_def
      using None fw by (simp add: nv rn)
    have en: "entries ?C = ents Cp (Mh A) Ci Cx C_iso 0 n"
      by (simp add: entries_ents arr_def None n)
    show ?thesis
      by (intro exI [of _ ?C] conjI eq en) simp_all
  next
    case (Some Ah)
    have la: "n \<le> length Ah" using h Some by simp
    have e0: "ents (Cp[0 := Cp ! 0]) (Some (replicate n (junk env))) Ci Cx C_iso 0 0
                = ents Cp (Some Ah) Ci Cx C_iso 0 0"
      by simp
    have c0: "(0::nat) = length (filter (\<lambda>m. Cp ! m < Cp ! Suc m) [0 ..< 0])" by simp
    have lr: "length (replicate n (junk env)) = n" by simp
    from prune_new_ok [OF n(3) la mono le0 le0 refl lr refl e0 c0]
    obtain c' Ch' Cp' where pr:
        "prune_new Ah [0 ..< n] (0, replicate n (junk env), Cp) = Inr (c', Ch', Cp')"
        "c' \<le> n" "length Cp' = length Cp" "Cp' ! n = Cp ! n"
        "ents (Cp'[c' := Cp ! n]) (Some Ch') Ci Cx C_iso 0 c' = ents Cp (Some Ah) Ci Cx C_iso 0 n"
        "c' = length (filter (\<lambda>m. Cp ! m < Cp ! Suc m) [0 ..< n])"
      by auto
    let ?C = "\<lparr>mtype = mtype A, vlen = vlen A, vdim = vdim A, nvec = int c',
               plen = cplen, nvals = Cp ! n, nvec_nonempty = nne,
               Mh = Some Ch', Mp = Some (Cp'[c' := Cp ! n]), Mb = None, Mi = Some Ci,
               Mx = Some Cx,
               iso = C_iso, jumbled = jumbled A, nzombies = 0, Pending = False,
               p_shallow = False, h_shallow = False, b_shallow = False,
               i_shallow = False, x_shallow = False\<rparr>"
    have cl: "c' < length Cp'" using pr(2,3) n(3) by simp
    have rn': "rd Cp' (nvec A) = Inr (Cp ! n)" using n pr(3,4) by (simp add: rd_def)
    have rc: "rd (Cp'[c' := Cp ! n]) (int c') = Inr (Cp ! n)" using cl by (simp add: rd_def)
    have as: "ASSERT (int c' = nne) = Inr ()" using pr(6) nne by simp
    have eq: "general_finalize_new env A C_iso nne cplen Cp Ci Cx live
               = Inr \<lparr>sel_info = GrB_SUCCESS, sel_A = A, sel_C = Some ?C, sel_live = {}\<rparr>"
      unfolding general_finalize_new_def Let_def
      using Some fw mm cl by (simp add: arr_def n(1) [symmetric] pr(1) rn' rc as)
    have en: "entries ?C = ents Cp (Mh A) Ci Cx C_iso 0 n"
      using pr(5) by (simp add: entries_ents arr_def Some)
    show ?thesis
      by (intro exI [of _ ?C] conjI eq en) simp_all
  qed
qed
subsection \<open>The transplant in place\<close>

lemma prune_in_place_ok:
  fixes Cp :: "int list"
  assumes len: "n < length Cp" "n \<le> length Ah0" "n < length Ap0"
    and mono: "\<And>m. m < n \<Longrightarrow> Cp ! m \<le> Cp ! Suc m"
    and inv: "c \<le> k" "k \<le> n" "length Ap = length Ap0" "length Ah = length Ah0"
      "\<And>i. c \<le> i \<Longrightarrow> Ah ! i = Ah0 ! i"
      "ents (Ap[c := Cp ! k]) (Some Ah) Ci Cx ci 0 c = ents Cp (Some Ah0) Ci Cx ci 0 k"
      "c = length (filter (\<lambda>m. Cp ! m < Cp ! Suc m) [0 ..< k])"
  shows "\<exists>c' Ah' Ap'. prune_in_place Cp [k ..< n] (c, Ah, Ap) = Inr (c', Ah', Ap')
           \<and> c' \<le> n \<and> length Ap' = length Ap0
           \<and> ents (Ap'[c' := Cp ! n]) (Some Ah') Ci Cx ci 0 c'
               = ents Cp (Some Ah0) Ci Cx ci 0 n
           \<and> c' = length (filter (\<lambda>m. Cp ! m < Cp ! Suc m) [0 ..< n])"
  using inv
proof (induction "n - k" arbitrary: k c Ah Ap)
  case 0
  then have kn: "k = n" by simp
  show ?case using 0 kn by simp
next
  case (Suc d)
  then have kn: "k < n" by simp
  have up: "[k ..< n] = k # [Suc k ..< n]" using kn by (simp add: upt_conv_Cons)
  have ck: "c \<le> k" by (rule Suc.prems(1))
  have lAp: "length Ap = length Ap0" by (rule Suc.prems(3))
  have lAh: "length Ah = length Ah0" by (rule Suc.prems(4))
  have r0: "rd Cp (int k) = Inr (Cp ! k)"
    using kn len(1) by (simp add: rd_def)
  have r1: "rd Cp (int k + 1) = Inr (Cp ! Suc k)"
  proof -
    have "nat (int k + 1) = Suc k" by arith
    then show ?thesis using kn len(1) by (simp add: rd_def)
  qed
  have rh: "rd Ah (int k) = Inr (Ah0 ! k)"
    using kn len(2) lAh Suc.prems(5) [OF ck] by (simp add: rd_def)
  have d: "d = n - Suc k" using Suc.hyps(2) by simp
  have sk: "Suc k \<le> n" using kn by simp
  show ?case
  proof (cases "Cp ! k < Cp ! Suc k")
    case True
    let ?Ah = "Ah[c := Ah0 ! k]" and ?Ap = "Ap[c := Cp ! k]"
    have cl: "c < length Ah" "c < length Ap" "Suc c < length Ap"
      using ck kn lAh lAp len(2,3) by simp_all
    have step: "prune_in_place Cp [k ..< n] (c, Ah, Ap)
                  = prune_in_place Cp [Suc k ..< n] (Suc c, ?Ah, ?Ap)"
      unfolding up using True cl by (simp add: r0 r1 rh)
    have i1: "Suc c \<le> Suc k" using ck by simp
    have i3: "length ?Ap = length Ap0" using lAp by simp
    have i4: "length ?Ah = length Ah0" using lAh by simp
    have i5: "\<And>i. Suc c \<le> i \<Longrightarrow> ?Ah ! i = Ah0 ! i"
      using Suc.prems(5) by simp
    have i6: "ents (?Ap[Suc c := Cp ! Suc k]) (Some ?Ah) Ci Cx ci 0 (Suc c)
                = ents Cp (Some Ah0) Ci Cx ci 0 (Suc k)"
    proof -
      let ?X = "?Ap[Suc c := Cp ! Suc k]"
      have a: "ents ?X (Some ?Ah) Ci Cx ci 0 c = ents ?Ap (Some Ah) Ci Cx ci 0 c"
        by (rule ents_cong) (simp_all add: GBH_def)
      have "vec_positions ?X c = vec_positions Cp k"
        using cl by (simp add: vec_positions_def)
      moreover have "GBH (Some ?Ah) c = GBH (Some Ah0) k" using cl by (simp add: GBH_def)
      ultimately have b: "vent ?X (Some ?Ah) Ci Cx ci c = vent Cp (Some Ah0) Ci Cx ci k"
        by (simp add: vent_def)
      show ?thesis
        unfolding ents_Suc [OF le0] a b Suc.prems(6) ..
    qed
    have i7: "Suc c = length (filter (\<lambda>m. Cp ! m < Cp ! Suc m) [0 ..< Suc k])"
      using Suc.prems(7) True by simp
    from Suc.hyps(1) [OF d i1 sk i3 i4 i5 i6 i7] show ?thesis unfolding step .
  next
    case False
    have eq: "Cp ! Suc k = Cp ! k" using False mono [OF kn] by simp
    have step: "prune_in_place Cp [k ..< n] (c, Ah, Ap)
                  = prune_in_place Cp [Suc k ..< n] (c, Ah, Ap)"
      unfolding up using False by (simp add: r0 r1)
    have i1: "c \<le> Suc k" using ck by simp
    have ve: "vent Cp (Some Ah0) Ci Cx ci k = []"
      by (rule vent_empty) (simp add: eq)
    have i6: "ents (Ap[c := Cp ! Suc k]) (Some Ah) Ci Cx ci 0 c
                = ents Cp (Some Ah0) Ci Cx ci 0 (Suc k)"
      unfolding ents_Suc [OF le0] ve eq Suc.prems(6) by simp
    have i7: "c = length (filter (\<lambda>m. Cp ! m < Cp ! Suc m) [0 ..< Suc k])"
      using Suc.prems(7) False by simp
    from Suc.hyps(1) [OF d i1 sk lAp lAh Suc.prems(5) i6 i7] show ?thesis unfolding step .
  qed
qed

text \<open>
  The transplant back into \<open>A\<close> (lines 783 to 834): \<open>A\<close> then holds the entries that
  the arrays of phase 2 hold under the offsets of the cumulative sum.
\<close>

lemma finalize_in_place_ok:
  assumes n: "n = nat (nvec A)" "0 \<le> nvec A" "n < length Cp" "n < length (arr (Mp A))"
    and h: "case Mh A of None \<Rightarrow> True | Some Ah \<Rightarrow> n \<le> length Ah"
    and mono: "\<And>m. m < n \<Longrightarrow> Cp ! m \<le> Cp ! Suc m"
    and nne: "nne = int (length (filter (\<lambda>m. Cp ! m < Cp ! Suc m) [0 ..< n]))"
    and live: "live \<subseteq> workspace_sites"
  shows "\<exists>M. general_finalize_in_place A C_iso nne cplen Cp Ci Cx live
               = Inr \<lparr>sel_info = GrB_SUCCESS, sel_A = M, sel_C = None, sel_live = {}\<rparr>
             \<and> entries M = ents Cp (Mh A) Ci Cx C_iso 0 n \<and> nvals M = Cp ! n
             \<and> vlen M = vlen A \<and> vdim M = vdim A \<and> mtype M = mtype A
             \<and> iso M = C_iso \<and> jumbled M = jumbled A"
proof -
  note fw = free_workspace_empty(1) [OF live]
  have rn: "rd Cp (nvec A) = Inr (Cp ! n)" using n by (simp add: rd_def)
  show ?thesis
  proof (cases "Mh A \<noteq> None \<and> nne < nvec A")
    case False
    let ?M = "A\<lparr>Mp := Some Cp, plen := cplen, Mi := Some Ci, Mx := Some Cx,
                 nvec_nonempty := nne, jumbled := jumbled A, iso := C_iso,
                 nvals := Cp ! n\<rparr>"
    have eq: "general_finalize_in_place A C_iso nne cplen Cp Ci Cx live
               = Inr \<lparr>sel_info = GrB_SUCCESS, sel_A = ?M, sel_C = None, sel_live = {}\<rparr>"
      unfolding general_finalize_in_place_def Let_def
      using False fw by (auto simp add: rn arr_def)
    have en: "entries ?M = ents Cp (Mh A) Ci Cx C_iso 0 n"
      by (simp add: entries_ents arr_def n)
    show ?thesis
      by (intro exI [of _ ?M] conjI eq en) simp_all
  next
    case True
    then obtain Ah where Some: "Mh A = Some Ah" by auto
    have la: "n \<le> length Ah" using h Some by simp
    let ?Ap = "arr (Mp A)"
    have e0: "ents (?Ap[0 := Cp ! 0]) (Some Ah) Ci Cx C_iso 0 0
                = ents Cp (Some Ah) Ci Cx C_iso 0 0"
      by simp
    have c0: "(0::nat) = length (filter (\<lambda>m. Cp ! m < Cp ! Suc m) [0 ..< 0])" by simp
    from prune_in_place_ok [OF n(3) la n(4) mono le0 le0 refl refl refl e0 c0]
    obtain c' Ah' Ap' where pr:
        "prune_in_place Cp [0 ..< n] (0, Ah, ?Ap) = Inr (c', Ah', Ap')"
        "c' \<le> n" "length Ap' = length ?Ap"
        "ents (Ap'[c' := Cp ! n]) (Some Ah') Ci Cx C_iso 0 c' = ents Cp (Some Ah) Ci Cx C_iso 0 n"
        "c' = length (filter (\<lambda>m. Cp ! m < Cp ! Suc m) [0 ..< n])"
      by auto
    let ?M = "A\<lparr>Mh := Some Ah', Mp := Some (Ap'[c' := Cp ! n]), nvec := int c',
                 Mi := Some Ci, Mx := Some Cx,
                 nvec_nonempty := nne, jumbled := jumbled A, iso := C_iso,
                 nvals := Cp ! n\<rparr>"
    have cl: "c' < length Ap'" using pr(2,3) n(4) by simp
    have rc: "rd (Ap'[c' := Cp ! n]) (int c') = Inr (Cp ! n)" using cl by (simp add: rd_def)
    have as: "ASSERT (int c' = nne) = Inr ()" using pr(5) nne by simp
    have ah: "arr (Some Ah) = Ah" by (simp add: arr_def)
    have eq: "general_finalize_in_place A C_iso nne cplen Cp Ci Cx live
               = Inr \<lparr>sel_info = GrB_SUCCESS, sel_A = ?M, sel_C = None, sel_live = {}\<rparr>"
      unfolding general_finalize_in_place_def Let_def
      using True fw cl
      by (simp add: Some ah n(1) [symmetric] pr(1) rn rc as arr_def [of "Some (Ap'[c' := Cp ! n])"])
    have en: "entries ?M = ents Cp (Mh A) Ci Cx C_iso 0 n"
      using pr(4) by (simp add: entries_ents arr_def Some)
    show ?thesis
      by (intro exI [of _ ?M] conjI eq en) simp_all
  qed
qed
subsection \<open>The general path as a whole\<close>

lemma kept_upto_keeps:
  assumes "q < length (kept_upto op flipij A n)"
  shows "\<exists>k. keep_at op flipij A k (kept_upto op flipij A n ! q)"
proof -
  have "kept_upto op flipij A n ! q \<in> set (kept_upto op flipij A n)"
    using assms by simp
  then show ?thesis by (auto simp: kept_upto_def kept_positions_def)
qed

lemma select_general_ok:
  assumes ok: "sparse_ok A"
    and niv: "\<not> (iso A \<and> opcode_is_value (opcode op))"
    and ci: "C_iso = (iso A \<or> opcode op = GB_VALUEEQ_idxunop_code)"
    and eq: "opcode op = GB_VALUEEQ_idxunop_code \<longrightarrow> (\<forall>i j x. test op i j x \<longrightarrow> x = athunk)"
    and mem: "mem env Alloc_Cp" "mem env Alloc_ek_slicing" "mem env Alloc_Work"
      "GB_IS_INDEXUNARYOP_CODE_POSITIONAL (opcode op) \<longrightarrow> mem env Alloc_Zp"
      "mem env Alloc_Ci" "mem env Alloc_Cx"
      "C_given \<and> Mh A \<noteq> None \<longrightarrow> mem env Alloc_Ch"
  shows "\<exists>C. GB_select_general env C_given op flipij A athunk C_iso
               = Inr \<lparr>sel_info = GrB_SUCCESS, sel_A = (if C_given then A else C),
                      sel_C = (if C_given then Some C else None), sel_live = {}\<rparr>
             \<and> entries C = filter (\<lambda>(i, j, x). entry_keep op flipij i j x) (entries A)
             \<and> nvals C = sum_list (GB_select_phase1 op flipij A)
             \<and> nvals C = snd (GB_ek_slice_merge2 (GB_select_phase1 op flipij A)
                               (GB_IMAX 1 (nvec A))) ! nat (nvec A)
             \<and> nvals C = int (length (entries C))
             \<and> vlen C = vlen A \<and> vdim C = vdim A \<and> mtype C = mtype A
             \<and> iso C = C_iso \<and> jumbled C = jumbled A"
proof -
  define n where "n = nat (nvec A)"
  define cplen where "cplen = GB_IMAX 1 (nvec A)"
  define mg where "mg = GB_ek_slice_merge2 (GB_select_phase1 op flipij A) cplen"
  define Cp where "Cp = snd mg"
  define cnz where "cnz = GB_IMAX (Cp ! n) 1"
  define Ci0 where "Ci0 = replicate (nat cnz) (junk env)"
  define Cx0 where "Cx0 = replicate (if C_iso then 1 else nat cnz) (junkx env)"
  define Cx1 where "Cx1 = (if C_iso then GB_select_iso Cx0 (opcode op) athunk (arr (Mx A))
                            else Cx0)"
  define ph2 where "ph2 = GB_select_phase2 op flipij A C_iso Cp Ci0 Cx1"
  define live where "live = {Alloc_Cp, Alloc_ek_slicing, Alloc_Work}
      \<union> (if GB_IS_INDEXUNARYOP_CODE_POSITIONAL (opcode op) then {Alloc_Zp} else {})
      \<union> {Alloc_Ci, Alloc_Cx}"
  let ?L = "kept_upto op flipij A"
  have nn: "0 \<le> nvec A" using ok by (simp add: sparse_ok_def Let_def)
  have hh: "case Mh A of None \<Rightarrow> nvec A = vdim A | Some Ah \<Rightarrow> n \<le> length Ah"
    using ok by (simp add: sparse_ok_def Let_def n_def split: option.splits)
  have cp: "\<And>k. k \<le> n \<Longrightarrow> Cp ! k = int (length (?L k))"
    unfolding Cp_def mg_def n_def by (rule merge2_nth)
  have lcp: "n < length Cp"
    by (simp add: Cp_def mg_def length_merge2 n_def)
  have mono: "\<And>m. m < n \<Longrightarrow> Cp ! m \<le> Cp ! Suc m"
  proof -
    fix m assume "m < n"
    then have "Cp ! m = int (length (?L m))" "Cp ! Suc m = int (length (?L (Suc m)))"
      using cp [of m] cp [of "Suc m"] by simp_all
    then show "Cp ! m \<le> Cp ! Suc m" by (simp add: kept_upto_Suc)
  qed
  have nne: "fst mg = int (length (filter (\<lambda>m. Cp ! m < Cp ! Suc m) [0 ..< n]))"
  proof -
    have "filter (\<lambda>k. kept_positions op flipij A k \<noteq> []) [0 ..< n]
            = filter (\<lambda>m. Cp ! m < Cp ! Suc m) [0 ..< n]"
    proof (rule filter_cong [OF refl])
      fix m assume "m \<in> set [0 ..< n]"
      then have "m < n" by simp
      then have "Cp ! m = int (length (?L m))" "Cp ! Suc m = int (length (?L (Suc m)))"
        using cp [of m] cp [of "Suc m"] by simp_all
      then show "(kept_positions op flipij A m \<noteq> []) = (Cp ! m < Cp ! Suc m)"
        by (simp add: kept_upto_Suc)
    qed
    then show ?thesis by (simp add: mg_def merge2_nonempty n_def)
  qed
  have cn: "Cp ! n = int (length (?L n))" using cp [of n] by simp
  have cap: "length (?L n) \<le> nat cnz"
    unfolding cnz_def cn GB_IMAX_def by arith
  have cap1: "length (?L n) \<le> length Ci0" using cap by (simp add: Ci0_def)
  have cap2: "\<not> C_iso \<longrightarrow> length (?L n) \<le> length Cx1"
    using cap by (simp add: Cx1_def Cx0_def)
  have cpn: "\<And>k. k \<le> n \<Longrightarrow> nat (Cp ! k) = length (?L k)" using cp by simp
  have ph: "ph2 = (map (\<lambda>p. arr (Mi A) ! p) (?L n) @ drop (length (?L n)) Ci0,
                   if C_iso then Cx1
                   else map (\<lambda>p. arr (Mx A) ! p) (?L n) @ drop (length (?L n)) Cx1)"
    unfolding ph2_def GB_select_phase2_def n_def [symmetric]
    by (rule phase2_outer [OF cpn le_refl cap1 cap2])
  have rci: "\<And>q. q < length (?L n) \<Longrightarrow> fst ph2 ! q = arr (Mi A) ! (?L n ! q)"
    by (simp add: ph nth_append)
  have rcx: "\<And>q. q < length (?L n)
               \<Longrightarrow> aval C_iso (snd ph2) q = aval (iso A) (arr (Mx A)) (?L n ! q)"
  proof -
    fix q assume q: "q < length (?L n)"
    show "aval C_iso (snd ph2) q = aval (iso A) (arr (Mx A)) (?L n ! q)"
    proof (cases C_iso)
      case False
      then have "\<not> iso A" using ci by simp
      then show ?thesis using False q by (simp add: ph aval_def nth_append)
    next
      case True
      have c1: "snd ph2 ! 0 = (if opcode op = GB_VALUEEQ_idxunop_code then athunk
                               else arr (Mx A) ! 0)"
        using True by (simp add: ph Cx1_def Cx0_def GB_select_iso_def)
      show ?thesis
      proof (cases "iso A")
        case ia: True
        then have "opcode op \<noteq> GB_VALUEEQ_idxunop_code"
          using niv by (auto simp: opcode_is_value_def)
        then show ?thesis using True ia c1 by (simp add: aval_def)
      next
        case ia: False
        then have ve: "opcode op = GB_VALUEEQ_idxunop_code" using True ci by simp
        from kept_upto_keeps [OF q] obtain k where "keep_at op flipij A k (?L n ! q)"
          by blast
        then have "arr (Mx A) ! (?L n ! q) = athunk"
          using eq ve ia by (auto simp: keep_at_def entry_keep_def aval_def split: if_splits)
        then show ?thesis using True ia c1 ve by (simp add: aval_def)
      qed
    qed
  qed
  have sub: "live \<subseteq> workspace_sites" by (simp add: live_def)
  have lap: "n < length (arr (Mp A))" using ok by (simp add: sparse_ok_def Let_def n_def)
  have hh': "case Mh A of None \<Rightarrow> True | Some Ah \<Rightarrow> n \<le> length Ah"
    using hh by (simp split: option.splits)
  have "\<exists>C. (if C_given
              then general_finalize_new env A C_iso (fst mg) cplen Cp (fst ph2) (snd ph2) live
              else general_finalize_in_place A C_iso (fst mg) cplen Cp (fst ph2) (snd ph2)
                     live)
             = Inr \<lparr>sel_info = GrB_SUCCESS, sel_A = (if C_given then A else C),
                    sel_C = (if C_given then Some C else None), sel_live = {}\<rparr>
           \<and> entries C = ents Cp (Mh A) (fst ph2) (snd ph2) C_iso 0 n \<and> nvals C = Cp ! n
           \<and> vlen C = vlen A \<and> vdim C = vdim A \<and> mtype C = mtype A
           \<and> iso C = C_iso \<and> jumbled C = jumbled A"
  proof (cases C_given)
    case True
    then have mm: "Mh A \<noteq> None \<longrightarrow> mem env Alloc_Ch" using mem(7) by simp
    from finalize_new_ok [OF n_def nn lcp hh mono mm nne sub,
        of C_iso cplen "fst ph2" "snd ph2"]
    show ?thesis using True by simp
  next
    case False
    from finalize_in_place_ok [OF n_def nn lcp lap hh' mono nne sub,
        of C_iso cplen "fst ph2" "snd ph2"]
    show ?thesis using False by simp
  qed
  then obtain C where C:
      "(if C_given
        then general_finalize_new env A C_iso (fst mg) cplen Cp (fst ph2) (snd ph2) live
        else general_finalize_in_place A C_iso (fst mg) cplen Cp (fst ph2) (snd ph2) live)
         = Inr \<lparr>sel_info = GrB_SUCCESS, sel_A = (if C_given then A else C),
                sel_C = (if C_given then Some C else None), sel_live = {}\<rparr>"
      "entries C = ents Cp (Mh A) (fst ph2) (snd ph2) C_iso 0 n" "nvals C = Cp ! n"
      "vlen C = vlen A" "vdim C = vdim A" "mtype C = mtype A"
      "iso C = C_iso" "jumbled C = jumbled A"
    by blast
  have en: "entries C = filter (\<lambda>(i, j, x). entry_keep op flipij i j x) (entries A)"
    unfolding C(2) by (rule ents_general [OF cp rci rcx n_def])
  have sg: "GB_select_general env C_given op flipij A athunk C_iso
              = (if C_given
                 then general_finalize_new env A C_iso (fst mg) cplen Cp (fst ph2) (snd ph2)
                        live
                 else general_finalize_in_place A C_iso (fst mg) cplen Cp (fst ph2)
                        (snd ph2) live)"
    unfolding GB_select_general_def Let_def general_phases_unfold [OF niv nn]
    using mem
    by (cases "GB_IS_INDEXUNARYOP_CODE_POSITIONAL (opcode op)")
       (simp_all add: live_def ph2_def Cx1_def Cx0_def Ci0_def cnz_def Cp_def mg_def
          cplen_def n_def Un_commute Un_left_commute)
  have nv1: "nvals C = sum_list (GB_select_phase1 op flipij A)"
    using cn by (simp add: C(3) sum_phase1 n_def)
  have nv2: "nvals C = snd (GB_ek_slice_merge2 (GB_select_phase1 op flipij A)
                               (GB_IMAX 1 (nvec A))) ! nat (nvec A)"
    by (simp add: C(3) Cp_def mg_def cplen_def n_def)
  have nv3: "nvals C = int (length (entries C))"
    using cn by (simp add: C(3) en length_filter_entries n_def)
  show ?thesis
    by (intro exI [of _ C] conjI en nv1 nv2 nv3 C(4-8)) (simp only: sg C(1))
qed


subsection \<open>The column selectors\<close>

text \<open>
  C5, as stated, fails for the first of the three selectors: \<open>COLINDEX\<close> does not
  select the column \<open>j\<close>, it deletes it (lines 346 and 408). On the sparse matrix of 5
  vectors with 3, 0, 2, 5 and 1 entries and \<open>j = 2\<close> the output holds the 9 entries of
  the columns 0, 3 and 4 and none of the 2 entries of the column 2.
\<close>

theorem column_selector_counterexample:
  "range_entries example_sparse 2 3 = [(1, 2, 13), (3, 2, 14)]
   \<and> (case GB_selector example_env_sel True (op_COLINDEX (- 2)) False example_sparse (- 2) 0 of
         Inl e \<Rightarrow> False
       | Inr r \<Rightarrow> (case sel_C r of
                     None \<Rightarrow> False
                   | Some C \<Rightarrow>
                       entries C = [(0, 0, 10), (2, 0, 11), (4, 0, 12), (0, 3, 15), (1, 3, 16),
                                    (2, 3, 17), (3, 3, 18), (4, 3, 19), (5, 4, 20)]
                       \<and> nvals C = 9))"
proof -
  have a: "range_entries example_sparse 2 3 = [(1, 2, 13), (3, 2, 14)]"
    by code_simp
  have b: "case GB_selector example_env_sel True (op_COLINDEX (- 2)) False example_sparse (- 2) 0 of
         Inl e \<Rightarrow> False
       | Inr r \<Rightarrow> (case sel_C r of
                     None \<Rightarrow> False
                   | Some C \<Rightarrow>
                       entries C = [(0, 0, 10), (2, 0, 11), (4, 0, 12), (0, 3, 15), (1, 3, 16),
                                    (2, 3, 17), (3, 3, 18), (4, 3, 19), (5, 4, 20)]
                       \<and> nvals C = 9)"
    by code_simp
  show ?thesis using a b by (rule conjI)
qed

text \<open>
  A user-defined operator that keeps an entry according to its column alone goes, on a
  sparse or hypersparse matrix that is not as-if-full, to the general two-phase path,
  which gives the entries of \<open>A\<close> in the columns that are kept.
\<close>

lemma general_path_on_columns:
  assumes "sparse_ok A" and "\<not> GB_as_if_full A"
    and "opcode op2 = GB_USER_idxunop_code"
    and keep: "\<And>i c x. entry_keep op2 flipij2 i c x = P c"
    and "mem env Alloc_Cp" and "mem env Alloc_ek_slicing" and "mem env Alloc_Work"
    and "mem env Alloc_Ci" and "mem env Alloc_Cx" and "Mh A \<noteq> None \<longrightarrow> mem env Alloc_Ch"
  shows "\<exists>C2. GB_selector env True op2 flipij2 A ithunk2 athunk2
                = Inr \<lparr>sel_info = GrB_SUCCESS, sel_A = A, sel_C = Some C2, sel_live = {}\<rparr>
              \<and> GB_selector env True op2 flipij2 A ithunk2 athunk2
                  = GB_select_general env True op2 flipij2 A athunk2 (iso A)
              \<and> entries C2 = filter (\<lambda>(i, c, x). P c) (entries A)
              \<and> nvals C2 = int (length (entries C2))"
proof -
  have nb: "\<not> GB_IS_BITMAP A" by (rule sparse_ok_not_bitmap [OF assms(1)])
  have g1: "\<not> (iso A \<and> opcode_is_value (opcode op2))"
    by (simp add: assms(3) opcode_is_value_def)
  have g2: "\<not> use_selector_bitmap (opcode op2) (\<not> True) A"
    using nb assms(2) by (simp add: use_selector_bitmap_def assms(3))
  have g3: "\<not> is_column_opcode (opcode op2)" by (simp add: is_column_opcode_def assms(3))
  have g4: "GB_OPCODE_IS_POSITIONAL (opcode op2) \<longrightarrow> \<not> jumbled A"
    by (simp add: GB_OPCODE_IS_POSITIONAL_def GB_IS_INDEXUNARYOP_CODE_POSITIONAL_def assms(3))
  have g5: "opcode op2 = GB_VALUEEQ_idxunop_code
              \<longrightarrow> (\<forall>i j x. test op2 i j x \<longrightarrow> x = athunk2)"
    by (simp add: assms(3))
  have g6: "GB_IS_INDEXUNARYOP_CODE_POSITIONAL (opcode op2) \<longrightarrow> mem env Alloc_Zp"
    by (simp add: GB_IS_INDEXUNARYOP_CODE_POSITIONAL_def assms(3))
  have g7: "True \<and> Mh A \<noteq> None \<longrightarrow> mem env Alloc_Ch" using assms(10) by simp
  have ci: "iso A = (iso A \<or> opcode op2 = GB_VALUEEQ_idxunop_code)" by (simp add: assms(3))
  have path: "GB_selector env True op2 flipij2 A ithunk2 athunk2
                = GB_select_general env True op2 flipij2 A athunk2 (iso A)"
    using selector_takes_general_path [OF g1 g2 g3 g4 nb, of env flipij2 ithunk2 athunk2]
    by (simp add: assms(3))
  from select_general_ok [OF assms(1) g1 ci g5 assms(5,6,7) g6 assms(8,9) g7, of flipij2]
  obtain C2 where C2:
      "GB_select_general env True op2 flipij2 A athunk2 (iso A)
         = Inr \<lparr>sel_info = GrB_SUCCESS, sel_A = A, sel_C = Some C2, sel_live = {}\<rparr>"
      "entries C2 = filter (\<lambda>(i, j, x). entry_keep op2 flipij2 i j x) (entries A)"
      "nvals C2 = int (length (entries C2))"
    by auto
  have sel: "GB_selector env True op2 flipij2 A ithunk2 athunk2
               = Inr \<lparr>sel_info = GrB_SUCCESS, sel_A = A, sel_C = Some C2, sel_live = {}\<rparr>"
    unfolding path by (rule C2(1))
  have en: "entries C2 = filter (\<lambda>(i, c, x). P c) (entries A)"
    unfolding C2(2) by (rule filter_cong [OF refl]) (simp add: keep split_def)
  show ?thesis by (intro exI [of _ C2] conjI sel path en C2(3))
qed

text \<open>
  C5, amended. Take a well-formed sparse or hypersparse matrix \<open>A\<close> that is not jumbled
  and not as-if-full (an as-if-full matrix goes to the bitmap selector), one of the column
  selectors \<open>COLINDEX\<close> (which deletes the column \<open>j\<close>), \<open>COLLE\<close> (columns up to
  \<open>j\<close>) and \<open>COLGT\<close> (columns after \<open>j\<close>), and an environment in which the output
  can be allocated. The selector succeeds and leaves \<open>A\<close> as it was. The lookup ends at a
  vector \<open>k\<close>: for a column in range it is the result of the binary search of the
  hyperlist, or \<open>j\<close> itself when \<open>A\<close> is not hypersparse; the vectors before \<open>k\<close> are
  the columns less than \<open>j\<close>, the vector \<open>k\<close> is the column \<open>j\<close> when it was found,
  and the vectors after it are the columns greater than \<open>j\<close>. The output \<open>C\<close> holds
  contiguous ranges of the vectors of \<open>A\<close> (those before \<open>k\<close> and those after the
  column for \<open>COLINDEX\<close>, those up to the column for \<open>COLLE\<close>, those after it for
  \<open>COLGT\<close>), which are exactly the entries of \<open>A\<close> in the columns that the selector
  keeps, in the order of \<open>A\<close>; its entry count is the number of these entries and is the
  closed form of lines 338 to 361 in the vector-start offsets, and so is its vector count
  whenever the output is built (neither empty nor a copy of \<open>A\<close>). It has the dimensions
  and the type of \<open>A\<close>. Whenever the general two-phase path can allocate its arrays, a
  user-defined operator that keeps the same columns goes to that path and gives an output
  with the same entries and the same count. In particular, for the sparse matrix of 5
  vectors with 3, 0, 2, 5 and 1 entries the selector of the columns up to 2 gives the
  vectors 0 to 2 with 5 entries, and the general two-phase path gives the same entries
  and the same count for a user-defined operator that keeps the same columns.
\<close>

theorem column_selector_correct:
  assumes "is_column_opcode (opcode op)" and "sparse_ok A" and "\<not> jumbled A"
    and "\<not> GB_as_if_full A"
    and "mem env Alloc_shallow_copy" and "mem env Alloc_new" and "mem env Alloc_new_bix"
  shows "\<exists>C k found.
           GB_selector env True op flipij A ithunk athunk
             = Inr \<lparr>sel_info = GrB_SUCCESS, sel_A = A, sel_C = Some C, sel_live = {}\<rparr>
           \<and> col_find (opcode op) ithunk (vdim A) (nvec A) (Mh A) = Inr (int k, found)
           \<and> (0 \<le> col_thunk (opcode op) ithunk \<and> col_thunk (opcode op) ithunk < vdim A
                \<longrightarrow> (case Mh A of
                       None \<Rightarrow> int k = col_thunk (opcode op) ithunk \<and> found
                     | Some Ah \<Rightarrow>
                         GB_SPLIT_BINARY_SEARCH (col_thunk (opcode op) ithunk) Ah 0
                           (nvec A - 1) = Inr (int k, found)))
           \<and> k + (if found then 1 else 0) \<le> nat (nvec A)
           \<and> (found \<longrightarrow> GBH (Mh A) k = col_thunk (opcode op) ithunk)
           \<and> (\<forall>m. m < k \<longrightarrow> GBH (Mh A) m < col_thunk (opcode op) ithunk)
           \<and> (\<forall>m. k + (if found then 1 else 0) \<le> m \<and> m < nat (nvec A)
                  \<longrightarrow> col_thunk (opcode op) ithunk < GBH (Mh A) m)
           \<and> entries C = col_kept (opcode op) A k (k + (if found then 1 else 0))
           \<and> entries C = filter (\<lambda>(i, c, x). col_keeps (opcode op)
                                     (col_thunk (opcode op) ithunk) c) (entries A)
           \<and> nvals C = int (length (entries C))
           \<and> nvals C =
               (let Ap = arr (Mp A); pstart = Ap ! k;
                    pend = Ap ! (k + (if found then 1 else 0)); anz = Ap ! nat (nvec A)
                in if opcode op = GB_COLINDEX_idxunop_code then anz - (pend - pstart)
                   else if opcode op = GB_COLLE_idxunop_code then pend else anz - pend)
           \<and> (nvals C \<noteq> nvals A \<and> nvals C \<noteq> 0 \<longrightarrow>
                nvec C =
                  (if opcode op = GB_COLINDEX_idxunop_code
                   then (if Mh A \<noteq> None \<and> found then nvec A - 1 else nvec A)
                   else if opcode op = GB_COLLE_idxunop_code
                   then (if Mh A \<noteq> None then int k + (if found then 1 else 0) else nvec A)
                   else nvec A - (if Mh A \<noteq> None then int k + (if found then 1 else 0)
                                  else 0)))
           \<and> vlen C = vlen A \<and> vdim C = vdim A \<and> mtype C = mtype A
           \<and> (\<forall>op2 flipij2 ithunk2 athunk2.
                 opcode op2 = GB_USER_idxunop_code
                 \<and> (\<forall>i c x. entry_keep op2 flipij2 i c x
                               = col_keeps (opcode op) (col_thunk (opcode op) ithunk) c)
                 \<and> mem env Alloc_Cp \<and> mem env Alloc_ek_slicing \<and> mem env Alloc_Work
                 \<and> mem env Alloc_Ci \<and> mem env Alloc_Cx
                 \<and> (Mh A \<noteq> None \<longrightarrow> mem env Alloc_Ch)
                 \<longrightarrow> (\<exists>C2. GB_selector env True op2 flipij2 A ithunk2 athunk2
                             = Inr \<lparr>sel_info = GrB_SUCCESS, sel_A = A, sel_C = Some C2,
                                    sel_live = {}\<rparr>
                           \<and> GB_selector env True op2 flipij2 A ithunk2 athunk2
                               = GB_select_general env True op2 flipij2 A athunk2 (iso A)
                           \<and> entries C2 = entries C \<and> nvals C2 = nvals C))"
proof -
  let ?opc = "opcode op" and ?j = "col_thunk (opcode op) ithunk"
  have path: "GB_selector env True op flipij A ithunk athunk
                = GB_select_column env True ?opc A ithunk (iso A)"
    by (rule selector_takes_column_path [OF assms(1,3,2,4)])
  from select_column_ok [OF assms(2,1,5,6,7), of ithunk]
  obtain C k found where
    run: "GB_select_column env True ?opc A ithunk (iso A)
            = Inr \<lparr>sel_info = GrB_SUCCESS, sel_A = A, sel_C = Some C, sel_live = {}\<rparr>"
    and cf: "col_find ?opc ithunk (vdim A) (nvec A) (Mh A) = Inr (int k, found)"
    and rest: "k + (if found then 1 else 0) \<le> nat (nvec A)
           \<and> (found \<longrightarrow> GBH (Mh A) k = ?j)
           \<and> (\<forall>m. m < k \<longrightarrow> GBH (Mh A) m < ?j)
           \<and> (\<forall>m. k + (if found then 1 else 0) \<le> m \<and> m < nat (nvec A)
                  \<longrightarrow> ?j < GBH (Mh A) m)
           \<and> entries C = col_kept ?opc A k (k + (if found then 1 else 0))
           \<and> entries C = filter (\<lambda>(i, c, x). col_keeps ?opc ?j c) (entries A)
           \<and> nvals C = int (length (entries C))
           \<and> nvals C =
               (let Ap = arr (Mp A); pstart = Ap ! k;
                    pend = Ap ! (k + (if found then 1 else 0)); anz = Ap ! nat (nvec A)
                in if ?opc = GB_COLINDEX_idxunop_code then anz - (pend - pstart)
                   else if ?opc = GB_COLLE_idxunop_code then pend else anz - pend)
           \<and> (nvals C \<noteq> nvals A \<and> nvals C \<noteq> 0 \<longrightarrow>
                nvec C =
                  (if ?opc = GB_COLINDEX_idxunop_code
                   then (if Mh A \<noteq> None \<and> found then nvec A - 1 else nvec A)
                   else if ?opc = GB_COLLE_idxunop_code
                   then (if Mh A \<noteq> None then int k + (if found then 1 else 0) else nvec A)
                   else nvec A - (if Mh A \<noteq> None then int k + (if found then 1 else 0)
                                  else 0)))
           \<and> vlen C = vlen A \<and> vdim C = vdim A \<and> mtype C = mtype A"
    by blast
  have look: "0 \<le> ?j \<and> ?j < vdim A
                \<longrightarrow> (case Mh A of
                       None \<Rightarrow> int k = ?j \<and> found
                     | Some Ah \<Rightarrow>
                         GB_SPLIT_BINARY_SEARCH ?j Ah 0 (nvec A - 1) = Inr (int k, found))"
    using cf by (auto simp: col_find_def col_thunk_def Let_def split: option.splits)
  have sel: "GB_selector env True op flipij A ithunk athunk
               = Inr \<lparr>sel_info = GrB_SUCCESS, sel_A = A, sel_C = Some C, sel_live = {}\<rparr>"
    unfolding path by (rule run)
  have eC: "entries C = filter (\<lambda>(i, c, x). col_keeps ?opc ?j c) (entries A)"
    and nC: "nvals C = int (length (entries C))"
    using rest by blast+
  have gen: "\<forall>op2 flipij2 ithunk2 athunk2.
                 opcode op2 = GB_USER_idxunop_code
                 \<and> (\<forall>i c x. entry_keep op2 flipij2 i c x = col_keeps ?opc ?j c)
                 \<and> mem env Alloc_Cp \<and> mem env Alloc_ek_slicing \<and> mem env Alloc_Work
                 \<and> mem env Alloc_Ci \<and> mem env Alloc_Cx
                 \<and> (Mh A \<noteq> None \<longrightarrow> mem env Alloc_Ch)
                 \<longrightarrow> (\<exists>C2. GB_selector env True op2 flipij2 A ithunk2 athunk2
                             = Inr \<lparr>sel_info = GrB_SUCCESS, sel_A = A, sel_C = Some C2,
                                    sel_live = {}\<rparr>
                           \<and> GB_selector env True op2 flipij2 A ithunk2 athunk2
                               = GB_select_general env True op2 flipij2 A athunk2 (iso A)
                           \<and> entries C2 = entries C \<and> nvals C2 = nvals C)"
  proof (intro allI impI)
    fix op2 :: "'a GrB_IndexUnaryOp" and flipij2 ithunk2 and athunk2 :: 'a
    assume p: "opcode op2 = GB_USER_idxunop_code
                 \<and> (\<forall>i c x. entry_keep op2 flipij2 i c x = col_keeps ?opc ?j c)
                 \<and> mem env Alloc_Cp \<and> mem env Alloc_ek_slicing \<and> mem env Alloc_Work
                 \<and> mem env Alloc_Ci \<and> mem env Alloc_Cx
                 \<and> (Mh A \<noteq> None \<longrightarrow> mem env Alloc_Ch)"
    then have p1: "opcode op2 = GB_USER_idxunop_code"
      and p2: "\<And>i c x. entry_keep op2 flipij2 i c x = col_keeps ?opc ?j c"
      and p3: "mem env Alloc_Cp" "mem env Alloc_ek_slicing" "mem env Alloc_Work"
        "mem env Alloc_Ci" "mem env Alloc_Cx" "Mh A \<noteq> None \<longrightarrow> mem env Alloc_Ch"
      by blast+
    from general_path_on_columns [OF assms(2,4) p1 p2 p3, of ithunk2 athunk2]
    obtain C2 where C2:
        "GB_selector env True op2 flipij2 A ithunk2 athunk2
           = Inr \<lparr>sel_info = GrB_SUCCESS, sel_A = A, sel_C = Some C2, sel_live = {}\<rparr>"
        "GB_selector env True op2 flipij2 A ithunk2 athunk2
           = GB_select_general env True op2 flipij2 A athunk2 (iso A)"
        "entries C2 = filter (\<lambda>(i, c, x). col_keeps ?opc ?j c) (entries A)"
        "nvals C2 = int (length (entries C2))"
      by blast
    have e2: "entries C2 = entries C" unfolding C2(3) eC ..
    have n2: "nvals C2 = nvals C" unfolding C2(4) nC e2 ..
    show "\<exists>C2. GB_selector env True op2 flipij2 A ithunk2 athunk2
                 = Inr \<lparr>sel_info = GrB_SUCCESS, sel_A = A, sel_C = Some C2, sel_live = {}\<rparr>
               \<and> GB_selector env True op2 flipij2 A ithunk2 athunk2
                   = GB_select_general env True op2 flipij2 A athunk2 (iso A)
               \<and> entries C2 = entries C \<and> nvals C2 = nvals C"
      by (intro exI [of _ C2] conjI C2(1,2) e2 n2)
  qed
  show ?thesis
    by (intro exI [of _ C] exI [of _ k] exI [of _ found] conjI sel cf look)
       (use rest gen in blast)+
qed
text \<open>
  The sparse matrix of 5 vectors with 3, 0, 2, 5 and 1 entries and the selector of the
  columns up to 2: the output holds the vectors 0 to 2, with 5 entries, and the general
  two-phase path gives the same entries and the same count for a user-defined operator
  that keeps the same columns.
\<close>

theorem column_selector_correct_witness:
  "\<exists>C C2. GB_selector example_env_sel True (op_COLLE 2) False example_sparse 2 0
          = Inr \<lparr>sel_info = GrB_SUCCESS, sel_A = example_sparse, sel_C = Some C,
                 sel_live = {}\<rparr>
        \<and> entries C = [(0, 0, 10), (2, 0, 11), (4, 0, 12), (1, 2, 13), (3, 2, 14)]
        \<and> nvals C = 5
        \<and> GB_selector example_env_sel True (op_USER (\<lambda>i j x. j \<le> 2)) False
              example_sparse 0 0
            = Inr \<lparr>sel_info = GrB_SUCCESS, sel_A = example_sparse, sel_C = Some C2,
                   sel_live = {}\<rparr>
        \<and> GB_selector example_env_sel True (op_USER (\<lambda>i j x. j \<le> 2)) False
              example_sparse 0 0
            = GB_select_general example_env_sel True (op_USER (\<lambda>i j x. j \<le> 2)) False
                example_sparse 0 False
        \<and> entries C2 = entries C \<and> nvals C2 = nvals C"
proof -
  let ?A = example_sparse and ?op = "op_COLLE 2" and ?op2 = "op_USER (\<lambda>i j x. j \<le> 2)"
  have h1: "is_column_opcode (opcode ?op)" by (simp add: is_column_opcode_def op_COLLE_def)
  have h2: "sparse_ok ?A"
    by (simp add: sparse_ok_def Let_def example_sparse_def arr_def)
  have h3: "\<not> jumbled ?A" by (simp add: example_sparse_def)
  have h4: "\<not> GB_as_if_full ?A"
    by (simp add: GB_as_if_full_def GB_IS_FULL_def GB_nnz_def example_sparse_def)
  have m: "mem example_env_sel Alloc_shallow_copy" "mem example_env_sel Alloc_new"
    "mem example_env_sel Alloc_new_bix"
    by (simp_all add: example_env_sel_def)
  have ct: "col_thunk (opcode ?op) 2 = 2" by (simp add: col_thunk_def op_COLLE_def)
  from column_selector_correct [OF h1 h2 h3 h4 m, of False 2 0]
  obtain C where sel: "GB_selector example_env_sel True ?op False ?A 2 0
          = Inr \<lparr>sel_info = GrB_SUCCESS, sel_A = ?A, sel_C = Some C, sel_live = {}\<rparr>"
    and e: "entries C = filter (\<lambda>(i, c, x). col_keeps (opcode ?op)
                                  (col_thunk (opcode ?op) 2) c) (entries ?A)"
    and nv: "nvals C = int (length (entries C))"
    and gen: "opcode ?op2 = GB_USER_idxunop_code
                 \<and> (\<forall>i c x. entry_keep ?op2 False i c x
                               = col_keeps (opcode ?op) (col_thunk (opcode ?op) 2) c)
                 \<and> mem example_env_sel Alloc_Cp \<and> mem example_env_sel Alloc_ek_slicing
                 \<and> mem example_env_sel Alloc_Work
                 \<and> mem example_env_sel Alloc_Ci \<and> mem example_env_sel Alloc_Cx
                 \<and> (Mh ?A \<noteq> None \<longrightarrow> mem example_env_sel Alloc_Ch)
                 \<longrightarrow> (\<exists>C2. GB_selector example_env_sel True ?op2 False ?A 0 0
                             = Inr \<lparr>sel_info = GrB_SUCCESS, sel_A = ?A, sel_C = Some C2,
                                    sel_live = {}\<rparr>
                           \<and> GB_selector example_env_sel True ?op2 False ?A 0 0
                               = GB_select_general example_env_sel True ?op2 False ?A 0
                                   (iso ?A)
                           \<and> entries C2 = entries C \<and> nvals C2 = nvals C)"
    by blast
  have pre: "opcode ?op2 = GB_USER_idxunop_code
                 \<and> (\<forall>i c x. entry_keep ?op2 False i c x
                               = col_keeps (opcode ?op) (col_thunk (opcode ?op) 2) c)
                 \<and> mem example_env_sel Alloc_Cp \<and> mem example_env_sel Alloc_ek_slicing
                 \<and> mem example_env_sel Alloc_Work
                 \<and> mem example_env_sel Alloc_Ci \<and> mem example_env_sel Alloc_Cx
                 \<and> (Mh ?A \<noteq> None \<longrightarrow> mem example_env_sel Alloc_Ch)"
    unfolding ct
    by (simp add: op_USER_def op_COLLE_def entry_keep_def col_keeps_def example_env_sel_def)
  have ia: "iso ?A = False" by (simp add: example_sparse_def)
  from gen pre obtain C2 where C2:
      "GB_selector example_env_sel True ?op2 False ?A 0 0
         = Inr \<lparr>sel_info = GrB_SUCCESS, sel_A = ?A, sel_C = Some C2, sel_live = {}\<rparr>"
      "GB_selector example_env_sel True ?op2 False ?A 0 0
         = GB_select_general example_env_sel True ?op2 False ?A 0 False"
      "entries C2 = entries C" "nvals C2 = nvals C"
    unfolding ia by blast
  have fe: "filter (\<lambda>(i, c, x). col_keeps (opcode ?op) 2 c) (entries ?A)
              = [(0, 0, 10), (2, 0, 11), (4, 0, 12), (1, 2, 13), (3, 2, 14)]"
    by code_simp
  have ec: "entries C = [(0, 0, 10), (2, 0, 11), (4, 0, 12), (1, 2, 13), (3, 2, 14)]"
    using e unfolding ct fe .
  have nc: "nvals C = 5" using nv unfolding ec by simp
  show ?thesis
    by (intro exI [of _ C] exI [of _ C2] conjI sel ec nc C2)
qed


section \<open>The general two-phase path selects the entries that satisfy the operator\<close>




end
